(* ===== verification/Prelude.thy ===== *)
theory Prelude
  imports Main "HOL-Library.Char_ord"
begin

text \<open>
  Shared vocabulary of the development: the Python string methods the code calls (on ASCII text,
  as \<open>char list\<close>), truthiness of optional strings, \<open>dict\<close>s as association lists that keep insertion
  order, and the collections of hints the component theories fill.
\<close>

named_theorems order_rules \<open>facts about the order life cycle\<close>
named_theorems float_rules \<open>facts about binary64 rounding\<close>
named_theorems queue_rules \<open>facts about the intent queue\<close>
named_theorems dict_rules \<open>facts about association-list dictionaries\<close>

section \<open>Strings\<close>

text \<open>\<open>str.upper\<close>, \<open>str.lower\<close> and \<open>str.strip\<close> on ASCII text.\<close>

definition char_upper :: "char \<Rightarrow> char" where
  "char_upper c = (let n = (of_char c :: nat) in if 97 \<le> n \<and> n \<le> 122 then char_of (n - 32) else c)"

definition char_lower :: "char \<Rightarrow> char" where
  "char_lower c = (let n = (of_char c :: nat) in if 65 \<le> n \<and> n \<le> 90 then char_of (n + 32) else c)"

definition is_space :: "char \<Rightarrow> bool" where
  "is_space c = (let n = (of_char c :: nat) in n = 32 \<or> (9 \<le> n \<and> n \<le> 13) \<or> (28 \<le> n \<and> n \<le> 31))"

definition is_digit :: "char \<Rightarrow> bool" where
  "is_digit c = (let n = (of_char c :: nat) in 48 \<le> n \<and> n \<le> 57)"

definition is_alpha :: "char \<Rightarrow> bool" where
  "is_alpha c = (let n = (of_char c :: nat) in (65 \<le> n \<and> n \<le> 90) \<or> (97 \<le> n \<and> n \<le> 122))"

definition py_upper :: "string \<Rightarrow> string" where
  "py_upper s = map char_upper s"

definition py_lower :: "string \<Rightarrow> string" where
  "py_lower s = map char_lower s"

definition py_strip :: "string \<Rightarrow> string" where
  "py_strip s = rev (dropWhile is_space (rev (dropWhile is_space s)))"

lemma length_py_upper [simp]: "length (py_upper s) = length s"
  by (simp add: py_upper_def)

lemma py_upper_append [simp]: "py_upper (s @ t) = py_upper s @ py_upper t"
  by (simp add: py_upper_def)

lemma char_upper_idem [simp]: "char_upper (char_upper c) = char_upper c"
  by (auto simp: char_upper_def Let_def of_char_of)

lemma py_upper_idem [simp]: "py_upper (py_upper s) = py_upper s"
  by (simp add: py_upper_def)

text \<open>\<open>s or d\<close> for an optional string: \<open>None\<close> and the empty string are false.\<close>

definition str_or :: "string option \<Rightarrow> string \<Rightarrow> string" where
  "str_or s d = (case s of None \<Rightarrow> d | Some t \<Rightarrow> if t = [] then d else t)"

definition truthy :: "string option \<Rightarrow> bool" where
  "truthy s = (s \<noteq> None \<and> s \<noteq> Some [])"

section \<open>Dictionaries in insertion order\<close>

text \<open>
  A Python \<open>dict\<close> keeps the order in which keys were first inserted: assigning an existing key
  keeps its place.
\<close>

type_synonym ('k, 'v) dict = "('k \<times> 'v) list"

fun dict_set :: "'k \<Rightarrow> 'v \<Rightarrow> ('k, 'v) dict \<Rightarrow> ('k, 'v) dict" where
  "dict_set k v [] = [(k, v)]"
| "dict_set k v ((k', v') # d) = (if k' = k then (k, v) # d else (k', v') # dict_set k v d)"

definition dict_get :: "('k, 'v) dict \<Rightarrow> 'k \<Rightarrow> 'v option" where
  "dict_get d k = map_of d k"

definition dict_keys :: "('k, 'v) dict \<Rightarrow> 'k list" where
  "dict_keys d = map fst d"

definition dict_pop :: "'k \<Rightarrow> ('k, 'v) dict \<Rightarrow> ('k, 'v) dict" where
  "dict_pop k d = filter (\<lambda>e. fst e \<noteq> k) d"

lemma map_of_dict_set: "map_of (dict_set k v d) = (map_of d)(k \<mapsto> v)"
  by (induction k v d rule: dict_set.induct) (auto simp: fun_eq_iff)

lemma dict_get_set [simp, dict_rules]: "dict_get (dict_set k v d) k' = (if k' = k then Some v else dict_get d k')"
  by (simp add: dict_get_def map_of_dict_set)

lemma dict_get_empty [simp]: "dict_get [] k = None"
  by (simp add: dict_get_def)

lemma set_dict_keys_set [simp, dict_rules]: "set (dict_keys (dict_set k v d)) = insert k (set (dict_keys d))"
  unfolding dict_keys_def by (induction k v d rule: dict_set.induct) auto

lemma distinct_dict_set [simp, dict_rules]: "distinct (dict_keys d) \<Longrightarrow> distinct (dict_keys (dict_set k v d))"
proof (induction k v d rule: dict_set.induct)
  case (2 k v k' v' d)
  then show ?case
    using set_dict_keys_set [of k v d] by (auto simp: dict_keys_def)
qed (simp add: dict_keys_def)

lemma dict_get_None_iff [dict_rules]: "dict_get d k = None \<longleftrightarrow> k \<notin> set (dict_keys d)"
  by (simp add: dict_get_def dict_keys_def map_of_eq_None_iff)

section \<open>Lists\<close>

lemma last_in_filter: "filter P xs \<noteq> [] \<Longrightarrow> last (filter P xs) \<in> set xs"
  using last_in_set by fastforce

lemma sum_list_nonneg_map: "(\<And>x. x \<in> set xs \<Longrightarrow> 0 \<le> (f x :: int)) \<Longrightarrow> 0 \<le> sum_list (map f xs)"
  by (induction xs) auto

section \<open>Integers written as text\<close>

text \<open>
  \<open>int(s)\<close> on ASCII text: surrounding white space, an optional sign, digits with single
  underscores between them; \<open>None\<close> where Python raises \<open>ValueError\<close>.
\<close>

fun digits_value :: "int \<Rightarrow> bool \<Rightarrow> string \<Rightarrow> int option" where
  "digits_value acc after_digit [] = (if after_digit then Some acc else None)"
| "digits_value acc after_digit (c # cs) =
     (if is_digit c then digits_value (10 * acc + int (of_char c - 48)) True cs
      else if c = CHR ''_'' \<and> after_digit then digits_value acc False cs else None)"

definition py_int_of :: "string \<Rightarrow> int option" where
  "py_int_of s = (case py_strip s of
      [] \<Rightarrow> None
    | c # cs \<Rightarrow> if c = CHR ''-'' then map_option uminus (digits_value 0 False cs)
                else if c = CHR ''+'' then digits_value 0 False cs
                else digits_value 0 False (c # cs))"

fun split_on :: "char \<Rightarrow> string \<Rightarrow> string list" where
  "split_on d [] = [[]]"
| "split_on d (c # cs) = (if c = d then [] # split_on d cs
     else (case split_on d cs of p # ps \<Rightarrow> (c # p) # ps | [] \<Rightarrow> [[c]]))"

text \<open>\<open>str(n)\<close> of an integer.\<close>

definition digit_char :: "nat \<Rightarrow> char" where
  "digit_char n = char_of (48 + n)"

fun show_nat :: "nat \<Rightarrow> string" where
  "show_nat n = (if n < 10 then [digit_char n] else show_nat (n div 10) @ [digit_char (n mod 10)])"

declare show_nat.simps [simp del]

definition show_int :: "int \<Rightarrow> string" where
  "show_int k = (if k < 0 then CHR ''-'' # show_nat (nat (- k)) else show_nat (nat k))"

lemma digit_char_inj: "m < 10 \<Longrightarrow> n < 10 \<Longrightarrow> digit_char m = digit_char n \<Longrightarrow> m = n"
proof -
  assume a: "m < 10" "n < 10" "digit_char m = digit_char n"
  have "(of_char (digit_char k) :: nat) = 48 + k" if "k < 10" for k
    using that by (simp add: digit_char_def of_char_of)
  then show ?thesis using a by (metis add_left_cancel)
qed

lemma show_nat_nonempty [simp]: "show_nat n \<noteq> []"
  by (subst show_nat.simps) simp

lemma show_nat_long: "10 \<le> n \<Longrightarrow> 2 \<le> length (show_nat n)"
  using show_nat_nonempty [of "n div 10"]
  by (subst show_nat.simps) (auto simp del: show_nat_nonempty simp: Suc_le_eq)

lemma show_nat_inj: "show_nat m = show_nat n \<Longrightarrow> m = n"
proof (induction m arbitrary: n rule: show_nat.induct)
  case (1 m)
  have short: "length (show_nat k) = 1" if "k < 10" for k using that by (subst show_nat.simps) simp
  show ?case
  proof (cases "m < 10")
    case True
    then have n: "n < 10" using 1(2) short [of m] show_nat_long [of n] by (cases "n < 10") auto
    have "digit_char m = digit_char n"
      using 1(2) True n by (simp add: show_nat.simps [of m] show_nat.simps [of n])
    then show ?thesis using True n digit_char_inj by blast
  next
    case False
    then have n: "\<not> n < 10" using 1(2) short [of n] show_nat_long [of m] by (cases "n < 10") auto
    have e: "show_nat (m div 10) = show_nat (n div 10)" "digit_char (m mod 10) = digit_char (n mod 10)"
      using 1(2) False n by (simp_all add: show_nat.simps [of m] show_nat.simps [of n])
    have "m div 10 = n div 10" using 1(1) False e(1) by blast
    moreover have "m mod 10 = n mod 10" using e(2) by (intro digit_char_inj) simp_all
    ultimately show ?thesis by (metis div_mult_mod_eq)
  qed
qed

lemma show_nat_digit: "hd (show_nat n) \<noteq> CHR ''-''"
proof (induction n rule: show_nat.induct)
  case (1 n)
  show ?case
  proof (cases "n < 10")
    case True
    have "(of_char (digit_char n) :: nat) = 48 + n" using True by (simp add: digit_char_def of_char_of)
    moreover have "(of_char (CHR ''-'') :: nat) = 45" by simp
    ultimately have "digit_char n \<noteq> CHR ''-''" by (intro notI) simp
    then show ?thesis using True by (subst show_nat.simps) simp
  next
    case False
    then show ?thesis using 1 show_nat_nonempty [of "n div 10"]
      by (subst show_nat.simps) (simp add: hd_append)
  qed
qed

lemma show_int_inj [simp]: "show_int a = show_int b \<longleftrightarrow> a = b"
proof
  assume e: "show_int a = show_int b"
  have h: "show_nat n \<noteq> CHR ''-'' # xs" "CHR ''-'' # xs \<noteq> show_nat n" for n xs
    using show_nat_digit [of n] by (metis list.sel(1))+
  show "a = b"
  proof (cases "a < 0"; cases "b < 0")
    assume ab: "a < 0" "b < 0"
    then have "nat (- a) = nat (- b)" using e by (intro show_nat_inj) (simp add: show_int_def)
    then show ?thesis using ab by simp
  next
    assume ab: "\<not> a < 0" "\<not> b < 0"
    then have "nat a = nat b" using e by (intro show_nat_inj) (simp add: show_int_def)
    then show ?thesis using ab by simp
  qed (use e h in \<open>simp_all add: show_int_def\<close>)
qed simp

section \<open>Time\<close>

text \<open>
  Instants are microseconds since the epoch. A \<open>datetime\<close> is aware (an instant) or naive (a wall
  clock reading, also in microseconds). India Standard Time is UTC + 05:30.
\<close>

datatype pydt = Aware int | Naive int

definition US_SECOND :: int where "US_SECOND = 1000000"
definition US_MINUTE :: int where "US_MINUTE = 60 * 1000000"
definition US_DAY :: int where "US_DAY = 86400 * 1000000"
definition IST_OFFSET :: int where "IST_OFFSET = 330 * 60 * 1000000"

fun utc_instant :: "pydt \<Rightarrow> int" where
  "utc_instant (Aware t) = t"
| "utc_instant (Naive t) = t"

fun ist_instant :: "pydt \<Rightarrow> int" where
  "ist_instant (Aware t) = t"
| "ist_instant (Naive t) = t - IST_OFFSET"

lemma int_div_bounds:
  fixes x d :: int
  assumes "0 < d"
  shows "x div d * d \<le> x" "x < x div d * d + d"
  using pos_mod_bound [OF assms, of x] pos_mod_sign [OF assms, of x] minus_mod_eq_div_mult [of x d] by linarith+

end
