(* ===== verification/Tagging.thy ===== *)
theory Tagging
  imports Prelude "HOL-Library.Sublist"
begin

text \<open>
  SEBI order tags: \<open>app/execution/tagging.py\<close> and the per-broker formats of
  \<open>app/compliance/algo_id.py\<close>. The rule-set's \<open>brokers\<close> parameter is an argument; SHA-256 is a
  parameter \<open>digest8\<close>, the first eight bytes of the digest read as a big-endian number.
\<close>

section \<open>Tag formats\<close>

record tag_format_entry =
  entry_max_length :: "nat option"
  entry_charset :: "string option"

record tag_format =
  fmt_max_length :: "nat option"
  fmt_charset :: string

datatype tag_error = UnknownCharset string

definition alnum :: "char \<Rightarrow> bool" where
  "alnum c = (is_alpha c \<or> is_digit c)"

definition alnum_dash :: "char \<Rightarrow> bool" where
  "alnum_dash c = (alnum c \<or> c = CHR ''_'' \<or> c = CHR ''-'')"

text \<open>The characters a charset keeps (its pattern names the characters it removes).\<close>

definition CHARSETS :: "(string \<times> (char \<Rightarrow> bool)) list" where
  "CHARSETS = [(''alnum'', alnum), (''alnum_dash'', alnum_dash)]"

definition tag_format_of :: "(string, tag_format_entry) dict \<Rightarrow> string option \<Rightarrow> tag_error + tag_format" where
  "tag_format_of brokers broker =
     (let entry = dict_get brokers (py_lower (str_or broker []));
          len = (case entry of None \<Rightarrow> None | Some e \<Rightarrow> entry_max_length e);
          cs = (case entry of None \<Rightarrow> ''alnum_dash''
                | Some e \<Rightarrow> (case entry_charset e of None \<Rightarrow> ''alnum_dash'' | Some c \<Rightarrow> c))
      in if map_of CHARSETS cs = None then Inl (UnknownCharset cs)
         else Inr \<lparr>fmt_max_length = len, fmt_charset = cs\<rparr>)"

section \<open>Client order ids\<close>

definition B36 :: string where
  "B36 = ''0123456789ABCDEFGHIJKLMNOPQRSTUVWXYZ''"

definition CLIENT_ID_LENGTH :: nat where "CLIENT_ID_LENGTH = 6"
definition CLIENT_ID_MIN_LENGTH :: nat where "CLIENT_ID_MIN_LENGTH = 4"
definition DEFAULT_MAX_TAG_LENGTH :: nat where "DEFAULT_MAX_TAG_LENGTH = 20"

fun b36_digits :: "nat \<Rightarrow> nat \<Rightarrow> string" where
  "b36_digits 0 number = []"
| "b36_digits (Suc k) number = B36 ! (number mod 36) # b36_digits k (number div 36)"

fun join_with :: "string \<Rightarrow> string list \<Rightarrow> string" where
  "join_with sep [] = []"
| "join_with sep [p] = p"
| "join_with sep (p # ps) = p @ sep @ join_with sep ps"

definition client_order_id :: "(string \<Rightarrow> nat) \<Rightarrow> string list \<Rightarrow> string" where
  "client_order_id digest8 parts = b36_digits CLIENT_ID_LENGTH (digest8 (join_with ''|'' parts))"

definition contains :: "string \<Rightarrow> string \<Rightarrow> bool" where
  "contains s t = list_ex (\<lambda>k. prefix t (drop k s)) [0..<Suc (length s)]"

definition has_client_id :: "string option \<Rightarrow> string option \<Rightarrow> bool" where
  "has_client_id tag client_id =
     (if \<not> truthy tag \<or> \<not> truthy client_id then False
      else (let upper = py_upper (the tag); cid = the client_id in
        list_ex (\<lambda>size. contains upper (py_upper (take size cid)))
          (rev [CLIENT_ID_MIN_LENGTH..<Suc (length cid)])))"

section \<open>Building a tag\<close>

definition sanitize_tag_part :: "string \<Rightarrow> string" where
  "sanitize_tag_part value = filter alnum_dash value"

text \<open>The pattern's \<open>$\<close> also matches before a final newline.\<close>

definition valid_algo_id :: "string \<Rightarrow> bool" where
  "valid_algo_id value =
     (let body = (if value \<noteq> [] \<and> last value = CHR 0x0A then butlast value else value)
      in 1 \<le> length body \<and> length body \<le> 32 \<and> list_all alnum_dash body)"

definition LEG_ENTRY :: string where "LEG_ENTRY = ''ENT''"
definition LEG_STOP :: string where "LEG_STOP = ''SL''"
definition LEG_EXIT :: string where "LEG_EXIT = ''EXIT''"

definition ALGO_ID_MAX_SAVED :: nat where
  "ALGO_ID_MAX_SAVED = DEFAULT_MAX_TAG_LENGTH - length (''-'' @ LEG_EXIT)"

record tag_request =
  req_strategy_id :: string
  req_leg :: string
  req_algo_id :: "string option"
  req_max_length :: nat
  req_broker :: "string option"
  req_client_id :: "string option"

definition nonempty :: "string list \<Rightarrow> string list" where
  "nonempty ps = filter (\<lambda>p. p \<noteq> []) ps"

text \<open>The body of \<open>build_order_tag\<close> once the format is known: \<open>keep\<close> is the charset, \<open>ml\<close> the limit.\<close>

definition leg_block :: "(char \<Rightarrow> bool) \<Rightarrow> nat \<Rightarrow> string \<Rightarrow> string" where
  "leg_block keep ml leg =
     (let l = filter keep (py_upper (sanitize_tag_part leg))
      in take ml (if l = [] then LEG_ENTRY else l))"

definition sep_of :: "(char \<Rightarrow> bool) \<Rightarrow> string" where
  "sep_of keep = (if filter keep ''-'' \<noteq> [] then ''-'' else [])"

definition algo_block :: "(char \<Rightarrow> bool) \<Rightarrow> nat \<Rightarrow> string option \<Rightarrow> string \<Rightarrow> string" where
  "algo_block keep ml algo_id leg_part =
     (let algo = filter keep (sanitize_tag_part (str_or algo_id [])); sep = sep_of keep
      in if algo \<noteq> [] \<and> length algo + length sep + length leg_part > ml
         then take (ml - length sep - length leg_part) algo else algo)"

definition cid_block :: "(char \<Rightarrow> bool) \<Rightarrow> nat \<Rightarrow> string option \<Rightarrow> string \<Rightarrow> string \<Rightarrow> string" where
  "cid_block keep ml client_id algo leg_part =
     (let cid = py_upper (filter keep (sanitize_tag_part (str_or client_id [])));
          used = sum_list (map (\<lambda>p. length p + length (sep_of keep)) (nonempty [algo, leg_part]));
          cut = take (ml - used) cid
      in if cid = [] then [] else if length cut < CLIENT_ID_MIN_LENGTH then [] else cut)"

definition compose_tag :: "(char \<Rightarrow> bool) \<Rightarrow> nat \<Rightarrow> string \<Rightarrow> string \<Rightarrow> string \<Rightarrow> string" where
  "compose_tag keep ml algo strategy leg_part =
     (let sep = sep_of keep; fixed = nonempty [algo, leg_part];
          fixed_len = int (sum_list (map length fixed)) + int (length sep) * (int (length fixed) - 1);
          room = int ml - fixed_len - int (length sep);
          parts = (if 1 \<le> room \<and> strategy \<noteq> []
                   then (if algo \<noteq> [] then [algo, take (nat room) strategy, leg_part]
                         else [take (nat room) strategy, leg_part])
                   else fixed)
      in take ml (join_with sep (nonempty parts)))"

definition resolve_format ::
  "(string, tag_format_entry) dict \<Rightarrow> tag_request \<Rightarrow> tag_error + ((char \<Rightarrow> bool) \<times> nat)" where
  "resolve_format brokers q =
     (case (if truthy (req_broker q) then tag_format_of brokers (req_broker q)
            else Inr \<lparr>fmt_max_length = None, fmt_charset = ''alnum_dash''\<rparr>) of
        Inl e \<Rightarrow> Inl e
      | Inr fmt \<Rightarrow> Inr (the (map_of CHARSETS (fmt_charset fmt)),
          (case fmt_max_length fmt of None \<Rightarrow> req_max_length q
           | Some n \<Rightarrow> if n = 0 then req_max_length q else min (req_max_length q) n)))"

definition build_order_tag :: "(string, tag_format_entry) dict \<Rightarrow> tag_request \<Rightarrow> tag_error + string" where
  "build_order_tag brokers q =
     (case resolve_format brokers q of
        Inl e \<Rightarrow> Inl e
      | Inr (keep, ml) \<Rightarrow>
          (let strategy = filter keep (sanitize_tag_part (req_strategy_id q));
               leg_part = leg_block keep ml (req_leg q);
               algo = algo_block keep ml (req_algo_id q) leg_part;
               cid = cid_block keep ml (req_client_id q) algo leg_part;
               leg_part' = (if cid \<noteq> [] then cid @ sep_of keep @ leg_part else leg_part)
           in Inr (compose_tag keep ml algo strategy leg_part')))"

section \<open>What a tag keeps\<close>

lemma leg_block_length: "length (leg_block keep ml leg) \<le> ml"
  by (simp add: leg_block_def Let_def)

lemma algo_block_fits:
  "algo_block keep ml a l = [] \<or> length (algo_block keep ml a l) + length (sep_of keep) + length l \<le> ml"
  by (auto simp: algo_block_def Let_def min_def)

definition tag_used :: "(char \<Rightarrow> bool) \<Rightarrow> string \<Rightarrow> string \<Rightarrow> nat" where
  "tag_used keep algo leg_part = sum_list (map (\<lambda>p. length p + length (sep_of keep)) (nonempty [algo, leg_part]))"

lemma cid_block_fits:
  "cid_block keep ml c algo l = [] \<or> length (cid_block keep ml c algo l) + tag_used keep algo l \<le> ml"
  by (auto simp: cid_block_def tag_used_def Let_def min_def)

lemma join_three:
  "s \<noteq> [] \<Longrightarrow> leg \<noteq> [] \<Longrightarrow> join_with sep (nonempty (if algo \<noteq> [] then [algo, s, leg] else [s, leg]))
     = ((if algo = [] then [] else algo @ sep) @ s @ sep) @ leg"
  by (simp add: nonempty_def)

lemma take_room: "1 \<le> r \<and> s \<noteq> [] \<Longrightarrow> take (nat r) s \<noteq> []" "1 \<le> r \<and> s \<noteq> [] \<Longrightarrow> int (length (take (nat r) s)) \<le> r"
  by (auto simp: min_def)

lemma compose_tag_shape:
  assumes "algo = [] \<or> length algo + length (sep_of keep) + length leg \<le> ml" "length leg \<le> ml" "leg \<noteq> []"
  shows "\<exists>pre. compose_tag keep ml algo strategy leg = pre @ leg \<and> length (pre @ leg) \<le> ml"
proof -
  let ?sep = "sep_of keep"
  let ?room = "int ml - (if algo = [] then 0 else int (length algo) + int (length ?sep)) - int (length leg) - int (length ?sep)"
  have fixed: "int (sum_list (map length (nonempty [algo, leg]))) + int (length ?sep) * (int (length (nonempty [algo, leg])) - 1)
      = (if algo = [] then 0 else int (length algo) + int (length ?sep)) + int (length leg)"
    using assms(3) by (simp add: nonempty_def)
  have "int ml - ((if algo = [] then 0 else int (length algo) + int (length ?sep)) + int (length leg)) - int (length ?sep) = ?room"
    by simp
  then have c: "compose_tag keep ml algo strategy leg = take ml (join_with ?sep (nonempty
      (if 1 \<le> ?room \<and> strategy \<noteq> []
       then (if algo \<noteq> [] then [algo, take (nat ?room) strategy, leg] else [take (nat ?room) strategy, leg])
       else nonempty [algo, leg])))"
    unfolding compose_tag_def Let_def fixed by (simp only:)
  show ?thesis
  proof (cases "1 \<le> ?room \<and> strategy \<noteq> []")
    case True
    let ?s = "take (nat ?room) strategy"
    have s: "?s \<noteq> []" "int (length ?s) \<le> ?room" using True take_room by blast+
    let ?pre = "(if algo = [] then [] else algo @ ?sep) @ ?s @ ?sep"
    have j: "join_with ?sep (nonempty (if algo \<noteq> [] then [algo, ?s, leg] else [?s, leg])) = ?pre @ leg"
      using s(1) assms(3) by (rule join_three)
    have len: "length (?pre @ leg) \<le> ml" using s(2) by (simp split: if_splits)
    have "compose_tag keep ml algo strategy leg = take ml (?pre @ leg)"
      unfolding c if_P [OF True] j ..
    then show ?thesis using len by (intro exI [of _ ?pre]) simp
  next
    case False
    let ?pre = "if algo = [] then [] else algo @ ?sep"
    have j: "join_with ?sep (nonempty (nonempty [algo, leg])) = ?pre @ leg"
      using assms(3) by (simp add: nonempty_def)
    have len: "length (?pre @ leg) \<le> ml" using assms(1,2) by auto
    have "compose_tag keep ml algo strategy leg = take ml (?pre @ leg)"
      unfolding c if_not_P [OF False] j ..
    then show ?thesis using len by (intro exI [of _ ?pre]) simp
  qed
qed

lemma compose_tag_zero: "compose_tag keep 0 algo strategy leg = []"
  by (simp add: compose_tag_def Let_def)

lemma leg_block_nonempty: "0 < ml \<Longrightarrow> leg_block keep ml leg \<noteq> []"
  by (simp add: leg_block_def Let_def LEG_ENTRY_def)

lemma build_order_tag_shape:
  assumes f: "resolve_format brokers q = Inr (keep, ml)" and ml: "0 < ml"
    and L: "L = leg_block keep ml (req_leg q)" and A: "A = algo_block keep ml (req_algo_id q) L"
    and C: "C = cid_block keep ml (req_client_id q) A L"
  shows "\<exists>pre. build_order_tag brokers q = Inr (pre @ (if C \<noteq> [] then C @ sep_of keep @ L else L)) \<and>
    length (pre @ (if C \<noteq> [] then C @ sep_of keep @ L else L)) \<le> ml"
proof -
  let ?L' = "if C \<noteq> [] then C @ sep_of keep @ L else L"
  have Ln: "L \<noteq> []" unfolding L using ml by (rule leg_block_nonempty)
  have Lb: "length L \<le> ml" unfolding L by (rule leg_block_length)
  have Ab: "A = [] \<or> length A + length (sep_of keep) + length L \<le> ml" unfolding A by (rule algo_block_fits)
  have Cb: "C = [] \<or> length C + tag_used keep A L \<le> ml" unfolding C by (rule cid_block_fits)
  have "A = [] \<or> length A + length (sep_of keep) + length ?L' \<le> ml"
    using Ab Cb Ln by (cases "A = []") (auto simp: tag_used_def nonempty_def)
  moreover have "length ?L' \<le> ml" using Lb Cb Ln by (auto simp: tag_used_def nonempty_def split: if_splits)
  moreover have "?L' \<noteq> []" using Ln by simp
  ultimately obtain pre where
    "compose_tag keep ml A (filter keep (sanitize_tag_part (req_strategy_id q))) ?L' = pre @ ?L'"
    "length (pre @ ?L') \<le> ml"
    using compose_tag_shape by blast
  moreover have "build_order_tag brokers q =
      Inr (compose_tag keep ml A (filter keep (sanitize_tag_part (req_strategy_id q))) ?L')"
    using f by (simp add: build_order_tag_def Let_def L [symmetric] A [symmetric] C [symmetric])
  ultimately show ?thesis by auto
qed

section \<open>Characters of a tag\<close>

lemma join_with_chars: "set (join_with sep ps) \<subseteq> set sep \<union> (\<Union>p \<in> set ps. set p)"
  by (induction sep ps rule: join_with.induct) auto

definition charset_ok :: "(char \<Rightarrow> bool) \<Rightarrow> bool" where
  "charset_ok keep = (keep = alnum \<or> keep = alnum_dash)"

lemma resolve_format_charset:
  assumes "resolve_format brokers q = Inr (keep, ml)"
  shows "charset_ok keep"
proof -
  have ok: "map_of CHARSETS cs \<noteq> None \<Longrightarrow> charset_ok (the (map_of CHARSETS cs))" for cs
    by (auto simp: CHARSETS_def charset_ok_def split: if_splits)
  have fmt: "tag_format_of brokers b = Inr f \<Longrightarrow> map_of CHARSETS (fmt_charset f) \<noteq> None" for b f
    unfolding tag_format_of_def Let_def by (split if_split_asm) auto
  let ?F = "if truthy (req_broker q) then tag_format_of brokers (req_broker q)
    else Inr \<lparr>fmt_max_length = None, fmt_charset = ''alnum_dash''\<rparr>"
  obtain f where f: "?F = Inr f" using assms by (cases ?F) (simp_all add: resolve_format_def)
  then have "keep = the (map_of CHARSETS (fmt_charset f))" using assms by (simp add: resolve_format_def)
  moreover have "map_of CHARSETS (fmt_charset f) \<noteq> None"
  proof (cases "truthy (req_broker q)")
    case True
    with f fmt show ?thesis by simp
  next
    case False
    with f have "fmt_charset f = ''alnum_dash''" by auto
    then show ?thesis by (simp add: CHARSETS_def)
  qed
  ultimately show ?thesis using ok by simp
qed

lemma char_upper_alnum [simp]: "alnum (char_upper c) = alnum c"
proof (cases "97 \<le> (of_char c :: nat) \<and> (of_char c :: nat) \<le> 122")
  case True
  then have "(of_char (char_upper c) :: nat) = of_char c - 32"
    by (auto simp: char_upper_def Let_def intro!: mod_less)
  with True show ?thesis by (auto simp: alnum_def is_alpha_def is_digit_def Let_def)
next
  case False
  then have "char_upper c = c" by (auto simp: char_upper_def Let_def)
  then show ?thesis by simp
qed

lemma char_upper_keep: "charset_ok keep \<Longrightarrow> keep c \<Longrightarrow> keep (char_upper c)"
proof -
  assume k: "charset_ok keep" "keep c"
  have "char_upper (CHR ''_'') = CHR ''_''" "char_upper (CHR ''-'') = CHR ''-''" by code_simp+
  then show ?thesis using k by (auto simp: charset_ok_def alnum_dash_def)
qed

definition all_keep :: "(char \<Rightarrow> bool) \<Rightarrow> string \<Rightarrow> bool" where
  "all_keep keep s = (\<forall>c \<in> set s. keep c)"

lemma all_keep_simps [simp]:
  "all_keep k []" "all_keep k (a @ b) \<longleftrightarrow> all_keep k a \<and> all_keep k b" "all_keep k (filter k s)"
  by (auto simp: all_keep_def)

lemma all_keep_take: "all_keep k s \<Longrightarrow> all_keep k (take n s)"
  by (auto simp: all_keep_def dest: in_set_takeD)

lemma sep_of_keep: "all_keep k (sep_of k)"
  by (auto simp: all_keep_def sep_of_def split: if_splits)

lemma tag_parts_keep:
  assumes k: "charset_ok k"
  shows "all_keep k (leg_block k ml leg)" "all_keep k (algo_block k ml a l)" "all_keep k (cid_block k ml c al l)"
proof -
  have "all_keep k LEG_ENTRY" using k
    by (auto simp: all_keep_def LEG_ENTRY_def charset_ok_def alnum_dash_def alnum_def is_alpha_def)
  then show "all_keep k (leg_block k ml leg)" by (auto simp: leg_block_def Let_def intro!: all_keep_take)
  show "all_keep k (algo_block k ml a l)" by (auto simp: algo_block_def Let_def intro!: all_keep_take)
  have "all_keep k (py_upper (filter k s))" for s
    using char_upper_keep [OF k] by (auto simp: all_keep_def py_upper_def)
  then show "all_keep k (cid_block k ml c al l)" by (auto simp: cid_block_def Let_def intro!: all_keep_take)
qed

lemma compose_tag_keep:
  assumes "all_keep k algo" "all_keep k strategy" "all_keep k leg"
  shows "all_keep k (compose_tag k ml algo strategy leg)"
proof -
  have "all_keep k (join_with (sep_of k) ps)" if "\<forall>p \<in> set ps. all_keep k p" for ps
    using that join_with_chars [of "sep_of k" ps] sep_of_keep [of k] by (auto simp: all_keep_def)
  then show ?thesis unfolding compose_tag_def Let_def
    using assms by (intro all_keep_take) (auto simp: nonempty_def intro: all_keep_take sep_of_keep)
qed

section \<open>Client ids in tags\<close>

lemma contains_append: "contains (a @ b @ c) b"
  by (auto simp: contains_def list_ex_iff intro!: bexI [of _ "length a"])

lemma has_client_id_whole:
  assumes "py_upper cid = cid" "4 \<le> length cid"
  shows "4 \<le> n \<Longrightarrow> has_client_id (Some (pre @ take n cid @ post)) (Some cid)"
proof -
  assume n: "4 \<le> n"
  let ?m = "min n (length cid)"
  have t: "take ?m cid = take n cid" by (simp add: min_def)
  have "contains (py_upper (pre @ take n cid @ post)) (py_upper (take ?m cid))"
    unfolding py_upper_append t by (rule contains_append)
  moreover have "?m \<in> set (rev [CLIENT_ID_MIN_LENGTH..<Suc (length cid)])"
    using assms(2) n by (auto simp: CLIENT_ID_MIN_LENGTH_def)
  ultimately have "list_ex (\<lambda>size. contains (py_upper (pre @ take n cid @ post)) (py_upper (take size cid)))
      (rev [CLIENT_ID_MIN_LENGTH..<Suc (length cid)])"
    unfolding list_ex_iff by blast
  moreover have "pre @ take n cid @ post \<noteq> []" "cid \<noteq> []" using assms(2) n by auto
  ultimately show ?thesis by (simp add: has_client_id_def truthy_def)
qed

definition b36_string :: "string \<Rightarrow> bool" where
  "b36_string s = list_all (\<lambda>c. c \<in> set B36) s"

lemma b36_chars: "c \<in> set B36 \<Longrightarrow> char_upper c = c \<and> alnum c"
proof -
  have "list_all (\<lambda>c. char_upper c = c \<and> alnum c) B36" by code_simp
  then show "c \<in> set B36 \<Longrightarrow> char_upper c = c \<and> alnum c" by (simp add: list_all_iff)
qed

lemma b36_keep: "charset_ok k \<Longrightarrow> b36_string s \<Longrightarrow> filter k (sanitize_tag_part s) = s"
  using b36_chars by (force simp: sanitize_tag_part_def b36_string_def list_all_iff charset_ok_def alnum_dash_def filter_id_conv)

lemma b36_upper: "b36_string s \<Longrightarrow> py_upper s = s"
  using b36_chars by (simp add: py_upper_def b36_string_def list_all_iff map_idI)

lemma cid_block_b36:
  assumes "charset_ok k" "b36_string s" "4 \<le> length s"
  shows "cid_block k ml (Some s) algo leg =
    (if tag_used k algo leg + 4 \<le> ml then take (ml - tag_used k algo leg) s else [])"
proof -
  have "s \<noteq> []" using assms(3) by auto
  then show ?thesis using assms b36_keep [OF assms(1,2)] b36_upper [OF assms(2)]
    by (auto simp: cid_block_def tag_used_def str_or_def Let_def CLIENT_ID_MIN_LENGTH_def)
qed

lemma length_b36_digits [simp]: "length (b36_digits k n) = k"
  by (induction k arbitrary: n) auto

lemma b36_digits_string: "b36_string (b36_digits k n)"
proof (induction k arbitrary: n)
  case (Suc k)
  have "n mod 36 < length B36" by (simp add: B36_def)
  then have "B36 ! (n mod 36) \<in> set B36" by (rule nth_mem)
  with Suc show ?case by (simp add: b36_string_def)
qed (simp add: b36_string_def)

lemma b36_digits_eq_iff: "b36_digits k m = b36_digits k n \<longleftrightarrow> m mod 36 ^ k = n mod 36 ^ k"
proof (induction k arbitrary: m n)
  case (Suc k)
  have d: "distinct B36" by code_simp
  have l: "length B36 = 36" by (simp add: B36_def)
  have "B36 ! (m mod 36) = B36 ! (n mod 36) \<longleftrightarrow> m mod 36 = n mod 36"
    by (rule nth_eq_iff_index_eq [OF d]) (simp_all add: l)
  moreover have "(m mod 36 = n mod 36 \<and> m div 36 mod 36 ^ k = n div 36 mod 36 ^ k)
      \<longleftrightarrow> m mod (36 * 36 ^ k) = n mod (36 * 36 ^ k)"
  proof
    assume "m mod 36 = n mod 36 \<and> m div 36 mod 36 ^ k = n div 36 mod 36 ^ k"
    then show "m mod (36 * 36 ^ k) = n mod (36 * 36 ^ k)" by (simp add: mod_mult2_eq)
  next
    assume e: "m mod (36 * 36 ^ k) = n mod (36 * 36 ^ k)"
    then have "m mod (36 * 36 ^ k) mod 36 = n mod (36 * 36 ^ k) mod 36"
      "m mod (36 * 36 ^ k) div 36 = n mod (36 * 36 ^ k) div 36" by simp_all
    then show "m mod 36 = n mod 36 \<and> m div 36 mod 36 ^ k = n div 36 mod 36 ^ k"
      by (simp add: mod_mult2_eq)
  qed
  ultimately show ?case using Suc by simp
qed simp

lemma resolve_format_client: "resolve_format brokers (q\<lparr>req_client_id := c\<rparr>) = resolve_format brokers q"
  by (cases q) (simp add: resolve_format_def split: sum.splits option.splits)

section \<open>Properties\<close>

text \<open>
  C5. A tag never exceeds the resolved length limit (the caller's, or the broker's when it is
  stricter), ends in the leg, and holds only characters of the broker's charset.
\<close>

theorem build_order_tag_wellformed:
  assumes "resolve_format brokers q = Inr (keep, ml)" "0 < ml"
  shows "\<exists>tag. build_order_tag brokers q = Inr tag \<and> length tag \<le> ml \<and> ml \<le> req_max_length q \<and>
    suffix (leg_block keep ml (req_leg q)) tag \<and> list_all keep tag"
proof -
  let ?L = "leg_block keep ml (req_leg q)"
  let ?A = "algo_block keep ml (req_algo_id q) ?L"
  let ?C = "cid_block keep ml (req_client_id q) ?A ?L"
  let ?L' = "if ?C \<noteq> [] then ?C @ sep_of keep @ ?L else ?L"
  obtain pre where pre: "build_order_tag brokers q = Inr (pre @ ?L')" "length (pre @ ?L') \<le> ml"
    using build_order_tag_shape [OF assms refl refl refl] by blast
  have k: "charset_ok keep" using resolve_format_charset [OF assms(1)] .
  have "all_keep keep (compose_tag keep ml ?A (filter keep (sanitize_tag_part (req_strategy_id q))) ?L')"
    using tag_parts_keep [OF k] sep_of_keep by (intro compose_tag_keep) auto
  then have "all_keep keep (pre @ ?L')"
    using pre(1) assms(1) by (simp add: build_order_tag_def Let_def)
  moreover have "suffix ?L (pre @ ?L')"
    by (cases "?C = []") (auto simp: suffix_def)
  moreover have "ml \<le> req_max_length q"
    using assms(1) by (auto simp: resolve_format_def split: sum.splits option.splits if_splits)
  ultimately show ?thesis using pre by (auto simp: all_keep_def list_all_iff)
qed

text \<open>
  C6. An order is found again by its own tag: whenever at least four characters are left beside
  the algo id and the leg, the tag built with a client order id carries it (\<open>has_client_id\<close>).
\<close>

theorem client_id_roundtrip:
  assumes "resolve_format brokers q = Inr (keep, ml)"
    and "req_client_id q = Some (client_order_id digest8 parts)"
    and "tag_used keep (algo_block keep ml (req_algo_id q) (leg_block keep ml (req_leg q)))
      (leg_block keep ml (req_leg q)) + 4 \<le> ml"
  shows "\<exists>tag. build_order_tag brokers q = Inr tag \<and> has_client_id (Some tag) (Some (client_order_id digest8 parts))"
proof -
  let ?cid = "client_order_id digest8 parts"
  let ?L = "leg_block keep ml (req_leg q)"
  let ?A = "algo_block keep ml (req_algo_id q) ?L"
  let ?n = "ml - tag_used keep ?A ?L"
  have k: "charset_ok keep" using resolve_format_charset [OF assms(1)] .
  have b: "b36_string ?cid" "length ?cid = 6"
    by (simp_all add: client_order_id_def CLIENT_ID_LENGTH_def b36_digits_string)
  have C: "cid_block keep ml (req_client_id q) ?A ?L = take ?n ?cid"
    using cid_block_b36 [OF k b(1)] b(2) assms(2,3) by simp
  have n: "4 \<le> ?n" using assms(3) by simp
  with b(2) have ne: "take ?n ?cid \<noteq> []" by auto
  obtain pre where "build_order_tag brokers q = Inr (pre @ take ?n ?cid @ sep_of keep @ ?L)"
    using build_order_tag_shape [OF assms(1) _ refl refl C [symmetric]] assms(3) ne by auto
  moreover have "has_client_id (Some (pre @ take ?n ?cid @ sep_of keep @ ?L)) (Some ?cid)"
    using b n by (intro has_client_id_whole b36_upper) auto
  ultimately show ?thesis by blast
qed

text \<open>
  Two orders placed with the same request except for their client order ids get different tags
  as soon as their digests differ modulo \<open>36 ^ 6\<close> and the tag has room for the six characters.
\<close>

theorem tags_separate_orders:
  assumes f: "resolve_format brokers q = Inr (keep, ml)"
    and c: "req_client_id q = Some (client_order_id digest8 p)"
    and room: "tag_used keep (algo_block keep ml (req_algo_id q) (leg_block keep ml (req_leg q)))
      (leg_block keep ml (req_leg q)) + 6 \<le> ml"
    and ne: "digest8 (join_with ''|'' p) mod 36 ^ 6 \<noteq> digest8 (join_with ''|'' p') mod 36 ^ 6"
  shows "build_order_tag brokers q
    \<noteq> build_order_tag brokers (q\<lparr>req_client_id := Some (client_order_id digest8 p')\<rparr>)"
proof -
  let ?q' = "q\<lparr>req_client_id := Some (client_order_id digest8 p')\<rparr>"
  let ?L = "leg_block keep ml (req_leg q)"
  let ?A = "algo_block keep ml (req_algo_id q) ?L"
  let ?n = "ml - tag_used keep ?A ?L"
  have k: "charset_ok keep" using resolve_format_charset [OF f] .
  have b: "b36_string (client_order_id digest8 x)" "length (client_order_id digest8 x) = 6" for x
    by (simp_all add: client_order_id_def CLIENT_ID_LENGTH_def b36_digits_string)
  have n: "6 \<le> ?n" using room by simp
  have C: "cid_block keep ml (Some (client_order_id digest8 x)) ?A ?L = client_order_id digest8 x" for x
    using cid_block_b36 [OF k b(1)] b(2) room n by simp
  from f have f': "resolve_format brokers ?q' = Inr (keep, ml)" by (simp add: resolve_format_client)
  have ml: "0 < ml" using room by simp
  have nonil: "client_order_id digest8 x \<noteq> []" for x using b(2) [of x] by auto
  obtain pre where pre: "build_order_tag brokers q = Inr (pre @ client_order_id digest8 p @ sep_of keep @ ?L)"
    using build_order_tag_shape [OF f ml refl refl refl] C [of p] nonil c by auto
  obtain pre' where pre': "build_order_tag brokers ?q' = Inr (pre' @ client_order_id digest8 p' @ sep_of keep @ ?L)"
    using build_order_tag_shape [OF f' ml refl refl refl] C [of p'] nonil by auto
  have "client_order_id digest8 p \<noteq> client_order_id digest8 p'"
    using ne by (simp add: client_order_id_def CLIENT_ID_LENGTH_def b36_digits_eq_iff)
  then have "pre @ client_order_id digest8 p @ sep_of keep @ ?L \<noteq> pre' @ client_order_id digest8 p' @ sep_of keep @ ?L"
    using b(2) by (simp flip: append_assoc) 
  then show ?thesis by (simp only: pre pre' sum.inject not_False_eq_True)
qed

section \<open>Witnesses\<close>

definition demo_request :: tag_request where
  "demo_request = \<lparr>req_strategy_id = ''opening range'', req_leg = ''exit'', req_algo_id = Some ''AL7'',
     req_max_length = 20, req_broker = None, req_client_id = Some (client_order_id length [''E'', ''12''])\<rparr>"

theorem build_order_tag_wellformed_witness:
  "\<exists>tag. build_order_tag [] demo_request = Inr tag \<and> length tag \<le> 20 \<and> list_all alnum_dash tag"
proof -
  have r: "resolve_format [] demo_request = Inr (alnum_dash, 20)"
    by (simp add: resolve_format_def demo_request_def truthy_def CHARSETS_def)
  show ?thesis using build_order_tag_wellformed [OF r] by auto
qed

theorem client_id_roundtrip_witness:
  "\<exists>tag. build_order_tag [] demo_request = Inr tag \<and>
     has_client_id (Some tag) (Some (client_order_id length [''E'', ''12'']))"
proof -
  have r: "resolve_format [] demo_request = Inr (alnum_dash, 20)"
    by (simp add: resolve_format_def demo_request_def truthy_def CHARSETS_def)
  have u: "tag_used alnum_dash (algo_block alnum_dash 20 (req_algo_id demo_request) (leg_block alnum_dash 20 (req_leg demo_request)))
      (leg_block alnum_dash 20 (req_leg demo_request)) + 4 \<le> 20"
    by code_simp
  show ?thesis using client_id_roundtrip [OF r _ u] by (simp add: demo_request_def)
qed

theorem tags_separate_orders_witness:
  "build_order_tag [] demo_request
    \<noteq> build_order_tag [] (demo_request\<lparr>req_client_id := Some (client_order_id length [''E'', ''123''])\<rparr>)"
proof -
  have r: "resolve_format [] demo_request = Inr (alnum_dash, 20)"
    by (simp add: resolve_format_def demo_request_def truthy_def CHARSETS_def)
  have u: "tag_used alnum_dash (algo_block alnum_dash 20 (req_algo_id demo_request) (leg_block alnum_dash 20 (req_leg demo_request)))
      (leg_block alnum_dash 20 (req_leg demo_request)) + 6 \<le> 20"
    by code_simp
  have "join_with ''|'' [''E'', ''12''] = ''E|12''" "join_with ''|'' [''E'', ''123''] = ''E|123''" by simp_all
  then have ne: "length (join_with ''|'' [''E'', ''12'']) mod 36 ^ 6 \<noteq> length (join_with ''|'' [''E'', ''123'']) mod 36 ^ 6"
    by (simp only:) simp
  show ?thesis by (rule tags_separate_orders [OF r _ u ne]) (simp add: demo_request_def)
qed

end
