(* ===== verification/OrderLifecycle.thy ===== *)
theory OrderLifecycle
  imports Prelude
begin

text \<open>
  The order life cycle of \<open>app/execution/order_state_machine.py\<close> and the two writers of the
  \<open>orders\<close> / \<open>order_events\<close> tables in \<open>app/execution/order_persistence.py\<close>. A table is the list of
  its committed rows in primary-key order; a statement is a function from the tables to the
  tables. The unique constraint on (tenant, idempotency key) is part of the insert.
\<close>

section \<open>The state machine\<close>

datatype order_status =
    CREATED | VALIDATING | RISK_CHECK | SUBMITTED | PENDING | PARTIAL_FILL | FILLED
  | POSITION_OPEN | REJECTED | FAILED | CANCELLED

fun transitions :: "order_status \<Rightarrow> order_status list" where
  "transitions CREATED = [VALIDATING, CANCELLED]"
| "transitions VALIDATING = [RISK_CHECK, REJECTED, CANCELLED]"
| "transitions RISK_CHECK = [SUBMITTED, REJECTED, FAILED, CANCELLED]"
| "transitions SUBMITTED = [PENDING, REJECTED, FAILED, CANCELLED]"
| "transitions PENDING = [FILLED, PARTIAL_FILL, CANCELLED, REJECTED, FAILED]"
| "transitions PARTIAL_FILL = [FILLED, CANCELLED]"
| "transitions FILLED = [POSITION_OPEN]"
| "transitions POSITION_OPEN = []"
| "transitions REJECTED = []"
| "transitions FAILED = []"
| "transitions CANCELLED = []"

definition TERMINAL_STATUSES :: "order_status list" where
  "TERMINAL_STATUSES = [POSITION_OPEN, REJECTED, FAILED, CANCELLED]"

datatype order_error =
    InvalidOrderTransition order_status order_status
  | IntegrityError

definition assert_valid_transition :: "order_status \<Rightarrow> order_status \<Rightarrow> order_error + unit" where
  "assert_valid_transition from_status to_status =
     (if to_status \<notin> set (transitions from_status)
      then Inl (InvalidOrderTransition from_status to_status) else Inr ())"

definition is_terminal :: "order_status \<Rightarrow> bool" where
  "is_terminal status = (status \<in> set TERMINAL_STATUSES)"

definition all_statuses :: "order_status list" where
  "all_statuses = [CREATED, VALIDATING, RISK_CHECK, SUBMITTED, PENDING, PARTIAL_FILL, FILLED,
     POSITION_OPEN, REJECTED, FAILED, CANCELLED]"

lemma all_statuses_UNIV [simp]: "set all_statuses = UNIV"
proof -
  have "s \<in> set all_statuses" for s by (cases s) (simp_all add: all_statuses_def)
  then show ?thesis by blast
qed

lemma finite_order_status [simp]: "finite (S :: order_status set)"
  by (metis List.finite_set all_statuses_UNIV finite_subset subset_UNIV)

lemma terminal_iff_no_transition [order_rules]: "is_terminal s \<longleftrightarrow> transitions s = []"
  by (cases s) (simp_all add: is_terminal_def TERMINAL_STATUSES_def)




inductive transition_path :: "order_status \<Rightarrow> order_status list \<Rightarrow> order_status \<Rightarrow> bool" where
  path_nil: "transition_path s [] s"
| path_cons: "t \<in> set (transitions s) \<Longrightarrow> transition_path t p u \<Longrightarrow> transition_path s (t # p) u"

inductive_simps transition_path_Nil [simp]: "transition_path s [] t"
inductive_simps transition_path_Cons [simp]: "transition_path s (t # p) u"


lemma transition_path_snoc:
  "transition_path s p t \<Longrightarrow> u \<in> set (transitions t) \<Longrightarrow> transition_path s (p @ [u]) u"
  by (induction rule: transition_path.induct) simp_all

lemma transition_path_last: "transition_path s p t \<Longrightarrow> p \<noteq> [] \<Longrightarrow> last p = t"
proof (induction rule: transition_path.induct)
  case (path_cons t s p u)
  then show ?case by (cases p) simp_all
qed simp

lemma transition_path_append:
  "transition_path s p t \<Longrightarrow> transition_path t q u \<Longrightarrow> transition_path s (p @ q) u"
  by (induction rule: transition_path.induct) simp_all

section \<open>Order rows, event rows\<close>

record order_row =
  order_id :: int
  tenant_id :: int
  user_id :: int
  idempotency_key :: "string option"
  mode :: string
  strategy_id :: string
  symbol :: string
  direction :: string
  status :: order_status
  broker_order_id :: "string option"
  algo_tag :: "string option"
  trade_id :: "int option"
  signal_json :: string
  reasons :: "string list"
  updated_at :: int

record order_event =
  ev_order_id :: int
  from_status :: "order_status option"
  to_status :: order_status
  ev_detail :: string

record order_db =
  orders :: "order_row list"
  order_events :: "order_event list"
  next_order_id :: int
  metered_orders :: "(int \<times> string \<times> string) list"

record order_user =
  u_id :: int
  u_tenant_id :: int

record order_signal =
  sig_symbol :: string
  sig_direction :: string
  sig_json :: string

record execution_result =
  executed :: bool
  result_reasons :: "string list"

definition get_order_by_idempotency_key :: "order_db \<Rightarrow> int \<Rightarrow> string \<Rightarrow> order_row option" where
  "get_order_by_idempotency_key db tenant key =
     find (\<lambda>r. tenant_id r = tenant \<and> idempotency_key r = Some key) (orders db)"

definition execution_result_from_order :: "order_row \<Rightarrow> execution_result" where
  "execution_result_from_order r =
     \<lparr>executed = (status r = FILLED \<or> status r = POSITION_OPEN), result_reasons = reasons r\<rparr>"

text \<open>
  \<open>create_order\<close>: the flush raises \<open>IntegrityError\<close> when the tenant already has an order with this
  key (NULL keys are never equal); the handler then returns the row that won, or re-raises when
  the key is empty (a false value in Python) and no row was looked up.
\<close>

definition key_conflict :: "order_db \<Rightarrow> int \<Rightarrow> string option \<Rightarrow> bool" where
  "key_conflict db tenant key =
     (key \<noteq> None \<and> list_ex (\<lambda>r. tenant_id r = tenant \<and> idempotency_key r = key) (orders db))"

definition new_order_row ::
  "order_db \<Rightarrow> order_user \<Rightarrow> string \<Rightarrow> string \<Rightarrow> order_signal \<Rightarrow> string option \<Rightarrow> int \<Rightarrow> order_row" where
  "new_order_row db user md strategy signal key now =
     \<lparr>order_id = next_order_id db, tenant_id = u_tenant_id user, user_id = u_id user,
      idempotency_key = key, mode = md, strategy_id = strategy, symbol = sig_symbol signal,
      direction = sig_direction signal, status = CREATED, broker_order_id = None, algo_tag = None,
      trade_id = None, signal_json = sig_json signal, reasons = [], updated_at = now\<rparr>"

definition create_order ::
  "order_db \<Rightarrow> order_user \<Rightarrow> string \<Rightarrow> string \<Rightarrow> order_signal \<Rightarrow> string option \<Rightarrow> int
   \<Rightarrow> order_error + (order_db \<times> order_row \<times> bool)" where
  "create_order db user md strategy signal key now =
     (if key_conflict db (u_tenant_id user) key then
        (case (if truthy key then get_order_by_idempotency_key db (u_tenant_id user) (the key) else None) of
           None \<Rightarrow> Inl IntegrityError
         | Some existing \<Rightarrow> Inr (db, existing, False))
      else
        (let order = new_order_row db user md strategy signal key now;
             event = \<lparr>ev_order_id = order_id order, from_status = None, to_status = CREATED, ev_detail = []\<rparr>
         in Inr (db\<lparr>orders := orders db @ [order], order_events := order_events db @ [event],
                   next_order_id := next_order_id db + 1,
                   metered_orders := metered_orders db @ [(u_tenant_id user, py_lower md, strategy)]\<rparr>,
                 order, True)))"

text \<open>
  \<open>transition_order\<close> works on the order object its caller holds: the guard reads that object's
  status, the UPDATE writes the row with its id, and the refresh re-reads the row.
\<close>

definition set_status :: "int \<Rightarrow> order_status \<Rightarrow> int \<Rightarrow> order_row list \<Rightarrow> order_row list" where
  "set_status oid st now rows =
     map (\<lambda>r. if order_id r = oid then r\<lparr>status := st, updated_at := now\<rparr> else r) rows"

definition transition_order ::
  "order_db \<Rightarrow> order_row \<Rightarrow> order_status \<Rightarrow> string \<Rightarrow> int \<Rightarrow> order_error + (order_db \<times> order_row)" where
  "transition_order db order to_st detail now =
     (case assert_valid_transition (status order) to_st of
        Inl e \<Rightarrow> Inl e
      | Inr _ \<Rightarrow>
          (let event = \<lparr>ev_order_id = order_id order, from_status = Some (status order),
                        to_status = to_st, ev_detail = detail\<rparr>
           in Inr (db\<lparr>orders := set_status (order_id order) to_st now (orders db),
                     order_events := order_events db @ [event]\<rparr>,
                   order\<lparr>status := to_st, updated_at := now\<rparr>)))"

section \<open>The audit trail and its invariant\<close>

definition trail :: "order_db \<Rightarrow> int \<Rightarrow> order_event list" where
  "trail db oid = filter (\<lambda>e. ev_order_id e = oid) (order_events db)"

fun event_chain :: "order_status \<Rightarrow> order_event list \<Rightarrow> order_status \<Rightarrow> bool" where
  "event_chain s [] t = (s = t)"
| "event_chain s (e # es) t =
     (from_status e = Some s \<and> to_status e \<in> set (transitions s) \<and> event_chain (to_status e) es t)"

fun trail_ok :: "order_event list \<Rightarrow> order_status \<Rightarrow> bool" where
  "trail_ok [] t = False"
| "trail_ok (e # es) t = (from_status e = None \<and> to_status e = CREATED \<and> event_chain CREATED es t)"

definition unique_keys :: "order_row list \<Rightarrow> bool" where
  "unique_keys rows = (\<forall>r1 \<in> set rows. \<forall>r2 \<in> set rows.
     idempotency_key r1 \<noteq> None \<longrightarrow> tenant_id r1 = tenant_id r2 \<longrightarrow> idempotency_key r1 = idempotency_key r2
     \<longrightarrow> order_id r1 = order_id r2)"

definition order_inv :: "order_db \<Rightarrow> bool" where
  "order_inv db =
     (distinct (map order_id (orders db)) \<and>
      (\<forall>r \<in> set (orders db). order_id r < next_order_id db \<and> trail_ok (trail db (order_id r)) (status r)) \<and>
      (\<forall>e \<in> set (order_events db). ev_order_id e < next_order_id db) \<and>
      unique_keys (orders db))"

lemma event_chain_snoc:
  "event_chain s (es @ [e]) u \<longleftrightarrow>
     (\<exists>t. event_chain s es t \<and> from_status e = Some t \<and> to_status e \<in> set (transitions t) \<and> u = to_status e)"
  by (induction es arbitrary: s) auto

lemma trail_ok_snoc:
  "trail_ok es s \<Longrightarrow> from_status e = Some s \<Longrightarrow> to_status e \<in> set (transitions s) \<Longrightarrow> trail_ok (es @ [e]) (to_status e)"
  by (cases es) (auto simp: event_chain_snoc)



lemma map_set_status [simp]: "map order_id (set_status oid st now rows) = map order_id rows"
  by (induction rows) (auto simp: set_status_def)

lemma set_status_iff:
  "r \<in> set (set_status oid st now rows) \<longleftrightarrow>
     (\<exists>r' \<in> set rows. r = (if order_id r' = oid then r'\<lparr>status := st, updated_at := now\<rparr> else r'))"
  unfolding set_status_def set_map image_iff by (rule refl)

definition row_key :: "order_row \<Rightarrow> int \<times> int \<times> string option" where
  "row_key r = (order_id r, tenant_id r, idempotency_key r)"

lemma unique_keys_row_key:
  "unique_keys rows \<longleftrightarrow> (\<forall>(i, t, k) \<in> row_key ` set rows. \<forall>(j, u, l) \<in> row_key ` set rows.
     k \<noteq> None \<longrightarrow> t = u \<longrightarrow> k = l \<longrightarrow> i = j)"
  by (auto simp: unique_keys_def row_key_def)

lemma row_key_set_status: "row_key ` set (set_status oid st now rows) = row_key ` set rows"
proof -
  have "map row_key (set_status oid st now rows) = map row_key rows"
    by (simp add: set_status_def row_key_def)
  then show ?thesis by (metis list.set_map)
qed

lemma unique_keys_set_status: "unique_keys rows \<Longrightarrow> unique_keys (set_status oid st now rows)"
  by (simp only: unique_keys_row_key row_key_set_status)

lemma assert_valid_iff [order_rules]:
  "assert_valid_transition s t = Inr u \<longleftrightarrow> t \<in> set (transitions s)"
  by (simp add: assert_valid_transition_def)

lemma transition_order_cases:
  assumes "transition_order db r t d now = Inr (db', r')"
  obtains "t \<in> set (transitions (status r))"
    and "r' = r\<lparr>status := t, updated_at := now\<rparr>"
    and "orders db' = set_status (order_id r) t now (orders db)"
    and "order_events db' = order_events db @
          [\<lparr>ev_order_id = order_id r, from_status = Some (status r), to_status = t, ev_detail = d\<rparr>]"
    and "next_order_id db' = next_order_id db"
  using assms by (auto simp: transition_order_def assert_valid_transition_def Let_def split: if_splits)

lemma unique_row: "order_inv db \<Longrightarrow> r1 \<in> set (orders db) \<Longrightarrow> r2 \<in> set (orders db) \<Longrightarrow> order_id r1 = order_id r2 \<Longrightarrow> r1 = r2"
  by (auto simp: order_inv_def distinct_map inj_on_def)

lemma transition_order_inv [order_rules]:
  assumes inv: "order_inv db" and r: "r \<in> set (orders db)"
    and tr: "transition_order db r t d now = Inr (db', r')"
  shows "order_inv db' \<and> r' \<in> set (orders db')"
proof -
  from tr show ?thesis
  proof (rule transition_order_cases)
    assume t: "t \<in> set (transitions (status r))"
      and r': "r' = r\<lparr>status := t, updated_at := now\<rparr>"
      and o: "orders db' = set_status (order_id r) t now (orders db)"
      and e: "order_events db' = order_events db @
          [\<lparr>ev_order_id = order_id r, from_status = Some (status r), to_status = t, ev_detail = d\<rparr>]"
      and n: "next_order_id db' = next_order_id db"
    have trail': "trail db' oid = (if oid = order_id r then trail db oid @
        [\<lparr>ev_order_id = order_id r, from_status = Some (status r), to_status = t, ev_detail = d\<rparr>] else trail db oid)" for oid
      by (simp add: trail_def e)
    have ok: "trail_ok (trail db (order_id r)) (status r)" using inv r by (simp add: order_inv_def)
    have rows: "order_id q < next_order_id db' \<and> trail_ok (trail db' (order_id q)) (status q)"
      if q: "q \<in> set (orders db')" for q
    proof -
      from q obtain q' where q': "q' \<in> set (orders db)"
        "q = (if order_id q' = order_id r then q'\<lparr>status := t, updated_at := now\<rparr> else q')"
        unfolding o set_status_iff by blast
      show ?thesis
      proof (cases "order_id q' = order_id r")
        case True
        then have "q' = r" using unique_row [OF inv q'(1) r] by simp
        then show ?thesis
          using q' inv r n t trail_ok_snoc [OF ok, of "\<lparr>ev_order_id = order_id r,
            from_status = Some (status r), to_status = t, ev_detail = d\<rparr>"]
          by (simp add: trail' order_inv_def)
      next
        case False
        then show ?thesis using q' inv n by (simp add: trail' order_inv_def)
      qed
    qed
    have "order_inv db'"
      using inv r rows unfolding order_inv_def by (auto simp: o e n unique_keys_set_status)
    moreover have "r' \<in> set (orders db')" unfolding o set_status_iff r' using r by force
    ultimately show ?thesis ..
  qed
qed

lemma create_order_new:
  assumes "create_order db u md st sg key now = Inr (db', r, True)"
  shows "\<not> key_conflict db (u_tenant_id u) key" "r = new_order_row db u md st sg key now"
    "orders db' = orders db @ [r]"
    "order_events db' = order_events db @
      [\<lparr>ev_order_id = order_id r, from_status = None, to_status = CREATED, ev_detail = []\<rparr>]"
    "next_order_id db' = next_order_id db + 1"
  using assms by (auto simp: create_order_def Let_def split: if_splits option.splits)

lemma create_order_existing:
  assumes "create_order db u md st sg key now = Inr (db', r, False)"
  shows "db' = db" "r \<in> set (orders db)" "tenant_id r = u_tenant_id u" "idempotency_key r = key" "key \<noteq> None"
proof -
  from assms have a: "truthy key" "db' = db"
    "get_order_by_idempotency_key db (u_tenant_id u) (the key) = Some r"
    by (auto simp: create_order_def Let_def split: if_splits option.splits)
  then show "db' = db" "key \<noteq> None" by (auto simp: truthy_def)
  from a show "r \<in> set (orders db)" "tenant_id r = u_tenant_id u" "idempotency_key r = key"
    by (auto simp: get_order_by_idempotency_key_def find_Some_iff truthy_def)
qed

lemma create_order_inv [order_rules]:
  assumes inv: "order_inv db" and cr: "create_order db u md st sg key now = Inr (db', r, b)"
  shows "order_inv db' \<and> r \<in> set (orders db')"
proof (cases b)
  case False
  then show ?thesis using create_order_existing cr inv by fastforce
next
  case True
  with cr have "create_order db u md st sg key now = Inr (db', r, True)" by simp
  note n = create_order_new [OF this]
  have rid: "order_id r = next_order_id db" by (simp add: n(2) new_order_row_def)
  have old: "trail db' oid = trail db oid" if "oid \<noteq> next_order_id db" for oid
    using that by (simp add: trail_def n(4) rid)
  have "trail db (next_order_id db) = []"
    using inv by (force simp: trail_def order_inv_def filter_empty_conv)
  then have new: "trail_ok (trail db' (order_id r)) (status r)"
    by (simp add: trail_def n(4) rid) (simp add: n(2) new_order_row_def)
  have k: "tenant_id r = u_tenant_id u" "idempotency_key r = key" by (simp_all add: n(2) new_order_row_def)
  have nk: False
    if q: "q \<in> set (orders db)" "idempotency_key q \<noteq> None" "tenant_id q = tenant_id r" "idempotency_key q = idempotency_key r" for q
  proof -
    have "list_ex (\<lambda>p. tenant_id p = u_tenant_id u \<and> idempotency_key p = key) (orders db)"
      using q unfolding list_ex_iff k by blast
    then show False using n(1) q(2,4) k(2) by (simp add: key_conflict_def)
  qed
  have uk: "unique_keys (orders db @ [r])"
    unfolding unique_keys_def
  proof (intro ballI impI)
    fix r1 r2 assume a: "r1 \<in> set (orders db @ [r])" "r2 \<in> set (orders db @ [r])" "idempotency_key r1 \<noteq> None"
      "tenant_id r1 = tenant_id r2" "idempotency_key r1 = idempotency_key r2"
    have inj: "r1 \<in> set (orders db) \<Longrightarrow> r2 \<in> set (orders db) \<Longrightarrow> order_id r1 = order_id r2"
      using inv a(3-5) unfolding order_inv_def unique_keys_def by blast
    from a(1,2) have "(r1 \<in> set (orders db) \<or> r1 = r) \<and> (r2 \<in> set (orders db) \<or> r2 = r)" by auto
    then show "order_id r1 = order_id r2"
      using inj nk [of r1] nk [of r2] a(3-5) by metis
  qed
  have rows: "order_id q < next_order_id db' \<and> trail_ok (trail db' (order_id q)) (status q)"
    if "q \<in> set (orders db')" for q
  proof (cases "q = r")
    case True
    then show ?thesis using new by (simp add: n(5) rid)
  next
    case False
    with that have q: "q \<in> set (orders db)" by (simp add: n(3))
    with inv have "order_id q < next_order_id db" "trail_ok (trail db (order_id q)) (status q)"
      by (simp_all add: order_inv_def)
    then show ?thesis using old [of "order_id q"] by (simp add: n(5))
  qed
  have ids: "distinct (map order_id (orders db'))"
    using inv by (fastforce simp: n(3) rid order_inv_def)
  have evs: "\<forall>e \<in> set (order_events db'). ev_order_id e < next_order_id db'"
    using inv by (fastforce simp: n(4,5) rid order_inv_def)
  have "order_inv db'"
    using rows ids evs uk unfolding order_inv_def n(3) by blast
  then show ?thesis by (simp add: n(3))
qed

section \<open>Reachable tables\<close>

definition empty_order_db :: order_db where
  "empty_order_db = \<lparr>orders = [], order_events = [], next_order_id = 1, metered_orders = []\<rparr>"

text \<open>
  One step is one committed call: a \<open>create_order\<close>, or a \<open>transition_order\<close> by a caller whose order
  object is current (\<open>transition_order\<close> itself refreshes it after every commit).
\<close>

inductive order_step :: "order_db \<Rightarrow> order_db \<Rightarrow> bool" where
  step_create: "create_order db u md st sg key now = Inr (db', r, b) \<Longrightarrow> order_step db db'"
| step_transition: "r \<in> set (orders db) \<Longrightarrow> transition_order db r t d now = Inr (db', r') \<Longrightarrow> order_step db db'"

inductive order_reachable :: "order_db \<Rightarrow> bool" where
  reach_empty: "order_reachable empty_order_db"
| reach_step: "order_reachable db \<Longrightarrow> order_step db db' \<Longrightarrow> order_reachable db'"

inductive_cases order_step_cases: "order_step db db'"

lemma order_inv_empty: "order_inv empty_order_db"
  by (simp add: order_inv_def empty_order_db_def unique_keys_def)

lemma order_step_inv: "order_step db db' \<Longrightarrow> order_inv db \<Longrightarrow> order_inv db'"
  by (auto elim!: order_step_cases dest: create_order_inv transition_order_inv)

lemma order_reachable_inv: "order_reachable db \<Longrightarrow> order_inv db"
  by (induction rule: order_reachable.induct) (auto intro: order_inv_empty order_step_inv)

lemma transition_keeps_others:
  assumes "order_inv db" "r \<in> set (orders db)" "transition_order db q t d now = Inr (db', q')"
    "order_id q \<noteq> order_id r"
  shows "r \<in> set (orders db')"
  using assms(3)
proof (rule transition_order_cases)
  assume "orders db' = set_status (order_id q) t now (orders db)"
  then show ?thesis using assms(2,4) by (force simp: set_status_def image_iff)
qed

lemma terminal_step:
  assumes inv: "order_inv db" and r: "r \<in> set (orders db)" "is_terminal (status r)" and st: "order_step db db'"
  shows "r \<in> set (orders db')"
  using st
proof (rule order_step_cases)
  fix u md sg key now q b strat
  assume "create_order db u md strat sg key now = Inr (db', q, b)"
  then show ?thesis using r create_order_existing create_order_new by (cases b) fastforce+
next
  fix q t d now q'
  assume q: "q \<in> set (orders db)" and tr: "transition_order db q t d now = Inr (db', q')"
  show ?thesis
  proof (cases "order_id q = order_id r")
    case True
    then have "q = r" using unique_row [OF inv q r(1)] by simp
    then show ?thesis using tr r(2)
      by (auto simp: terminal_iff_no_transition elim!: transition_order_cases)
  next
    case False
    then show ?thesis using transition_keeps_others [OF inv r(1) tr] by simp
  qed
qed

lemma find_unique:
  assumes "order_inv db" "r \<in> set (orders db)" "idempotency_key r = Some k"
  shows "get_order_by_idempotency_key db (tenant_id r) k = Some r"
proof -
  obtain q where q: "get_order_by_idempotency_key db (tenant_id r) k = Some q"
    using assms(2,3) by (cases "get_order_by_idempotency_key db (tenant_id r) k")
      (auto simp: get_order_by_idempotency_key_def find_None_iff)
  then have "q \<in> set (orders db)" "tenant_id q = tenant_id r" "idempotency_key q = Some k"
    by (auto simp: get_order_by_idempotency_key_def find_Some_iff)
  moreover have "unique_keys (orders db)" using assms(1) by (simp add: order_inv_def)
  ultimately have "order_id q = order_id r"
    using assms(2,3) unfolding unique_keys_def by (metis option.distinct(1))
  then have "q = r" using unique_row [OF assms(1) \<open>q \<in> set (orders db)\<close> assms(2)] by simp
  with q show ?thesis by simp
qed


text \<open>
  C4. A retried submission with the same non-empty idempotency key never makes a second order: it
  leaves every table as it is and returns the tenant's existing order with that key.
\<close>

theorem create_order_idempotent:
  assumes "order_reachable db" "r \<in> set (orders db)" "idempotency_key r = Some k" "k \<noteq> []"
    and "tenant_id r = u_tenant_id u"
  shows "create_order db u md st sg (Some k) now = Inr (db, r, False)"
proof -
  have "key_conflict db (u_tenant_id u) (Some k)"
    using assms by (auto simp: key_conflict_def list_ex_iff)
  moreover have "get_order_by_idempotency_key db (u_tenant_id u) k = Some r"
    using find_unique [OF order_reachable_inv [OF assms(1)] assms(2,3)] assms(5) by simp
  ultimately show ?thesis using assms(4) by (simp add: create_order_def truthy_def)
qed

text \<open>
  A terminal order is final: whatever call commits next, its row is still in the table,
  unchanged in every column.
\<close>

theorem terminal_order_final:
  assumes "order_reachable db" "r \<in> set (orders db)" "is_terminal (status r)" "order_step db db'"
  shows "r \<in> set (orders db')"
  using terminal_step [OF order_reachable_inv [OF assms(1)] assms(2-4)] .

text \<open>
  \<open>transition_order\<close> validates the status of the object its caller holds, not the row's: for an
  object that is older than the row, it overwrites whatever status the row has reached since.
\<close>

theorem transition_order_trusts_the_object:
  assumes "t \<in> set (transitions (status held))" "r \<in> set (orders db)" "order_id held = order_id r"
  shows "\<exists>db'. transition_order db held t d now = Inr (db', held\<lparr>status := t, updated_at := now\<rparr>) \<and>
    r\<lparr>status := t, updated_at := now\<rparr> \<in> set (orders db')"
  using assms
  by (auto simp: transition_order_def assert_valid_transition_def Let_def set_status_def image_iff intro!: bexI [of _ r])

section \<open>Witnesses\<close>

definition demo_user :: order_user where
  "demo_user = \<lparr>u_id = 7, u_tenant_id = 3\<rparr>"

definition demo_signal :: order_signal where
  "demo_signal = \<lparr>sig_symbol = ''NIFTY'', sig_direction = ''LONG'', sig_json = ''{}''\<rparr>"

definition demo_row :: "order_status \<Rightarrow> order_row" where
  "demo_row st = \<lparr>order_id = 1, tenant_id = 3, user_id = 7, idempotency_key = Some ''k1'', mode = ''PAPER'',
     strategy_id = ''orb'', symbol = ''NIFTY'', direction = ''LONG'', status = st, broker_order_id = None,
     algo_tag = None, trade_id = None, signal_json = ''{}'', reasons = [], updated_at = 10\<rparr>"

definition demo_db1 :: order_db where
  "demo_db1 = \<lparr>orders = [demo_row CREATED],
     order_events = [\<lparr>ev_order_id = 1, from_status = None, to_status = CREATED, ev_detail = []\<rparr>],
     next_order_id = 2, metered_orders = [(3, ''paper'', ''orb'')]\<rparr>"

definition demo_db2 :: order_db where
  "demo_db2 = \<lparr>orders = [demo_row CANCELLED],
     order_events = [\<lparr>ev_order_id = 1, from_status = None, to_status = CREATED, ev_detail = []\<rparr>,
       \<lparr>ev_order_id = 1, from_status = Some CREATED, to_status = CANCELLED, ev_detail = ''stop''\<rparr>],
     next_order_id = 2, metered_orders = [(3, ''paper'', ''orb'')]\<rparr>"

lemma demo_db1_reachable: "order_reachable demo_db1"
proof -
  have "create_order empty_order_db demo_user ''PAPER'' ''orb'' demo_signal (Some ''k1'') 10
      = Inr (demo_db1, demo_row CREATED, True)"
    by code_simp
  then show ?thesis by (rule reach_step [OF reach_empty step_create])
qed

lemma demo_db2_step: "order_step demo_db1 demo_db2"
proof -
  have "transition_order demo_db1 (demo_row CREATED) CANCELLED ''stop'' 10 = Inr (demo_db2, demo_row CANCELLED)"
    by code_simp
  moreover have "demo_row CREATED \<in> set (orders demo_db1)" by (simp add: demo_db1_def)
  ultimately show ?thesis by (rule step_transition [rotated])
qed

lemma demo_db2_reachable: "order_reachable demo_db2"
  using demo_db1_reachable demo_db2_step by (rule reach_step)


theorem create_order_idempotent_witness:
  "create_order demo_db2 demo_user ''LIVE'' ''orb'' demo_signal (Some ''k1'') 99 = Inr (demo_db2, demo_row CANCELLED, False)"
  by (rule create_order_idempotent [OF demo_db2_reachable])
    (simp_all add: demo_db2_def demo_row_def demo_user_def)

theorem terminal_order_final_witness:
  "\<exists>db'. order_step demo_db2 db' \<and> demo_row CANCELLED \<in> set (orders db')"
proof -
  have m: "demo_row CANCELLED \<in> set (orders demo_db2)" by (simp add: demo_db2_def)
  have t: "is_terminal (status (demo_row CANCELLED))" by (simp add: demo_row_def is_terminal_def TERMINAL_STATUSES_def)
  obtain db' r b where "create_order demo_db2 demo_user ''PAPER'' ''orb'' demo_signal None 11 = Inr (db', r, b)"
    by (auto simp: create_order_def key_conflict_def Let_def)
  then have st: "order_step demo_db2 db'" by (rule step_create)
  show ?thesis using st terminal_order_final [OF demo_db2_reachable m t st] by blast
qed

theorem transition_order_trusts_the_object_witness:
  "\<exists>db'. transition_order demo_db2 (demo_row CREATED) VALIDATING [] 12 =
       Inr (db', (demo_row CREATED)\<lparr>status := VALIDATING, updated_at := 12\<rparr>) \<and>
     (demo_row CANCELLED)\<lparr>status := VALIDATING, updated_at := 12\<rparr> \<in> set (orders db')"
  by (rule transition_order_trusts_the_object) (simp_all add: demo_row_def demo_db2_def)

end
