(* ===== verification/Pyfloat.thy ===== *)
theory Pyfloat
  imports Prelude Complex_Main "HOL-Library.Log_Nat"
begin

text \<open>
  Python's \<open>float\<close> is an IEEE binary64 number. A finite float is modelled by the rational it
  denotes, and every arithmetic operation by the exact rational operation followed by \<open>fl\<close>, the
  rounding to the nearest binary64 number, ties to even, with gradual underflow. Infinities, NaN
  and the sign of zero are outside the model: the code's prices and quantities are finite.
  \<open>py_round2\<close> is the builtin \<open>round(x, 2)\<close>: the decimal nearest to the exact value of \<open>x\<close>, ties to
  even, then the float nearest to that decimal.
\<close>

type_synonym pyfloat = rat

section \<open>Round half to even\<close>

definition rhe :: "rat \<Rightarrow> int" where
  "rhe x = (let f = \<lfloor>x\<rfloor>; d = x - of_int f in
     if d < 1/2 then f else if d > 1/2 then f + 1 else if even f then f else f + 1)"

lemma rhe_of_int [simp]: "rhe (of_int n) = n"
  by (simp add: rhe_def)

lemma rhe_near: "\<bar>of_int (rhe x) - x\<bar> \<le> 1/2"
proof -
  have "of_int \<lfloor>x\<rfloor> \<le> x" "x < of_int \<lfloor>x\<rfloor> + 1" by linarith+
  then show ?thesis by (auto simp: rhe_def Let_def)
qed

lemma rhe_mono: "x \<le> y \<Longrightarrow> rhe x \<le> rhe y"
proof -
  assume "x \<le> y"
  then have f: "\<lfloor>x\<rfloor> \<le> \<lfloor>y\<rfloor>" by (rule floor_mono)
  show ?thesis
  proof (cases "\<lfloor>x\<rfloor> = \<lfloor>y\<rfloor>")
    case True
    with \<open>x \<le> y\<close> show ?thesis by (auto simp: rhe_def Let_def)
  next
    case False
    with f have "\<lfloor>x\<rfloor> + 1 \<le> \<lfloor>y\<rfloor>" by simp
    moreover have "rhe x \<le> \<lfloor>x\<rfloor> + 1" by (simp add: rhe_def Let_def)
    moreover have "\<lfloor>y\<rfloor> \<le> rhe y" by (simp add: rhe_def Let_def)
    ultimately show ?thesis by linarith
  qed
qed

lemma rhe_minus: "rhe (- x) = - rhe x"
proof (cases "x = of_int \<lfloor>x\<rfloor>")
  case True
  then obtain n where n: "x = of_int n" by blast
  have "rhe (- x) = rhe (of_int (- n))" by (simp add: n)
  also have "\<dots> = - n" by (rule rhe_of_int)
  finally show ?thesis by (simp add: n)
next
  case False
  have "of_int \<lfloor>x\<rfloor> \<le> x" "x < of_int \<lfloor>x\<rfloor> + 1" by linarith+
  with False have lt: "of_int \<lfloor>x\<rfloor> < x" by linarith
  have "\<lfloor>- x\<rfloor> = - \<lfloor>x\<rfloor> - 1"
    using lt \<open>x < of_int \<lfloor>x\<rfloor> + 1\<close> by (intro floor_unique) auto
  then show ?thesis by (auto simp: rhe_def Let_def)
qed

lemma rhe_unique: "\<bar>of_int n - x\<bar> < 1/2 \<Longrightarrow> rhe x = n"
proof -
  assume a: "\<bar>of_int n - x\<bar> < 1/2"
  have "\<bar>of_int (rhe x) - x\<bar> \<le> 1/2" by (rule rhe_near)
  with a have "\<bar>of_int (rhe x) - of_int n :: rat\<bar> < 1" by linarith
  then have "\<bar>of_int (rhe x - n) :: rat\<bar> < 1" by simp
  then show ?thesis by linarith
qed

section \<open>Binary exponent\<close>

definition flog2 :: "rat \<Rightarrow> int" where
  "flog2 x = (case quotient_of x of (p, q) \<Rightarrow>
     let e = bitlen p - bitlen q in if 2 powi e \<le> x then e else e - 1)"

lemma powi2_bitlen: "0 < p \<Longrightarrow> 2 powi (bitlen p - 1) \<le> (of_int p :: rat) \<and> of_int p < (2 powi bitlen p :: rat)"
proof -
  assume p: "0 < p"
  then have b: "2 ^ nat (bitlen p - 1) \<le> p \<and> p < 2 ^ nat (bitlen p)" by (rule bitlen_bounds)
  from p have "1 \<le> bitlen p"
    by (simp add: bitlen_def floorlog_def)
  then have "(2 powi (bitlen p - 1) :: rat) = of_int (2 ^ nat (bitlen p - 1))"
    and "(2 powi bitlen p :: rat) = of_int (2 ^ nat (bitlen p))"
    by (simp_all add: power_int_def)
  then show ?thesis using b by (simp only: of_int_le_iff of_int_less_iff)
qed

lemma powi2_mono: "i \<le> j \<Longrightarrow> (2 powi i :: rat) \<le> 2 powi j"
  by (rule power_int_increasing) simp_all

lemma powi2_add: "(2 powi (i + j) :: rat) = 2 powi i * 2 powi j"
  by (simp add: power_int_add)

lemma powi2_less_imp: "(2 powi i :: rat) < 2 powi j \<Longrightarrow> i < j"
  using powi2_mono [of j i] by (meson leD not_le_imp_less)

lemma flog2_bounds: "0 < x \<Longrightarrow> 2 powi flog2 x \<le> x \<and> x < 2 powi (flog2 x + 1)"
proof -
  assume x: "0 < x"
  obtain p q where pq: "quotient_of x = (p, q)" by fastforce
  then have q: "0 < q" by (rule quotient_of_denom_pos)
  have xpq: "x = of_int p / of_int q" using pq by (rule quotient_of_div)
  with x q have p: "0 < p" by (simp add: zero_less_divide_iff)
  let ?e = "bitlen p - bitlen q"
  have P: "2 powi (bitlen p - 1) \<le> (of_int p :: rat)" "of_int p < (2 powi bitlen p :: rat)"
    and Q: "2 powi (bitlen q - 1) \<le> (of_int q :: rat)" "of_int q < (2 powi bitlen q :: rat)"
    using powi2_bitlen [OF p] powi2_bitlen [OF q] by auto
  have pos: "0 < (of_int q :: rat)" using q by simp
  have hi: "x < 2 powi (?e + 1)"
  proof -
    have "(2 powi (?e + 1) :: rat) * 2 powi (bitlen q - 1) = 2 powi bitlen p"
      by (simp add: powi2_add [symmetric])
    moreover have "(2 powi (?e + 1) :: rat) * 2 powi (bitlen q - 1) \<le> 2 powi (?e + 1) * of_int q"
      using Q(1) by (intro mult_left_mono) auto
    ultimately have "of_int p < 2 powi (?e + 1) * (of_int q :: rat)" using P(2) by linarith
    then show ?thesis using pos by (simp add: xpq divide_less_eq)
  qed
  have lo: "2 powi (?e - 1) \<le> x"
  proof -
    have "(2 powi (?e - 1) :: rat) * of_int q \<le> 2 powi (?e - 1) * 2 powi bitlen q"
      using Q(2) by (intro mult_left_mono) auto
    also have "\<dots> = 2 powi (bitlen p - 1)" by (simp add: powi2_add [symmetric])
    finally have "2 powi (?e - 1) * of_int q \<le> (of_int p :: rat)" using P(1) by linarith
    then show ?thesis using pos by (simp add: xpq le_divide_eq)
  qed
  show ?thesis using hi lo by (auto simp: flog2_def pq Let_def)
qed

lemma flog2_unique: "0 < x \<Longrightarrow> 2 powi k \<le> x \<Longrightarrow> x < 2 powi (k + 1) \<Longrightarrow> flog2 x = k"
  using flog2_bounds [of x] powi2_less_imp [of k "flog2 x + 1"] powi2_less_imp [of "flog2 x" "k + 1"]
  by fastforce

lemma flog2_mono: "0 < x \<Longrightarrow> x \<le> y \<Longrightarrow> flog2 x \<le> flog2 y"
  using flog2_bounds [of x] flog2_bounds [of y] powi2_less_imp [of "flog2 x" "flog2 y + 1"] by fastforce

section \<open>Rounding to binary64\<close>

definition ulp_exp :: "rat \<Rightarrow> int" where
  "ulp_exp x = max (flog2 \<bar>x\<bar> - 52) (- 1074)"

definition fl :: "rat \<Rightarrow> pyfloat" where
  "fl x = (if x = 0 then 0 else let e = ulp_exp x in of_int (rhe (x / 2 powi e)) * 2 powi e)"

lemma fl_0 [simp]: "fl 0 = 0"
  by (simp add: fl_def)

lemma fl_minus: "fl (- x) = - fl x"
  by (simp add: fl_def ulp_exp_def Let_def rhe_minus)

lemma rhe_powi_ge: "0 \<le> k \<Longrightarrow> 2 powi k \<le> x \<Longrightarrow> 2 powi k \<le> (of_int (rhe x) :: rat)"
proof -
  assume k: "0 \<le> k" and x: "2 powi k \<le> x"
  have i: "(2 powi k :: rat) = of_int (2 ^ nat k)" using k by (simp add: power_int_def)
  from x have "rhe (of_int (2 ^ nat k)) \<le> rhe x" unfolding i by (rule rhe_mono)
  then show ?thesis unfolding i rhe_of_int by (simp only: of_int_le_iff)
qed

lemma rhe_powi_le: "0 \<le> k \<Longrightarrow> x \<le> 2 powi k \<Longrightarrow> (of_int (rhe x) :: rat) \<le> 2 powi k"
proof -
  assume k: "0 \<le> k" and x: "x \<le> 2 powi k"
  have i: "(2 powi k :: rat) = of_int (2 ^ nat k)" using k by (simp add: power_int_def)
  from x have "rhe x \<le> rhe (of_int (2 ^ nat k))" unfolding i by (rule rhe_mono)
  then show ?thesis unfolding i rhe_of_int by (simp only: of_int_le_iff)
qed

text \<open>Rounding keeps a number on its side of every power of two that is itself representable.\<close>

lemma fl_ge_powi:
  assumes "0 < x" "2 powi k \<le> x" "ulp_exp x \<le> k"
  shows "2 powi k \<le> fl x"
proof -
  let ?e = "ulp_exp x"
  have "2 powi (k - ?e) \<le> x / 2 powi ?e"
    using assms(2) by (simp add: power_int_diff divide_right_mono)
  with assms(3) have "2 powi (k - ?e) \<le> (of_int (rhe (x / 2 powi ?e)) :: rat)"
    by (intro rhe_powi_ge) auto
  then have "2 powi (k - ?e) * 2 powi ?e \<le> of_int (rhe (x / 2 powi ?e)) * (2 powi ?e :: rat)"
    by (intro mult_right_mono) auto
  moreover have "(2 powi (k - ?e) * 2 powi ?e :: rat) = 2 powi k" by (simp add: powi2_add [symmetric])
  ultimately show ?thesis using assms(1) by (simp add: fl_def Let_def)
qed

lemma fl_le_powi:
  assumes "0 < x" "x \<le> 2 powi k" "ulp_exp x \<le> k"
  shows "fl x \<le> 2 powi k"
proof -
  let ?e = "ulp_exp x"
  have "x / 2 powi ?e \<le> 2 powi (k - ?e)"
    using assms(2) by (simp add: power_int_diff divide_right_mono)
  with assms(3) have "(of_int (rhe (x / 2 powi ?e)) :: rat) \<le> 2 powi (k - ?e)"
    by (intro rhe_powi_le) auto
  then have "of_int (rhe (x / 2 powi ?e)) * (2 powi ?e :: rat) \<le> 2 powi (k - ?e) * 2 powi ?e"
    by (intro mult_right_mono) auto
  moreover have "(2 powi (k - ?e) * 2 powi ?e :: rat) = 2 powi k" by (simp add: powi2_add [symmetric])
  ultimately show ?thesis using assms(1) by (simp add: fl_def Let_def)
qed

lemma ulp_exp_minus [simp]: "ulp_exp (- x) = ulp_exp x"
  by (simp add: ulp_exp_def)

lemma ulp_exp_mono: "0 < x \<Longrightarrow> x \<le> y \<Longrightarrow> ulp_exp x \<le> ulp_exp y"
  using flog2_mono [of x y] by (simp add: ulp_exp_def)

lemma fl_mono_pos:
  assumes "0 < x" "x \<le> y"
  shows "fl x \<le> fl y"
proof (cases "ulp_exp x = ulp_exp y")
  case True
  have "rhe (x / 2 powi ulp_exp y) \<le> rhe (y / 2 powi ulp_exp y)"
    using assms(2) by (intro rhe_mono divide_right_mono) auto
  then show ?thesis using assms True by (simp add: fl_def Let_def mult_right_mono)
next
  case False
  with ulp_exp_mono [OF assms] have lt: "ulp_exp x < ulp_exp y" by simp
  have y: "0 < y" using assms by simp
  let ?k = "flog2 y"
  from lt assms y have k: "ulp_exp y \<le> ?k" "flog2 x < ?k"
    using flog2_mono [OF assms] by (auto simp: ulp_exp_def)
  have "x \<le> 2 powi ?k"
    using flog2_bounds [OF assms(1)] powi2_mono [of "flog2 x + 1" ?k] k(2) by force
  with lt k(1) have "fl x \<le> 2 powi ?k" by (intro fl_le_powi assms(1)) auto
  moreover have "2 powi ?k \<le> fl y"
    using flog2_bounds [OF y] k(1) by (intro fl_ge_powi y) auto
  ultimately show ?thesis by linarith
qed

lemma fl_nonneg: "0 \<le> x \<Longrightarrow> 0 \<le> fl x"
  using rhe_mono [of 0 "x / 2 powi ulp_exp x"] rhe_of_int [of 0]
  by (auto simp: fl_def Let_def)

lemma fl_mono: "x \<le> y \<Longrightarrow> fl x \<le> fl y"
proof -
  assume xy: "x \<le> y"
  consider "0 < x" | "x \<le> 0" "0 \<le> y" | "y < 0" by linarith
  then show ?thesis
  proof cases
    case 1
    then show ?thesis using xy by (rule fl_mono_pos)
  next
    case 2
    then have "0 \<le> fl (- x)" "0 \<le> fl y" by (simp_all add: fl_nonneg)
    then show ?thesis by (simp add: fl_minus)
  next
    case 3
    then have "fl (- y) \<le> fl (- x)" using xy by (intro fl_mono_pos) auto
    then show ?thesis by (simp add: fl_minus)
  qed
qed

subsection \<open>Representable numbers\<close>

lemma fl_scaled:
  assumes m: "0 < m" "m < 2 ^ 53" and e: "- 1074 \<le> e"
  shows "fl (of_int m * 2 powi e) = of_int m * 2 powi e"
proof -
  let ?y = "of_int m * 2 powi e :: rat"
  have y: "0 < ?y" using m by simp
  have "(of_int m :: rat) < of_int (2 ^ 53)" using m(2) by (simp only: of_int_less_iff)
  then have "?y < of_int (2 ^ 53) * 2 powi e" by (intro mult_strict_right_mono) auto
  also have "of_int (2 ^ 53) = (2 powi 53 :: rat)" by (simp add: power_int_def)
  also have "2 powi 53 * 2 powi e = (2 powi (53 + e) :: rat)" by (simp only: powi2_add)
  finally have "flog2 ?y < 53 + e"
    using flog2_bounds [OF y] powi2_less_imp [of "flog2 ?y" "53 + e"] by linarith
  then have u: "ulp_exp ?y \<le> e" using e y by (simp add: ulp_exp_def)
  then have "?y / 2 powi ulp_exp ?y = of_int (m * 2 ^ nat (e - ulp_exp ?y))"
    by (simp add: power_int_def [of 2 "e - ulp_exp ?y"] power_int_diff [symmetric] times_divide_eq_right [symmetric]
        del: times_divide_eq_right)
  then have "rhe (?y / 2 powi ulp_exp ?y) = m * 2 ^ nat (e - ulp_exp ?y)" by (simp only: rhe_of_int)
  then have "fl ?y = of_int m * (2 ^ nat (e - ulp_exp ?y) * 2 powi ulp_exp ?y)"
    using y by (simp add: fl_def Let_def)
  also have "2 ^ nat (e - ulp_exp ?y) = (2 powi (e - ulp_exp ?y) :: rat)" using u by (simp add: power_int_def)
  also have "2 powi (e - ulp_exp ?y) * 2 powi ulp_exp ?y = (2 powi e :: rat)"
    by (simp add: powi2_add [symmetric])
  finally show ?thesis .
qed

lemma fl_scaled_le:
  assumes m: "0 \<le> m" "m \<le> 2 ^ 53" and e: "- 1074 \<le> e"
  shows "fl (of_int m * 2 powi e) = of_int m * 2 powi e"
proof (cases "m = 0 \<or> m < 2 ^ 53")
  case True
  then show ?thesis using fl_scaled [of m e] assms by (cases "m = 0") auto
next
  case False
  then have "m = 2 ^ 53" using m by simp
  moreover have "(2 powi (1 + e) :: rat) = 2 * 2 powi e" by (simp add: powi2_add)
  ultimately have "of_int m * 2 powi e = of_int (2 ^ 52) * (2 powi (1 + e) :: rat)" by simp
  then show ?thesis using fl_scaled [of "2 ^ 52" "1 + e"] e by simp
qed

lemma fl_idem_pos: "0 < x \<Longrightarrow> fl (fl x) = fl x"
proof -
  assume x: "0 < x"
  let ?e = "ulp_exp x" and ?m = "rhe (x / 2 powi ulp_exp x)"
  have fx: "fl x = of_int ?m * 2 powi ?e" using x by (simp add: fl_def Let_def)
  have "flog2 x + 1 \<le> 53 + ?e" using x by (simp add: ulp_exp_def)
  then have "x \<le> 2 powi (53 + ?e)"
    using flog2_bounds [OF x] powi2_mono [of "flog2 x + 1" "53 + ?e"] by linarith
  then have "x / 2 powi ?e \<le> 2 powi 53"
    by (simp add: powi2_add divide_le_eq)
  then have "(of_int ?m :: rat) \<le> 2 powi 53" by (intro rhe_powi_le) auto
  then have "of_int ?m \<le> (of_int (2 ^ 53) :: rat)" by (simp add: power_int_def)
  then have "?m \<le> 2 ^ 53" by (simp only: of_int_le_iff)
  moreover have "0 \<le> ?m" using rhe_mono [of 0 "x / 2 powi ?e"] rhe_of_int [of 0] x by simp
  moreover have "- 1074 \<le> ?e" by (simp add: ulp_exp_def)
  ultimately show ?thesis unfolding fx by (intro fl_scaled_le)
qed

lemma fl_idem [simp]: "fl (fl x) = fl x"
proof (cases "0 < x \<or> x = 0")
  case True
  then show ?thesis by (auto intro: fl_idem_pos)
next
  case False
  then have "fl (fl (- x)) = fl (- x)" by (intro fl_idem_pos) auto
  then show ?thesis by (simp add: fl_minus)
qed

definition is64 :: "rat \<Rightarrow> bool" where
  "is64 x = (fl x = x)"

lemma is64_fl [simp, float_rules]: "is64 (fl x)"
  by (simp add: is64_def)

lemma is64_minus [simp]: "is64 (- x) = is64 x"
  by (simp add: is64_def fl_minus)

lemma fl_of_int [float_rules]: "\<bar>n\<bar> \<le> 2 ^ 53 \<Longrightarrow> fl (of_int n) = of_int n"
proof -
  assume a: "\<bar>n\<bar> \<le> 2 ^ 53"
  have "fl (of_int \<bar>n\<bar> * 2 powi 0) = of_int \<bar>n\<bar> * 2 powi 0" using a by (intro fl_scaled_le) auto
  then have "fl (of_int \<bar>n\<bar>) = of_int \<bar>n\<bar>" by simp
  then show ?thesis by (cases "0 \<le> n") (auto simp: fl_minus)
qed

lemma fl_error: "2 powi (- 1022) \<le> x \<Longrightarrow> \<bar>fl x - x\<bar> \<le> x * 2 powi (- 53)"
proof -
  assume a: "2 powi (- 1022) \<le> x"
  have "(0 :: rat) < 2 powi (- 1022)" by simp
  with a have x: "0 < x" by linarith
  have "2 powi (- 1022) < (2 powi (flog2 x + 1) :: rat)" using flog2_bounds [OF x] a by linarith
  then have "- 1022 < flog2 x + 1" by (rule powi2_less_imp)
  then have e: "ulp_exp x = flog2 x - 52" using x by (simp add: ulp_exp_def)
  let ?u = "2 powi ulp_exp x :: rat"
  have "fl x - x = (of_int (rhe (x / ?u)) - x / ?u) * ?u"
    using x by (simp add: fl_def Let_def field_simps)
  then have "\<bar>fl x - x\<bar> = \<bar>of_int (rhe (x / ?u)) - x / ?u\<bar> * ?u" by (simp add: abs_mult)
  also have "\<dots> \<le> 1/2 * ?u" by (intro mult_right_mono rhe_near) auto
  also have "\<dots> = 2 powi flog2 x * 2 powi (- 53)"
  proof -
    have "(2 powi (ulp_exp x) :: rat) = 2 powi (1 + (flog2 x + (- 53)))" by (simp add: e)
    also have "\<dots> = 2 * (2 powi flog2 x * 2 powi (- 53))" by (simp only: powi2_add) simp
    finally show ?thesis by simp
  qed
  also have "\<dots> \<le> x * 2 powi (- 53)"
    using flog2_bounds [OF x] by (intro mult_right_mono) auto
  finally show ?thesis .
qed

section \<open>Float arithmetic and round(x, 2)\<close>

definition fadd :: "pyfloat \<Rightarrow> pyfloat \<Rightarrow> pyfloat" where
  "fadd x y = fl (x + y)"

definition fsub :: "pyfloat \<Rightarrow> pyfloat \<Rightarrow> pyfloat" where
  "fsub x y = fl (x - y)"

definition fmul :: "pyfloat \<Rightarrow> pyfloat \<Rightarrow> pyfloat" where
  "fmul x y = fl (x * y)"

definition fdiv :: "pyfloat \<Rightarrow> pyfloat \<Rightarrow> pyfloat" where
  "fdiv x y = fl (x / y)"

definition py_round2 :: "pyfloat \<Rightarrow> pyfloat" where
  "py_round2 x = fl (of_int (rhe (x * 100)) / 100)"

text \<open>A float literal: the binary64 number nearest to the decimal written in the source.\<close>

definition flit :: "int \<Rightarrow> int \<Rightarrow> pyfloat" where
  "flit n d = fl (of_int n / of_int d)"

lemma fadd_mono: "x \<le> x' \<Longrightarrow> y \<le> y' \<Longrightarrow> fadd x y \<le> fadd x' y'"
  by (simp add: fadd_def fl_mono add_mono)

lemma fsub_mono: "x \<le> x' \<Longrightarrow> y' \<le> y \<Longrightarrow> fsub x y \<le> fsub x' y'"
  by (simp add: fsub_def fl_mono diff_mono)

lemma fmul_nonneg: "0 \<le> x \<Longrightarrow> 0 \<le> y \<Longrightarrow> 0 \<le> fmul x y"
  by (simp add: fmul_def fl_nonneg)

lemma fdiv_nonneg: "0 \<le> x \<Longrightarrow> 0 \<le> y \<Longrightarrow> 0 \<le> fdiv x y"
  by (simp add: fdiv_def fl_nonneg)

lemma fsub_nonneg: "y \<le> x \<Longrightarrow> 0 \<le> fsub x y"
  by (simp add: fsub_def fl_nonneg)

lemma fsub_self [simp]: "fsub x x = 0"
  by (simp add: fsub_def)

lemma is64_grid: "is64 x \<Longrightarrow> \<exists>m :: int. x = of_int m * 2 powi (- 1074)"
proof (cases "x = 0")
  case False
  assume "is64 x"
  then have x: "x = of_int (rhe (x / 2 powi ulp_exp x)) * 2 powi ulp_exp x" (is "x = of_int ?m * _")
    using False by (simp add: is64_def fl_def Let_def)
  have "- 1074 \<le> ulp_exp x" by (simp add: ulp_exp_def)
  then have "ulp_exp x = int (nat (ulp_exp x + 1074)) + - 1074" by linarith
  then have e: "(2 powi ulp_exp x :: rat) = 2 ^ nat (ulp_exp x + 1074) * 2 powi (- 1074)"
    by (metis powi2_add power_int_of_nat)
  have "of_int ?m * (2 powi ulp_exp x :: rat) = of_int ?m * (2 ^ nat (ulp_exp x + 1074) * 2 powi (- 1074))"
    by (rule arg_cong [OF e])
  also have "\<dots> = of_int (?m * 2 ^ nat (ulp_exp x + 1074)) * 2 powi (- 1074)"
    by (simp only: of_int_mult of_int_power of_int_numeral mult.assoc)
  finally show ?thesis using trans [OF x] by blast
qed (auto intro: exI [of _ 0])

text \<open>Gradual underflow: two different binary64 numbers never have the difference 0.\<close>

lemma fsub_pos: "is64 x \<Longrightarrow> is64 y \<Longrightarrow> y < x \<Longrightarrow> 0 < fsub x y"
proof -
  assume a: "is64 x" "is64 y" "y < x"
  obtain m n :: int where mn: "x = of_int m * 2 powi (- 1074)" "y = of_int n * 2 powi (- 1074)"
    using is64_grid a(1,2) by blast
  have p: "(0 :: rat) < 2 powi (- 1074)" by simp
  have "(of_int n :: rat) < of_int m" using a(3) p unfolding mn by (simp only: mult_less_cancel_right_pos)
  then have "n < m" by (simp only: of_int_less_iff)
  then have "(1 :: rat) \<le> of_int (m - n)" by (simp add: int_one_le_iff_zero_less flip: of_int_diff)
  then have "1 * 2 powi (- 1074) \<le> of_int (m - n) * (2 powi (- 1074) :: rat)" using p by (intro mult_right_mono) auto
  then have "2 powi (- 1074) \<le> x - y" unfolding mn by (simp add: left_diff_distrib)
  then have "fl (2 powi (- 1074)) \<le> fsub x y" unfolding fsub_def by (rule fl_mono)
  moreover have "fl (2 powi (- 1074)) = 2 powi (- 1074)" using fl_scaled [of 1 "- 1074"] by simp
  ultimately show ?thesis using p by linarith
qed

lemma fadd_int: "\<bar>m + n\<bar> \<le> 2 ^ 53 \<Longrightarrow> fadd (of_int m) (of_int n) = of_int (m + n)"
  using fl_of_int [of "m + n"] by (simp add: fadd_def)

lemma py_round2_mono: "x \<le> y \<Longrightarrow> py_round2 x \<le> py_round2 y"
  unfolding py_round2_def by (intro fl_mono divide_right_mono) (auto intro: rhe_mono)

lemma py_round2_0 [simp]: "py_round2 0 = 0"
  using rhe_of_int [of 0] by (simp add: py_round2_def)

lemma py_round2_minus: "py_round2 (- x) = - py_round2 x"
proof -
  have "rhe (- x * 100) = - rhe (x * 100)" using rhe_minus [of "x * 100"] by simp
  then show ?thesis by (simp add: py_round2_def fl_minus)
qed

text \<open>
  Rounding twice is rounding once as long as the number of paise fits 51 bits: the float nearest
  to \<open>n / 100\<close> is far closer than half a paisa to it.
\<close>

lemma rhe_paise: "0 < n \<Longrightarrow> n < 2 ^ 51 \<Longrightarrow> rhe (fl (of_int n / 100) * 100) = n"
proof (rule rhe_unique)
  assume n: "0 < n" "n < 2 ^ 51"
  let ?x = "of_int n / 100 :: rat"
  have "(1 :: rat) \<le> of_int n" using n by simp
  then have "1 / 100 \<le> ?x" by simp
  moreover have "2 powi (- 1022) \<le> (2 powi (- 7) :: rat)" by (rule powi2_mono) simp
  moreover have "2 powi (- 7) \<le> (1 / 100 :: rat)" by (simp add: power_int_def power_divide)
  ultimately have "2 powi (- 1022) \<le> ?x" by linarith
  then have "\<bar>fl ?x - ?x\<bar> \<le> ?x * 2 powi (- 53)" by (rule fl_error)
  then have "\<bar>fl ?x - ?x\<bar> * 100 \<le> of_int n * 2 powi (- 53)" by simp
  moreover have "of_int n * 2 powi (- 53) < (1 / 2 :: rat)"
  proof -
    have "(of_int n :: rat) < of_int (2 ^ 51)" using n(2) by (simp only: of_int_less_iff)
    then show ?thesis by (simp add: power_int_def power_divide)
  qed
  moreover have "\<bar>fl ?x - ?x\<bar> * 100 = \<bar>of_int n - fl ?x * 100\<bar>" by (simp add: abs_if field_simps)
  ultimately show "\<bar>of_int n - fl ?x * 100\<bar> < 1 / 2" by linarith
qed

lemma py_round2_idem: "\<bar>x\<bar> < 2 ^ 44 \<Longrightarrow> py_round2 (py_round2 x) = py_round2 x"
proof -
  assume b: "\<bar>x\<bar> < 2 ^ 44"
  let ?n = "rhe (x * 100)"
  have "\<bar>of_int ?n - x * 100\<bar> \<le> 1 / 2" by (rule rhe_near)
  with b have "\<bar>of_int ?n :: rat\<bar> < 2 ^ 51" by (simp add: abs_if split: if_splits)
  then have "\<bar>of_int ?n :: rat\<bar> < of_int (2 ^ 51)" by simp
  then have n: "\<bar>?n\<bar> < 2 ^ 51" by (simp only: of_int_abs [symmetric] of_int_less_iff)
  have "rhe (fl (of_int ?n / 100) * 100) = ?n"
  proof -
    consider "0 < ?n" | "?n = 0" | "?n < 0" by linarith
    then show ?thesis
    proof cases
      case 1
      then show ?thesis using n by (intro rhe_paise) auto
    next
      case 2
      then show ?thesis using rhe_of_int [of 0] by simp
    next
      case 3
      then have "rhe (fl (of_int (- ?n) / 100) * 100) = - ?n" using n by (intro rhe_paise) auto
      moreover have "fl (of_int (- ?n) / 100) * 100 = - (fl (of_int ?n / 100) * 100)" by (simp add: fl_minus)
      ultimately show ?thesis by (metis minus_equation_iff rhe_minus)
    qed
  qed
  then show ?thesis by (simp add: py_round2_def)
qed

section \<open>Monotone rounding as an interface\<close>

text \<open>
  What the components use of a rounding: it is monotone and keeps 0. A number the rounding leaves
  unchanged is a barrier no rounded value crosses.
\<close>

locale monotone_rounding =
  fixes rnd :: "rat \<Rightarrow> rat"
  assumes rnd_mono: "x \<le> y \<Longrightarrow> rnd x \<le> rnd y"
    and rnd_zero: "rnd 0 = 0"
begin

lemma rnd_nonneg: "0 \<le> x \<Longrightarrow> 0 \<le> rnd x"
  using rnd_mono [of 0 x] by (simp add: rnd_zero)

lemma rnd_nonpos: "x \<le> 0 \<Longrightarrow> rnd x \<le> 0"
  using rnd_mono [of x 0] by (simp add: rnd_zero)

lemma rnd_le_fixed: "x \<le> y \<Longrightarrow> rnd y = y \<Longrightarrow> rnd x \<le> y"
  using rnd_mono [of x y] by simp

lemma rnd_ge_fixed: "y \<le> x \<Longrightarrow> rnd y = y \<Longrightarrow> y \<le> rnd x"
  using rnd_mono [of y x] by simp

lemma rnd_max: "rnd (max x y) = max (rnd x) (rnd y)"
  using rnd_mono [of x y] rnd_mono [of y x] by (auto simp: max_def)

lemma rnd_min: "rnd (min x y) = min (rnd x) (rnd y)"
  using rnd_mono [of x y] rnd_mono [of y x] by (auto simp: min_def)

end

interpretation b64: monotone_rounding fl
  by unfold_locales (auto intro: fl_mono)

interpretation r2: monotone_rounding py_round2
  by unfold_locales (auto intro: py_round2_mono)

end
