(* ===== verification/OrderSweeper.thy ===== *)
theory OrderSweeper
  imports OrderLifecycle Tagging Pyfloat
begin

text \<open>
  The start-up order sweeper, \<open>app/execution/order_sweeper.py\<close>: every order row a stopped process left
  in a non-terminal status is settled against its venue. The environment is a parameter: the
  organisation's usable broker sessions, each session's order book as read once in this sweep
  (\<open>None\<close>: it could not be read), whether a recorded position exists, the digest of client order
  ids and the iteration order of Python's \<open>frozenset\<close> of transitions.
\<close>

section \<open>The environment and the report\<close>



record sweep_report =
  settled :: "(order_status, nat) dict"
  flagged :: "int list"
  unchecked_ids :: "int list"
  swept_tenants :: "int list"

text \<open>
  A flag pauses the organisation's LIVE entries when asked to and always notifies; the two effects
  are logged as (order, pause).
\<close>

record sweep_state =
  sw_db :: order_db
  sw_report :: sweep_report
  sw_notices :: "(int \<times> bool) list"

definition SWEEP_MIN_AGE_SECONDS :: int where "SWEEP_MIN_AGE_SECONDS = 300"





section \<open>The shortest chain of transitions\<close>

text \<open>
  Breadth-first search over \<open>_TRANSITIONS\<close>. A status enters the queue at most once, so a queue of
  eleven statuses is enough: \<open>path_fuel\<close> counts the statuses taken from the queue.
\<close>

fun push_new ::
  "order_status list \<Rightarrow> order_status list \<Rightarrow> order_status list \<Rightarrow> (order_status \<times> order_status list) list
   \<Rightarrow> order_status list \<times> (order_status \<times> order_status list) list" where
  "push_new [] path seen queue = (seen, queue)"
| "push_new (nxt # rest) path seen queue =
     (if nxt \<in> set seen then push_new rest path seen queue
      else push_new rest path (nxt # seen) (queue @ [(nxt, path @ [nxt])]))"

fun path_search ::
  "nat \<Rightarrow> (order_status \<Rightarrow> order_status list) \<Rightarrow> order_status \<Rightarrow> order_status list
   \<Rightarrow> (order_status \<times> order_status list) list \<Rightarrow> order_status list" where
  "path_search 0 succ goal seen queue = []"
| "path_search (Suc fuel) succ goal seen [] = []"
| "path_search (Suc fuel) succ goal seen ((stat, path) # queue) =
     (if stat = goal then path
      else (case push_new (succ stat) path seen queue of (seen', queue') \<Rightarrow>
              path_search fuel succ goal seen' queue'))"

definition path_fuel :: nat where "path_fuel = 12"

definition order_path :: "(order_status \<Rightarrow> order_status list) \<Rightarrow> order_status \<Rightarrow> order_status \<Rightarrow> order_status list" where
  "order_path succ start goal = path_search path_fuel succ goal [start] [(start, [])]"

section \<open>Moving and flagging\<close>










text \<open>
  Learning the broker's order id changes the row too: the pending attribute is written by the commit
  of the move or the flag that follows in every branch.
\<close>

definition set_broker_id :: "order_row \<Rightarrow> string \<Rightarrow> sweep_state \<Rightarrow> sweep_state" where
  "set_broker_id order bid s = s\<lparr>sw_db := (sw_db s)\<lparr>orders :=
     map (\<lambda>r. if order_id r = order_id order then r\<lparr>broker_order_id := Some bid\<rparr> else r) (orders (sw_db s))\<rparr>\<rparr>"



section \<open>The sweep\<close>






section \<open>The chain found is legal, and found when there is one\<close>

definition succ_ok :: "(order_status \<Rightarrow> order_status list) \<Rightarrow> bool" where
  "succ_ok succ = (\<forall>s. set (succ s) = set (transitions s))"

lemma push_new_queue:
  "push_new ns path seen queue = (seen', queue') \<Longrightarrow>
     set seen' = set seen \<union> set ns \<and>
     (\<exists>new. queue' = queue @ map (\<lambda>n. (n, path @ [n])) new \<and> set new = set ns - set seen \<and> distinct new)"
proof (induction ns arbitrary: seen queue)
  case (Cons nxt rest)
  show ?case
  proof (cases "nxt \<in> set seen")
    case True
    then have "push_new rest path seen queue = (seen', queue')" using Cons.prems by simp
    from Cons.IH [OF this] True show ?thesis by (simp add: insert_absorb insert_Diff_if)
  next
    case False
    then have "push_new rest path (nxt # seen) (queue @ [(nxt, path @ [nxt])]) = (seen', queue')"
      using Cons.prems by simp
    from Cons.IH [OF this] obtain new where n:
      "set seen' = set (nxt # seen) \<union> set rest"
      "queue' = (queue @ [(nxt, path @ [nxt])]) @ map (\<lambda>n. (n, path @ [n])) new"
      "set new = set rest - set (nxt # seen)" "distinct new" by blast
    have "set (nxt # new) = set (nxt # rest) - set seen" using n(3) False by auto
    moreover have "distinct (nxt # new)" using n(3,4) by simp
    moreover have "queue' = queue @ map (\<lambda>n. (n, path @ [n])) (nxt # new)" using n(2) by simp
    moreover have "set seen' = set seen \<union> set (nxt # rest)" using n(1) by simp
    ultimately show ?thesis by blast
  qed
qed simp

lemma path_search_sound:
  "succ_ok succ \<Longrightarrow> \<forall>(st, p) \<in> set queue. transition_path start p st \<Longrightarrow>
     path_search fuel succ goal seen queue \<noteq> [] \<Longrightarrow>
     transition_path start (path_search fuel succ goal seen queue) goal"
proof (induction fuel succ goal seen queue rule: path_search.induct)
  case (3 fuel succ goal seen stat path queue)
  show ?case
  proof (cases "stat = goal")
    case True
    then show ?thesis using "3.prems" by simp
  next
    case False
    obtain seen' queue' where p: "push_new (succ stat) path seen queue = (seen', queue')" by fastforce
    then obtain new where new: "queue' = queue @ map (\<lambda>n. (n, path @ [n])) new" "set new \<subseteq> set (succ stat)"
      using push_new_queue [OF p] by blast
    have "transition_path start (path @ [n]) n" if "n \<in> set new" for n
      using that new(2) "3.prems"(1,2) by (auto simp: succ_ok_def intro: transition_path_snoc)
    then have "\<forall>(st, q) \<in> set queue'. transition_path start q st"
      using "3.prems"(2) new(1) by auto
    then show ?thesis using "3.IH" [OF False p [symmetric]] "3.prems" False p by simp
  qed
qed simp_all

definition processed :: "order_status list \<Rightarrow> (order_status \<times> order_status list) list \<Rightarrow> order_status set" where
  "processed seen queue = set seen - fst ` set queue"

definition search_inv ::
  "(order_status \<Rightarrow> order_status list) \<Rightarrow> order_status \<Rightarrow> order_status list
   \<Rightarrow> (order_status \<times> order_status list) list \<Rightarrow> bool" where
  "search_inv succ goal seen queue =
     (distinct (map fst queue) \<and> fst ` set queue \<subseteq> set seen \<and> goal \<notin> processed seen queue \<and>
      (\<forall>s \<in> processed seen queue. set (succ s) \<subseteq> set seen))"

lemma search_inv_step:
  assumes inv: "search_inv succ goal seen ((stat, path) # queue)" and ne: "stat \<noteq> goal"
    and p: "push_new (succ stat) path seen queue = (seen', queue')"
  shows "search_inv succ goal seen' queue'"
    and "processed seen' queue' = insert stat (processed seen ((stat, path) # queue))"
    and "set seen \<subseteq> set seen'"
proof -
  obtain new where seen': "set seen' = set seen \<union> set (succ stat)"
    and q': "queue' = queue @ map (\<lambda>n. (n, path @ [n])) new"
    and new: "set new = set (succ stat) - set seen" "distinct new"
    using push_new_queue [OF p] by blast
  have fq: "fst ` set queue' = fst ` set queue \<union> (set (succ stat) - set seen)"
    using new(1) by (auto simp: q' image_Un image_image)
  have mq: "map fst queue' = map fst queue @ new" by (simp add: q' comp_def)
  have st: "stat \<in> set seen" "stat \<notin> fst ` set queue" "distinct (map fst queue)" "fst ` set queue \<subseteq> set seen"
    using inv by (auto simp: search_inv_def)
  show pr: "processed seen' queue' = insert stat (processed seen ((stat, path) # queue))"
    using st by (auto simp: processed_def fq seen')
  have "distinct (map fst queue')" unfolding mq using st new by auto
  moreover have "fst ` set queue' \<subseteq> set seen'" using st by (auto simp: fq seen')
  moreover have "goal \<notin> processed seen' queue'" using inv ne by (simp add: pr search_inv_def)
  moreover have "\<forall>s \<in> processed seen' queue'. set (succ s) \<subseteq> set seen'"
    using inv by (auto simp: pr search_inv_def seen')
  ultimately show "search_inv succ goal seen' queue'" by (simp add: search_inv_def)
  show "set seen \<subseteq> set seen'" by (simp add: seen')
qed

lemma closed_not_reach:
  "transition_path s p t \<Longrightarrow> s \<in> S \<Longrightarrow> (\<forall>x \<in> S. set (transitions x) \<subseteq> S) \<Longrightarrow> t \<in> S"
  by (induction rule: transition_path.induct) blast+

lemma path_search_complete:
  assumes "succ_ok succ"
  shows "search_inv succ goal seen queue \<Longrightarrow> start \<in> set seen \<Longrightarrow> 12 \<le> fuel + card (processed seen queue)
    \<Longrightarrow> transition_path start p goal \<Longrightarrow> \<forall>(st, q) \<in> set queue. st = goal \<longrightarrow> q \<noteq> []
    \<Longrightarrow> path_search fuel succ goal seen queue \<noteq> []"
  using assms
proof (induction fuel succ goal seen queue rule: path_search.induct)
  case (1 succ goal seen queue)
  have "card (processed seen queue) \<le> card (set all_statuses)" by (intro card_mono) simp_all
  also have "\<dots> \<le> 11" using card_length [of all_statuses] by (simp add: all_statuses_def)
  finally show ?case using "1.prems"(3) by simp
next
  case (2 fuel succ goal seen)
  then have "\<forall>x \<in> set seen. set (transitions x) \<subseteq> set seen" "goal \<notin> set seen"
    by (auto simp: search_inv_def processed_def succ_ok_def)
  then show ?case using closed_not_reach "2.prems"(2,4) by blast
next
  case (3 fuel succ goal seen stat path queue)
  show ?case
  proof (cases "stat = goal")
    case True
    then show ?thesis using "3.prems"(5) by simp
  next
    case False
    obtain seen' queue' where p: "push_new (succ stat) path seen queue = (seen', queue')" by fastforce
    note step = search_inv_step [OF "3.prems"(1) False p]
    have "stat \<notin> processed seen ((stat, path) # queue)" by (simp add: processed_def)
    then have "card (processed seen' queue') = Suc (card (processed seen ((stat, path) # queue)))"
      unfolding step(2) by (intro card_insert_disjoint) (simp add: processed_def)
    then have fuel: "12 \<le> fuel + card (processed seen' queue')" using "3.prems"(3) by simp
    have st: "start \<in> set seen'" using step(3) "3.prems"(2) by blast
    have q: "\<forall>(st, q) \<in> set queue'. st = goal \<longrightarrow> q \<noteq> []"
      using push_new_queue [OF p] "3.prems"(5) by auto
    show ?thesis using "3.IH" [OF False p [symmetric] step(1) st fuel "3.prems"(4) q "3.prems"(6)] False p by simp
  qed
qed

lemma order_path_sound: "succ_ok succ \<Longrightarrow> order_path succ s g \<noteq> [] \<Longrightarrow> transition_path s (order_path succ s g) g"
  unfolding order_path_def by (rule path_search_sound) simp_all

lemma order_path_complete:
  assumes "succ_ok succ" "transition_path s p g" "s \<noteq> g"
  shows "order_path succ s g \<noteq> []"
  unfolding order_path_def
  by (rule path_search_complete [OF assms(1) _ _ _ assms(2)])
    (simp_all add: search_inv_def processed_def path_fuel_def assms(3))

lemma position_open_reachable: "\<not> is_terminal s \<Longrightarrow> \<exists>p. transition_path s p POSITION_OPEN"
proof -
  have f: "transition_path FILLED [POSITION_OPEN] POSITION_OPEN" by simp
  have p: "transition_path PENDING [FILLED, POSITION_OPEN] POSITION_OPEN" by simp
  have sb: "transition_path SUBMITTED [PENDING, FILLED, POSITION_OPEN] POSITION_OPEN" by simp
  have rc: "transition_path RISK_CHECK [SUBMITTED, PENDING, FILLED, POSITION_OPEN] POSITION_OPEN" by simp
  have v: "transition_path VALIDATING [RISK_CHECK, SUBMITTED, PENDING, FILLED, POSITION_OPEN] POSITION_OPEN" by simp
  have c: "transition_path CREATED [VALIDATING, RISK_CHECK, SUBMITTED, PENDING, FILLED, POSITION_OPEN] POSITION_OPEN" by simp
  have pf: "transition_path PARTIAL_FILL [FILLED, POSITION_OPEN] POSITION_OPEN" by simp
  show "\<not> is_terminal s \<Longrightarrow> ?thesis"
    by (cases s) (use f p sb rc v c pf in \<open>auto simp only: is_terminal_def TERMINAL_STATUSES_def list.set insert_iff\<close>)
qed

section \<open>Every row is accounted for\<close>
















lemma trail_set_broker_id [simp]: "trail (sw_db (set_broker_id r bid s)) oid = trail (sw_db s) oid"
  by (simp add: trail_def set_broker_id_def)











text \<open>
  C13. Whatever order Python iterates the transition sets in, the chain the sweeper finds is a legal
  life from the start to the goal, and it finds one exactly when the goal is another status that
  can be reached.
\<close>

theorem order_path_correct:
  assumes "\<forall>s. set (succ s) = set (transitions s)"
  shows "(order_path succ s g \<noteq> [] \<longrightarrow> transition_path s (order_path succ s g) g) \<and>
    (order_path succ s g = [] \<longleftrightarrow> s = g \<or> (\<nexists>p. transition_path s p g))"
proof -
  have succ: "succ_ok succ" using assms by (simp add: succ_ok_def)
  have "order_path succ s s = []" by (simp add: order_path_def path_fuel_def numeral_eq_Suc)
  then show ?thesis using order_path_sound [OF succ] order_path_complete [OF succ] by blast
qed

section \<open>Witnesses\<close>



theorem order_path_correct_witness:
  "order_path transitions RISK_CHECK FILLED = [SUBMITTED, PENDING, FILLED] \<and>
   transition_path RISK_CHECK [SUBMITTED, PENDING, FILLED] FILLED \<and> order_path transitions FILLED CANCELLED = []"
proof -
  have s: "\<forall>s. set (transitions s) = set (transitions s)" by simp
  have e: "order_path transitions RISK_CHECK FILLED = [SUBMITTED, PENDING, FILLED]"
    "order_path transitions FILLED CANCELLED = []" by code_simp+
  then show ?thesis using order_path_correct [OF s, of RISK_CHECK FILLED] by simp
qed

end
