(* ===== verification/TriggerRules.thy ===== *)
theory TriggerRules
  imports Pyfloat
begin

text \<open>
  The trigger rules every engine shares, \<open>app/trading/trigger_rules.py\<close>: touch, close, stop first,
  and N-minute candles built from one-minute bars with no look-ahead. A bar is its start, low,
  high and close; its start is read as UTC when naive.
\<close>

datatype trigger_side = ABOVE | BELOW
datatype trigger_error = DoesNotWaitForAPrice string | TimeframeTooSmall int

definition touched :: "pyfloat \<Rightarrow> trigger_side \<Rightarrow> pyfloat \<Rightarrow> pyfloat \<Rightarrow> bool" where
  "touched level side low high = (if side = ABOVE then level \<le> high else low \<le> level)"

definition closed_beyond :: "pyfloat \<Rightarrow> trigger_side \<Rightarrow> pyfloat \<Rightarrow> bool" where
  "closed_beyond level side cl = (if side = ABOVE then level \<le> cl else cl \<le> level)"

definition order_trigger_side :: "string \<Rightarrow> string \<Rightarrow> trigger_error + trigger_side" where
  "order_trigger_side order_side order_type =
     (let buy = (py_upper order_side = ''BUY''); kind = py_upper order_type
      in if kind = ''LIMIT'' then Inr (if buy then BELOW else ABOVE)
         else if kind = ''SL'' \<or> kind = ''SL-M'' then Inr (if buy then ABOVE else BELOW)
         else Inl (DoesNotWaitForAPrice order_type))"

definition STOP_FIRST :: "string list" where
  "STOP_FIRST = [''STOP'', ''TARGET'', ''LIMIT'']"

definition trigger_rank :: "string \<Rightarrow> nat" where
  "trigger_rank k = (if k = ''STOP'' then 0 else if k = ''TARGET'' then 1 else if k = ''LIMIT'' then 2
     else length STOP_FIRST)"

definition stop_first :: "string list \<Rightarrow> string list" where
  "stop_first kinds = sort_key trigger_rank kinds"

record minute_bar =
  bar_timestamp :: pydt
  bar_low :: pyfloat
  bar_high :: pyfloat
  bar_close :: pyfloat

record candle =
  c_start :: int
  c_end :: int
  c_close :: pyfloat
  c_low :: pyfloat
  c_high :: pyfloat

definition NSE_OPEN_MINUTE :: int where "NSE_OPEN_MINUTE = 9 * 60 + 15"

text \<open>Start of the N-minute candle that holds an instant, counted from the anchor of its IST day.\<close>

definition candle_start :: "int \<Rightarrow> int \<Rightarrow> int \<Rightarrow> int" where
  "candle_start timeframe anchor start =
     (let ist = start + IST_OFFSET; day = ist - ist mod US_DAY;
          minute = (ist mod US_DAY) div US_MINUTE - anchor;
          bucket = minute div timeframe
      in day + (anchor + bucket * timeframe) * US_MINUTE - IST_OFFSET)"

definition open_candle :: "int \<Rightarrow> int \<Rightarrow> minute_bar \<Rightarrow> candle" where
  "open_candle timeframe cs b = \<lparr>c_start = cs, c_end = cs + timeframe * US_MINUTE,
     c_close = bar_close b, c_low = bar_low b, c_high = bar_high b\<rparr>"

definition extend_candle :: "candle \<Rightarrow> minute_bar \<Rightarrow> candle" where
  "extend_candle c b = c\<lparr>c_close := bar_close b, c_low := min (c_low c) (bar_low b), c_high := max (c_high c) (bar_high b)\<rparr>"

text \<open>The loop of \<open>closed_candles\<close>; \<open>now\<close> ends it at the first bar that is still forming.\<close>

fun build_candles ::
  "int \<Rightarrow> int \<Rightarrow> int \<Rightarrow> candle list \<Rightarrow> candle option \<Rightarrow> minute_bar list \<Rightarrow> candle list" where
  "build_candles tf anchor now out current [] = (case current of None \<Rightarrow> out | Some c \<Rightarrow> out @ [c])"
| "build_candles tf anchor now out current (b # bars) =
     (let start = utc_instant (bar_timestamp b) in
      if now < start + US_MINUTE then (case current of None \<Rightarrow> out | Some c \<Rightarrow> out @ [c])
      else (let cs = candle_start tf anchor start in
        case current of
          None \<Rightarrow> build_candles tf anchor now out (Some (open_candle tf cs b)) bars
        | Some c \<Rightarrow>
            if c_start c \<noteq> cs then build_candles tf anchor now (out @ [c]) (Some (open_candle tf cs b)) bars
            else build_candles tf anchor now out (Some (extend_candle c b)) bars))"

definition closed_candles :: "minute_bar list \<Rightarrow> int \<Rightarrow> pydt \<Rightarrow> int \<Rightarrow> trigger_error + candle list" where
  "closed_candles bars timeframe now anchor =
     (if timeframe < 1 then Inl (TimeframeTooSmall timeframe)
      else Inr (filter (\<lambda>c. c_end c \<le> utc_instant now)
        (build_candles timeframe anchor (utc_instant now) [] None bars)))"

definition close_trigger ::
  "pyfloat \<Rightarrow> trigger_side \<Rightarrow> minute_bar list \<Rightarrow> int \<Rightarrow> pydt \<Rightarrow> pydt option \<Rightarrow> trigger_error + candle option" where
  "close_trigger level side bars timeframe now armed_at =
     (case closed_candles bars timeframe now NSE_OPEN_MINUTE of
        Inl e \<Rightarrow> Inl e
      | Inr cs \<Rightarrow> Inr (find (\<lambda>c. (case armed_at of None \<Rightarrow> True | Some a \<Rightarrow> \<not> c_end c \<le> utc_instant a)
                              \<and> closed_beyond level side (c_close c)) cs))"

section \<open>Touch and the order of triggers\<close>

lemma touched_mono: "touched l s lo hi \<Longrightarrow> lo' \<le> lo \<Longrightarrow> hi \<le> hi' \<Longrightarrow> touched l s lo' hi'"
  by (auto simp: touched_def split: if_splits)

lemma closed_beyond_touched: "lo \<le> cl \<Longrightarrow> cl \<le> hi \<Longrightarrow> closed_beyond l s cl \<Longrightarrow> touched l s lo hi"
  by (auto simp: touched_def closed_beyond_def split: if_splits)

lemma stop_first_perm: "set (stop_first ks) = set ks" "length (stop_first ks) = length ks"
  by (simp_all add: stop_first_def)

lemma stop_first_sorted: "sorted (map trigger_rank (stop_first ks))"
  by (simp add: stop_first_def)

section \<open>Candles\<close>

definition bar_done :: "int \<Rightarrow> minute_bar \<Rightarrow> bool" where
  "bar_done now b = (utc_instant (bar_timestamp b) + US_MINUTE \<le> now)"

definition bar_start :: "minute_bar \<Rightarrow> int" where
  "bar_start b = utc_instant (bar_timestamp b)"

text \<open>The bars a candle is made of, without the clock.\<close>

fun group_bars :: "int \<Rightarrow> int \<Rightarrow> candle list \<Rightarrow> candle option \<Rightarrow> minute_bar list \<Rightarrow> candle list" where
  "group_bars tf anchor out current [] = (case current of None \<Rightarrow> out | Some c \<Rightarrow> out @ [c])"
| "group_bars tf anchor out current (b # bars) =
     (let cs = candle_start tf anchor (bar_start b) in
        case current of
          None \<Rightarrow> group_bars tf anchor out (Some (open_candle tf cs b)) bars
        | Some c \<Rightarrow>
            if c_start c \<noteq> cs then group_bars tf anchor (out @ [c]) (Some (open_candle tf cs b)) bars
            else group_bars tf anchor out (Some (extend_candle c b)) bars)"

lemma build_group:
  "build_candles tf anchor now out cur bars = group_bars tf anchor out cur (takeWhile (bar_done now) bars)"
  by (induction bars arbitrary: out cur)
    (auto simp: bar_done_def bar_start_def Let_def not_less split: option.splits)

lemma extend_candle_start [simp]: "c_start (extend_candle c b) = c_start c" "c_end (extend_candle c b) = c_end c"
  by (simp_all add: extend_candle_def)

lemma open_candle_start [simp]: "c_start (open_candle tf cs b) = cs" "c_end (open_candle tf cs b) = cs + tf * US_MINUTE"
  by (simp_all add: open_candle_def)

lemma group_bars_out: "set out \<subseteq> set (group_bars tf anchor out cur bars)"
proof (induction bars arbitrary: out cur)
  case (Cons b bars)
  show ?case
  proof (cases cur)
    case None
    then show ?thesis using Cons.IH by (simp add: Let_def)
  next
    case (Some c)
    have "set out \<subseteq> set (out @ [c])" by auto
    then show ?thesis using Some Cons.IH [of out] Cons.IH [of "out @ [c]"] by (auto simp: Let_def)
  qed
qed (auto split: option.splits)

text \<open>
  A finished candle stays as it is when more bars arrive, provided none of them belongs to the
  candle that was being built when they came.
\<close>

lemma group_bars_append:
  assumes "c \<in> set (group_bars tf anchor out cur xs)"
    and "\<And>b. b \<in> set ys \<Longrightarrow> candle_start tf anchor (bar_start b) \<noteq> c_start c"
  shows "c \<in> set (group_bars tf anchor out cur (xs @ ys))"
  using assms
proof (induction xs arbitrary: out cur)
  case Nil
  show ?case
  proof (cases "c \<in> set out")
    case True
    then show ?thesis using group_bars_out by fastforce
  next
    case False
    with Nil have cur: "cur = Some c" by (auto split: option.splits)
    show ?thesis
    proof (cases ys)
      case Nil
      then show ?thesis using cur by simp
    next
      case (Cons b bs)
      then have "c_start c \<noteq> candle_start tf anchor (bar_start b)" using assms(2) by fastforce
      then have "group_bars tf anchor out cur ([] @ ys) = group_bars tf anchor (out @ [c])
          (Some (open_candle tf (candle_start tf anchor (bar_start b)) b)) bs"
        by (simp add: Cons cur Let_def)
      then show ?thesis using group_bars_out [of "out @ [c]"] by fastforce
    qed
  qed
next
  case (Cons b xs)
  then show ?case by (auto simp: Let_def split: option.splits if_splits)
qed

definition spans :: "int \<Rightarrow> candle \<Rightarrow> bool" where
  "spans tf c = (c_end c = c_start c + tf * US_MINUTE)"

lemma spans_candle [simp]: "spans tf (open_candle tf cs b)" "spans tf (extend_candle c b) = spans tf c"
  by (simp_all add: spans_def)

lemma group_bars_end:
  "list_all (spans tf) out \<Longrightarrow> pred_option (spans tf) cur \<Longrightarrow> list_all (spans tf) (group_bars tf anchor out cur bars)"
proof (induction bars arbitrary: out cur)
  case (Cons b bars)
  then show ?case by (cases cur) (simp_all add: Let_def)
qed (auto split: option.splits)

lemma candle_start_bounds:
  assumes "1 \<le> tf"
  shows "candle_start tf anchor t \<le> t" "t < candle_start tf anchor t + tf * US_MINUTE"
proof -
  define ist where "ist = t + IST_OFFSET"
  define d where "d = ist mod US_DAY"
  define m where "m = d div US_MINUTE"
  have d: "m * US_MINUTE \<le> d" "d < m * US_MINUTE + US_MINUTE"
    using int_div_bounds [of US_MINUTE d] by (simp_all add: m_def US_MINUTE_def)
  define k where "k = (m - anchor) div tf"
  have k: "k * tf \<le> m - anchor" "m - anchor < k * tf + tf"
    using int_div_bounds [of tf "m - anchor"] assms by (simp_all add: k_def)
  have cs: "candle_start tf anchor t = t - d + (anchor + k * tf) * US_MINUTE"
    by (simp add: candle_start_def Let_def ist_def d_def m_def k_def)
  have "(anchor + k * tf) * US_MINUTE \<le> m * US_MINUTE" using k(1) by (intro mult_right_mono) (auto simp: US_MINUTE_def)
  then show "candle_start tf anchor t \<le> t" using d(1) cs by linarith
  have "(m + 1) * US_MINUTE \<le> (anchor + k * tf + tf) * US_MINUTE"
    using k(2) by (intro mult_right_mono) (auto simp: US_MINUTE_def)
  then show "t < candle_start tf anchor t + tf * US_MINUTE"
    using d(2) cs by (simp add: algebra_simps)
qed

lemma candle_start_minute: "US_MINUTE dvd candle_start tf anchor t"
proof -
  have "US_MINUTE dvd US_DAY" "US_MINUTE dvd IST_OFFSET" by (simp_all add: US_MINUTE_def US_DAY_def IST_OFFSET_def)
  moreover have "(t + IST_OFFSET) - (t + IST_OFFSET) mod US_DAY = US_DAY * ((t + IST_OFFSET) div US_DAY)"
    by (simp add: minus_mod_eq_mult_div)
  ultimately show ?thesis unfolding candle_start_def Let_def by simp
qed

section \<open>Properties\<close>

text \<open>
  C14. No look-ahead and no repaint: bars that are still forming at \<open>now\<close> never influence the closed
  candles, every candle returned has ended by \<open>now\<close>, and a candle returned once is returned again,
  with the same values, at every later time and after any number of later bars (bars start on whole
  minutes).
\<close>

theorem closed_candle_never_repaints:
  assumes "closed_candles (xs @ ys) tf now anchor = Inr cs"
    and "\<forall>b \<in> set xs. bar_done (utc_instant now) b" "\<forall>b \<in> set ys. \<not> bar_done (utc_instant now) b"
    and "\<forall>b \<in> set ys. US_MINUTE dvd bar_start b"
    and "utc_instant now \<le> utc_instant later" "closed_candles (xs @ ys) tf later anchor = Inr cs'"
  shows "closed_candles xs tf now anchor = Inr cs \<and> (\<forall>c \<in> set cs. c_end c \<le> utc_instant now) \<and> set cs \<subseteq> set cs'"
proof -
  let ?n = "utc_instant now" and ?l = "utc_instant later"
  have tf: "1 \<le> tf" using assms(1) by (auto simp: closed_candles_def split: if_splits)
  have now_bars: "takeWhile (bar_done ?n) (xs @ ys) = xs" "takeWhile (bar_done ?n) xs = xs"
    using assms(2,3) by (cases ys; simp)+
  then have same: "closed_candles xs tf now anchor = Inr cs"
    using assms(1) by (simp only: closed_candles_def build_group now_bars)
  have cs: "cs = filter (\<lambda>c. c_end c \<le> ?n) (group_bars tf anchor [] None xs)"
    using assms(1) tf now_bars by (simp add: closed_candles_def build_group)
  let ?zs = "takeWhile (bar_done ?l) ys"
  have done_later: "\<forall>b \<in> set xs. bar_done ?l b" using assms(2,5) by (auto simp: bar_done_def)
  then have later_bars: "takeWhile (bar_done ?l) (xs @ ys) = xs @ ?zs" by (simp add: takeWhile_append2)
  have cs': "cs' = filter (\<lambda>c. c_end c \<le> ?l) (group_bars tf anchor [] None (xs @ ?zs))"
    using assms(6) tf later_bars by (simp add: closed_candles_def build_group)
  have "c \<in> set cs'" if c: "c \<in> set cs" for c
  proof -
    have g: "c \<in> set (group_bars tf anchor [] None xs)" "c_end c \<le> ?n" using c cs by auto
    have e: "c_end c = c_start c + tf * US_MINUTE"
      using g(1) group_bars_end [of tf "[]" None anchor xs] by (auto simp: list_all_iff spans_def)
    have "candle_start tf anchor (bar_start b) \<noteq> c_start c" if b: "b \<in> set ?zs" for b
    proof
      assume s: "candle_start tf anchor (bar_start b) = c_start c"
      have yb: "b \<in> set ys" using b by (auto dest: set_takeWhileD)
      have lt: "bar_start b < c_end c" using candle_start_bounds(2) [OF tf, of "bar_start b" anchor] s e by simp
      have "US_MINUTE dvd c_end c" unfolding e s [symmetric] using candle_start_minute by simp
      then have "US_MINUTE dvd c_end c - bar_start b" using assms(4) yb by (intro dvd_diff) auto
      then have "US_MINUTE \<le> c_end c - bar_start b" using lt by (intro zdvd_imp_le) auto
      moreover have "?n < bar_start b + US_MINUTE" using assms(3) yb by (auto simp: bar_done_def bar_start_def)
      ultimately show False using g(2) by linarith
    qed
    then have "c \<in> set (group_bars tf anchor [] None (xs @ ?zs))" by (rule group_bars_append [OF g(1)])
    then show ?thesis using g(2) assms(5) by (simp add: cs')
  qed
  then show ?thesis using same cs by auto
qed

definition demo_bar :: "int \<Rightarrow> int \<Rightarrow> minute_bar" where
  "demo_bar m p = \<lparr>bar_timestamp = Aware (m * US_MINUTE), bar_low = of_int p, bar_high = of_int p + 1, bar_close = of_int p\<rparr>"

theorem closed_candle_never_repaints_witness:
  "closed_candles [demo_bar 225 10, demo_bar 226 12, demo_bar 227 11] 2 (Aware (227 * US_MINUTE)) NSE_OPEN_MINUTE
     = Inr [\<lparr>c_start = 225 * US_MINUTE, c_end = 227 * US_MINUTE, c_close = 12, c_low = 10, c_high = 13\<rparr>] \<and>
   (\<exists>cs'. closed_candles [demo_bar 225 10, demo_bar 226 12, demo_bar 227 11] 2 (Aware (229 * US_MINUTE)) NSE_OPEN_MINUTE = Inr cs' \<and>
     \<lparr>c_start = 225 * US_MINUTE, c_end = 227 * US_MINUTE, c_close = 12, c_low = 10, c_high = 13\<rparr> \<in> set cs')"
proof -
  have a: "closed_candles ([demo_bar 225 10, demo_bar 226 12] @ [demo_bar 227 11]) 2 (Aware (227 * US_MINUTE)) NSE_OPEN_MINUTE
     = Inr [\<lparr>c_start = 225 * US_MINUTE, c_end = 227 * US_MINUTE, c_close = 12, c_low = 10, c_high = 13\<rparr>]"
    by code_simp
  obtain cs' where b: "closed_candles ([demo_bar 225 10, demo_bar 226 12] @ [demo_bar 227 11]) 2 (Aware (229 * US_MINUTE)) NSE_OPEN_MINUTE = Inr cs'"
    by (simp add: closed_candles_def)
  have "set [\<lparr>c_start = 225 * US_MINUTE, c_end = 227 * US_MINUTE, c_close = 12, c_low = 10, c_high = 13\<rparr>] \<subseteq> set cs'"
    using closed_candle_never_repaints [OF a _ _ _ _ b]
    by (simp add: bar_done_def bar_start_def demo_bar_def US_MINUTE_def)
  then show ?thesis using a b by simp
qed

end
