(* ===== verification/ExitRules.thy ===== *)
theory ExitRules
  imports TriggerRules
begin

text \<open>
  Exit decisions of the backtest engine and the position monitor: the priority of stop and targets
  (\<open>app/trading/exit_logic.py\<close>) and the dynamic exits (\<open>app/trading/exit_rules.py\<close>: trailing stop,
  break-even, time exits). A reason string is kept as the source writes it.
\<close>

section \<open>Stop, target 2, target 1\<close>

definition exit_fill :: "bool \<Rightarrow> pyfloat option \<Rightarrow> pyfloat \<Rightarrow> bool \<Rightarrow> pyfloat" where
  "exit_fill is_long open_price level stop =
     (case open_price of None \<Rightarrow> level
      | Some op \<Rightarrow>
          (let gapped = (if is_long then (if stop then op \<le> level else level \<le> op)
                         else (if stop then level \<le> op else op \<le> level))
           in if gapped then op else level))"

definition opt_touched :: "pyfloat option \<Rightarrow> trigger_side \<Rightarrow> pyfloat \<Rightarrow> pyfloat \<Rightarrow> bool" where
  "opt_touched level side low high = (case level of None \<Rightarrow> False | Some l \<Rightarrow> touched l side low high)"

definition determine_exit_price ::
  "string \<Rightarrow> pyfloat \<Rightarrow> pyfloat option \<Rightarrow> pyfloat option \<Rightarrow> pyfloat \<Rightarrow> pyfloat \<Rightarrow> pyfloat option
   \<Rightarrow> (string \<times> pyfloat) option" where
  "determine_exit_price direction stop_loss target1 target2 low high open_price =
     (let is_long = (direction = ''LONG'');
          stop_side = (if is_long then BELOW else ABOVE); target_side = (if is_long then ABOVE else BELOW)
      in if (is_long \<or> 0 < stop_loss) \<and> touched stop_loss stop_side low high
         then Some (''Stop Loss'', exit_fill is_long open_price stop_loss True)
         else if opt_touched target2 target_side low high
         then Some (''Target 2'', exit_fill is_long open_price (the target2) False)
         else if opt_touched target1 target_side low high
         then Some (''Target 1'', exit_fill is_long open_price (the target1) False)
         else None)"

record exit_trade =
  tr_direction :: string
  tr_stop_loss :: pyfloat
  tr_target1 :: "pyfloat option"
  tr_target2 :: "pyfloat option"
  tr_instrument_kind :: "string option"
  tr_underlying_direction :: "string option"
  tr_underlying_stop_loss :: "pyfloat option"
  tr_underlying_target1 :: "pyfloat option"
  tr_underlying_target2 :: "pyfloat option"

definition check_exit :: "exit_trade \<Rightarrow> pyfloat \<Rightarrow> (string \<times> pyfloat) option" where
  "check_exit t price = determine_exit_price (tr_direction t) (tr_stop_loss t) (tr_target1 t) (tr_target2 t) price price None"

definition underlying_exit ::
  "string \<Rightarrow> pyfloat option \<Rightarrow> pyfloat option \<Rightarrow> pyfloat option \<Rightarrow> pyfloat \<Rightarrow> string option" where
  "underlying_exit direction stop_loss target1 target2 price =
     (let long = (direction = ''LONG'');
          stop_side = (if long then BELOW else ABOVE); target_side = (if long then ABOVE else BELOW)
      in if stop_loss \<noteq> None \<and> (long \<or> 0 < the stop_loss) \<and> touched (the stop_loss) stop_side price price
         then Some ''Stop Loss''
         else if opt_touched target2 target_side price price then Some ''Target 2''
         else if opt_touched target1 target_side price price then Some ''Target 1'' else None)"

definition check_contract_exit :: "exit_trade \<Rightarrow> pyfloat \<Rightarrow> pyfloat option \<Rightarrow> (string \<times> pyfloat) option" where
  "check_contract_exit t contract_price underlying_price =
     (if py_upper (str_or (tr_instrument_kind t) ''UNDERLYING'') \<noteq> ''OPTION'' then check_exit t contract_price
      else (let bought = (tr_direction t = ''LONG'') in
        if (bought \<and> contract_price \<le> tr_stop_loss t) \<or>
           (\<not> bought \<and> 0 < tr_stop_loss t \<and> tr_stop_loss t \<le> contract_price)
        then Some (if bought then ''Premium floor'' else ''Premium ceiling'', contract_price)
        else (case underlying_price of None \<Rightarrow> None
          | Some up \<Rightarrow>
              if \<not> truthy (tr_underlying_direction t) then None
              else (case underlying_exit (the (tr_underlying_direction t)) (tr_underlying_stop_loss t)
                       (tr_underlying_target1 t) (tr_underlying_target2 t) up of
                      None \<Rightarrow> None
                    | Some hit \<Rightarrow> Some (hit @ '' (underlying)'', contract_price)))))"

section \<open>Dynamic exits\<close>

record exit_rules =
  trailing_stop_pct :: "pyfloat option"
  break_even_at_r :: "pyfloat option"
  time_exit_minutes :: "int option"
  time_exit_at :: "string option"

definition no_exit_rules :: exit_rules where
  "no_exit_rules = \<lparr>trailing_stop_pct = None, break_even_at_r = None, time_exit_minutes = None, time_exit_at = None\<rparr>"

definition rules_active :: "exit_rules \<Rightarrow> bool" where
  "rules_active r = (trailing_stop_pct r \<noteq> None \<or> break_even_at_r r \<noteq> None \<or> time_exit_minutes r \<noteq> None \<or> time_exit_at r \<noteq> None)"

text \<open>\<open>dtime(int(hh), int(mm))\<close> as minutes after midnight; \<open>None\<close> for unset or malformed text.\<close>

definition exit_time_of_day :: "exit_rules \<Rightarrow> int option" where
  "exit_time_of_day r =
     (if \<not> truthy (time_exit_at r) then None
      else (case split_on (CHR '':'') (the (time_exit_at r)) of
              [hh, mm] \<Rightarrow>
                (case (py_int_of hh, py_int_of mm) of
                   (Some h, Some m) \<Rightarrow> if 0 \<le> h \<and> h < 24 \<and> 0 \<le> m \<and> m < 60 then Some (60 * h + m) else None
                 | _ \<Rightarrow> None)
            | _ \<Rightarrow> None))"

datatype time_reason = TimeExitMinutes int | TimeExitAt string
datatype stop_reason = BreakEven | Trailing

record exit_update =
  up_stop_loss :: pyfloat
  up_best_price :: pyfloat
  up_stop_changed :: bool
  up_stop_reason :: "stop_reason option"
  up_time_exit :: "time_reason option"

text \<open>\<open>better\<close>: the candidate is on the tight side of the stop, for the trade's direction.\<close>

definition tighter :: "bool \<Rightarrow> pyfloat \<Rightarrow> pyfloat \<Rightarrow> bool" where
  "tighter is_long candidate stop = (if is_long then stop < candidate else candidate < stop)"

definition best_so_far :: "bool \<Rightarrow> pyfloat option \<Rightarrow> pyfloat \<Rightarrow> pyfloat \<Rightarrow> pyfloat \<Rightarrow> pyfloat" where
  "best_so_far is_long best_price entry high low =
     (let best = (case best_price of None \<Rightarrow> entry | Some b \<Rightarrow> b) in if is_long then max best high else min best low)"

definition break_even_step ::
  "exit_rules \<Rightarrow> bool \<Rightarrow> pyfloat \<Rightarrow> pyfloat \<Rightarrow> pyfloat \<Rightarrow> pyfloat \<times> stop_reason option \<Rightarrow> pyfloat \<times> stop_reason option" where
  "break_even_step rules is_long entry initial_stop best sr =
     (let risk = \<bar>fsub entry initial_stop\<bar> in
      case break_even_at_r rules of None \<Rightarrow> sr
      | Some r \<Rightarrow>
          if 0 < risk then
            (let moved = (if is_long then fsub best entry else fsub entry best)
             in if fmul r risk \<le> moved \<and> tighter is_long entry (fst sr) then (entry, Some BreakEven) else sr)
          else sr)"

definition trail_candidate :: "bool \<Rightarrow> pyfloat \<Rightarrow> pyfloat \<Rightarrow> pyfloat" where
  "trail_candidate is_long trail best =
     (let pct = fdiv trail 100
      in if is_long then py_round2 (fmul best (fsub 1 pct)) else py_round2 (fmul best (fadd 1 pct)))"

definition trailing_step ::
  "exit_rules \<Rightarrow> bool \<Rightarrow> pyfloat \<Rightarrow> pyfloat \<Rightarrow> pyfloat \<times> stop_reason option \<Rightarrow> pyfloat \<times> stop_reason option" where
  "trailing_step rules is_long entry best sr =
     (case trailing_stop_pct rules of None \<Rightarrow> sr
      | Some trail \<Rightarrow>
          if 0 < trail then
            (let candidate = trail_candidate is_long trail best;
                 in_profit = (if is_long then entry < best else best < entry)
             in if in_profit \<and> tighter is_long candidate (fst sr) then (candidate, Some Trailing) else sr)
          else sr)"

text \<open>
  A time in minutes too large for a \<open>timedelta\<close> (more than 999999999 days) raises inside the
  \<open>try\<close>, and the rule is skipped.
\<close>

definition minutes_exit :: "exit_rules \<Rightarrow> pydt \<Rightarrow> pydt \<Rightarrow> time_reason option" where
  "minutes_exit rules entry_time now =
     (case time_exit_minutes rules of None \<Rightarrow> None
      | Some m \<Rightarrow>
          if 0 < m \<and> m div 1440 \<le> 999999999 \<and> m * US_MINUTE \<le> ist_instant now - ist_instant entry_time
          then Some (TimeExitMinutes m) else None)"

definition clock_exit :: "exit_rules \<Rightarrow> pydt \<Rightarrow> time_reason option" where
  "clock_exit rules now =
     (case exit_time_of_day rules of None \<Rightarrow> None
      | Some cutoff \<Rightarrow>
          if cutoff * US_MINUTE \<le> (ist_instant now + IST_OFFSET) mod US_DAY
          then Some (TimeExitAt (the (time_exit_at rules))) else None)"

definition apply_exit_rules ::
  "exit_rules \<Rightarrow> string \<Rightarrow> pyfloat \<Rightarrow> pyfloat \<Rightarrow> pyfloat \<Rightarrow> pyfloat option \<Rightarrow> pyfloat \<Rightarrow> pyfloat \<Rightarrow> pydt \<Rightarrow> pydt \<Rightarrow> exit_update" where
  "apply_exit_rules rules direction entry initial_stop current_stop best_price high low entry_time now =
     (let is_long = (direction = ''LONG'');
          best = best_so_far is_long best_price entry high low;
          sr = trailing_step rules is_long entry best
                 (break_even_step rules is_long entry initial_stop best (current_stop, None));
          t = (case minutes_exit rules entry_time now of Some x \<Rightarrow> Some x | None \<Rightarrow> clock_exit rules now)
      in \<lparr>up_stop_loss = py_round2 (fst sr), up_best_price = py_round2 best,
          up_stop_changed = (fst sr \<noteq> current_stop), up_stop_reason = snd sr, up_time_exit = t\<rparr>)"

section \<open>Facts\<close>






lemma py_round2_tiny: "0 \<le> x \<Longrightarrow> x < 5 / 1000 \<Longrightarrow> py_round2 x = 0"
proof -
  assume x: "0 \<le> x" "x < 5 / 1000"
  then have "rhe (x * 100) = 0" by (intro rhe_unique) simp
  then show ?thesis by (simp add: py_round2_def)
qed

text \<open>
  Below half a paisa the two-decimal rounding wipes the stop: for a long entered at a price
  between 0 and 0.005 with a real stop under it, a break-even that fires reports a changed stop, and
  that stop is 0, a level no price ever reaches.
\<close>

theorem break_even_wipes_tiny_stop:
  assumes "0 < initial_stop" "initial_stop < entry" "entry < 5 / 1000"
    and "rules = no_exit_rules\<lparr>break_even_at_r := Some r\<rparr>"
    and "0 < fsub entry initial_stop" "fmul r (fsub entry initial_stop) \<le> fsub (max entry high) entry"
    and "u = apply_exit_rules rules ''LONG'' entry initial_stop initial_stop None high low entry_time now"
  shows "up_stop_changed u \<and> up_stop_loss u = 0 \<and> up_stop_loss u < initial_stop"
proof -
  have "break_even_step rules True entry initial_stop (max entry high) (initial_stop, None) = (entry, Some BreakEven)"
    using assms by (simp add: break_even_step_def no_exit_rules_def tighter_def Let_def)
  then show ?thesis
    using assms py_round2_tiny [of entry]
    by (simp add: apply_exit_rules_def best_so_far_def trailing_step_def no_exit_rules_def Let_def)
qed

text \<open>
  The one exit decision of backtest and live: the stop is judged first, then target 2, then
  target 1; a missing target is never hit, a short's stop of 0 is no stop, and a fill lies between
  the level and the bar's open.
\<close>

theorem exit_priority:
  assumes "determine_exit_price d stop t1 t2 low high op = Some (why, price)"
  shows "(why = ''Stop Loss'' \<longleftrightarrow> (d = ''LONG'' \<or> 0 < stop) \<and> touched stop (if d = ''LONG'' then BELOW else ABOVE) low high) \<and>
    (why = ''Target 1'' \<longrightarrow> \<not> opt_touched t2 (if d = ''LONG'' then ABOVE else BELOW) low high \<and> t1 \<noteq> None) \<and>
    (\<exists>level. (why = ''Stop Loss'' \<and> level = stop \<or> why = ''Target 2'' \<and> t2 = Some level \<or> why = ''Target 1'' \<and> t1 = Some level) \<and>
       (op = None \<longrightarrow> price = level) \<and>
       (\<forall>o'. op = Some o' \<longrightarrow> (if (d = ''LONG'') = (why = ''Stop Loss'') then price = min level o' else price = max level o')))"
proof -
  let ?l = "d = ''LONG''"
  have f: "exit_fill l None x s = x" "exit_fill l (Some q) x s = (if l = s then min x q else max x q)" for l q x s
    by (auto simp: exit_fill_def)
  consider (s) "(?l \<or> 0 < stop) \<and> touched stop (if ?l then BELOW else ABOVE) low high"
      "why = ''Stop Loss''" "price = exit_fill ?l op stop True"
    | (t2) x where "\<not> ((?l \<or> 0 < stop) \<and> touched stop (if ?l then BELOW else ABOVE) low high)"
      "why = ''Target 2''" "t2 = Some x" "price = exit_fill ?l op x False"
    | (t1) x where "\<not> ((?l \<or> 0 < stop) \<and> touched stop (if ?l then BELOW else ABOVE) low high)"
      "\<not> opt_touched t2 (if ?l then ABOVE else BELOW) low high" "why = ''Target 1''" "t1 = Some x" "price = exit_fill ?l op x False"
    using assms by (auto simp: determine_exit_price_def opt_touched_def Let_def split: if_splits option.splits)
  then show ?thesis
    by cases (cases op; auto simp: f)+
qed


theorem break_even_wipes_tiny_stop_witness:
  "up_stop_loss (apply_exit_rules (no_exit_rules\<lparr>break_even_at_r := Some 1\<rparr>) ''LONG'' (1/256) (1/512) (1/512)
     None (3/256) (1/256) (Aware 0) (Aware 0)) = 0"
proof -
  have a: "0 < fsub (1/256) (1/512)" "fmul 1 (fsub (1/256) (1/512)) \<le> fsub (max (1/256) (3/256)) (1/256)"
    by code_simp+
  show ?thesis using break_even_wipes_tiny_stop [OF _ _ _ refl a refl, of "1/256" "Aware 0" "Aware 0"] by simp
qed

theorem exit_priority_witness:
  "determine_exit_price ''LONG'' 100 (Some 110) (Some 120) 95 125 (Some 98) = Some (''Stop Loss'', 98) \<and>
   min 100 98 = (98 :: pyfloat)"
proof -
  have a: "determine_exit_price ''LONG'' 100 (Some 110) (Some 120) 95 125 (Some 98) = Some (''Stop Loss'', 98)" by code_simp
  show ?thesis using a exit_priority [OF a] by simp
qed

end
