(* ===== verification/RowStore.thy ===== *)
theory RowStore
  imports Prelude
begin

text \<open>
  A database table as the list of its rows in primary-key order, the conditional \<open>UPDATE ... WHERE\<close>
  with its row count, and the contract every writer of a table keeps: rows are never removed, and
  each row only moves along the relation its component allows. The components interpret the
  contract on their own rows.
\<close>

definition update_where :: "('r \<Rightarrow> bool) \<Rightarrow> ('r \<Rightarrow> 'r) \<Rightarrow> 'r list \<Rightarrow> 'r list \<times> nat" where
  "update_where P f t = (map (\<lambda>r. if P r then f r else r) t, length (filter P t))"

definition row_with :: "('r \<Rightarrow> int) \<Rightarrow> 'r list \<Rightarrow> int \<Rightarrow> 'r option" where
  "row_with ident t i = find (\<lambda>r. ident r = i) t"

definition table_evolves :: "('r \<Rightarrow> 'r \<Rightarrow> bool) \<Rightarrow> 'r list \<Rightarrow> 'r list \<Rightarrow> bool" where
  "table_evolves ev t t' = (\<exists>new. \<exists>u. t' = u @ new \<and> list_all2 ev t u)"

lemma update_where_count: "snd (update_where P f t) = 0 \<longleftrightarrow> (\<forall>r \<in> set t. \<not> P r)"
  by (simp add: update_where_def filter_empty_conv)

lemma update_where_none: "\<forall>r \<in> set t. \<not> P r \<Longrightarrow> fst (update_where P f t) = t"
  by (induction t) (auto simp: update_where_def)

lemma set_update_where: "set (fst (update_where P f t)) = (\<lambda>r. if P r then f r else r) ` set t"
  by (simp add: update_where_def)

lemma row_with_Some: "row_with ident t i = Some r \<Longrightarrow> r \<in> set t \<and> ident r = i"
  by (auto simp: row_with_def find_Some_iff)

lemma row_with_None: "row_with ident t i = None \<longleftrightarrow> (\<forall>r \<in> set t. ident r \<noteq> i)"
  by (auto simp: row_with_def find_None_iff)

lemma row_with_distinct: "distinct (map ident t) \<Longrightarrow> r \<in> set t \<Longrightarrow> row_with ident t (ident r) = Some r"
proof (induction t)
  case (Cons a t)
  then show ?case by (auto simp: row_with_def image_iff)
qed simp

locale row_contract =
  fixes ident :: "'r \<Rightarrow> int" and evolves :: "'r \<Rightarrow> 'r \<Rightarrow> bool"
  assumes ev_refl: "evolves r r"
    and ev_trans: "evolves a b \<Longrightarrow> evolves b c \<Longrightarrow> evolves a c"
    and ev_ident: "evolves a b \<Longrightarrow> ident b = ident a"
begin

lemma all2_refl: "list_all2 evolves t t"
  by (simp add: list.rel_refl ev_refl)

lemma table_refl: "table_evolves evolves t t"
  unfolding table_evolves_def using all2_refl [of t] by (metis append_Nil2)

lemma table_append: "table_evolves evolves t (t @ [r])"
  unfolding table_evolves_def using all2_refl [of t] by blast

lemma table_trans:
  assumes "table_evolves evolves a b" "table_evolves evolves b c"
  shows "table_evolves evolves a c"
proof -
  obtain n u where b: "b = u @ n" "list_all2 evolves a u" using assms(1) by (auto simp: table_evolves_def)
  obtain m v where c: "c = v @ m" "list_all2 evolves b v" using assms(2) by (auto simp: table_evolves_def)
  obtain v1 v2 where v: "v = v1 @ v2" "list_all2 evolves u v1"
    using c(2) b(1) by (auto simp: list_all2_append1)
  have "list_all2 evolves a v1" by (rule list_all2_trans [OF _ b(2) v(2)]) (rule ev_trans)
  then show ?thesis unfolding table_evolves_def c(1) v(1) by (metis append.assoc)
qed

lemma table_update:
  assumes "\<And>r. P r \<Longrightarrow> evolves r (f r)"
  shows "table_evolves evolves t (fst (update_where P f t))"
proof -
  have "list_all2 evolves t (map (\<lambda>r. if P r then f r else r) t)"
    using assms ev_refl by (simp add: list_all2_map2 list.rel_refl)
  then show ?thesis unfolding table_evolves_def update_where_def by (metis append_Nil2 fst_conv)
qed

lemma all2_row:
  "list_all2 evolves t u \<Longrightarrow> row_with ident t i = Some r \<Longrightarrow> \<exists>r'. row_with ident (u @ n) i = Some r' \<and> evolves r r'"
proof (induction rule: list_all2_induct)
  case (Cons x xs y ys)
  then show ?case using ev_ident [of x y] by (auto simp: row_with_def)
qed (simp add: row_with_def)

lemma table_row:
  assumes "table_evolves evolves t t'" "row_with ident t i = Some r"
  shows "\<exists>r'. row_with ident t' i = Some r' \<and> evolves r r'"
  using assms all2_row unfolding table_evolves_def by blast

lemma update_idents:
  assumes "\<And>r. P r \<Longrightarrow> ident (f r) = ident r"
  shows "map ident (fst (update_where P f t)) = map ident t"
  using assms by (simp add: update_where_def)

end

end
