(* ===== verification/Policy.thy ===== *)
theory Policy
  imports Pyfloat
begin

text \<open>
  The routing policy of the execution core, \<open>app/execution/core/policy.py\<close>: which route an intent
  takes and why, and the check of a proposal's levels. A level problem is kept as data; the code
  words it for a person.
\<close>

datatype route = ROUTE_NOTIFY | ROUTE_PROPOSE | ROUTE_PAPER | ROUTE_REFUSE

definition NOTIFY :: string where "NOTIFY = ''NOTIFY''"
definition ONE_CLICK :: string where "ONE_CLICK = ''ONE_CLICK''"
definition AUTO_PAPER :: string where "AUTO_PAPER = ''AUTO_PAPER''"
definition AUTO_LIVE :: string where "AUTO_LIVE = ''AUTO_LIVE''"

definition MODES :: "string list" where
  "MODES = [NOTIFY, ONE_CLICK, AUTO_PAPER, AUTO_LIVE]"

lemmas mode_names = NOTIFY_def ONE_CLICK_def AUTO_PAPER_def AUTO_LIVE_def

definition WHY_LIVE :: string where
  "WHY_LIVE = ''Auto LIVE is not available: ATP places no broker API order in N1 (PAPER only)''"
definition WHY_LIVE_LOCKED :: string where
  "WHY_LIVE_LOCKED = ''Auto LIVE refused: the Phase 0 PAPER-only lock (phase0_paper_only) is on''"
definition WHY_AUTO_APPROVAL :: string where
  "WHY_AUTO_APPROVAL = ''Approval-only mode is on: Auto PAPER becomes a proposal a person approves''"
definition WHY_AUTO_OFF :: string where
  "WHY_AUTO_OFF = ''Auto PAPER is not enabled for this organisation: a proposal instead''"

record policy_inputs =
  pi_mode :: string
  pi_approval_required :: bool
  pi_phase0_locked :: bool
  pi_auto_paper_enabled :: bool

definition clean_mode :: "string \<Rightarrow> string" where
  "clean_mode m = py_upper (py_strip m)"

definition decide :: "policy_inputs \<Rightarrow> route \<times> string" where
  "decide i =
     (let mode = clean_mode (pi_mode i) in
      if mode \<notin> set MODES then (ROUTE_REFUSE, ''Unknown mode '' @ [CHR 0x27] @ pi_mode i @ [CHR 0x27])
      else if mode = AUTO_LIVE then (ROUTE_REFUSE, if pi_phase0_locked i then WHY_LIVE_LOCKED else WHY_LIVE)
      else if mode = NOTIFY then (ROUTE_NOTIFY, ''Notify only'')
      else if mode = ONE_CLICK then (ROUTE_PROPOSE, ''One-click: a PAPER entry proposal'')
      else if pi_approval_required i then (ROUTE_PROPOSE, WHY_AUTO_APPROVAL)
      else if \<not> pi_auto_paper_enabled i then (ROUTE_PROPOSE, WHY_AUTO_OFF)
      else (ROUTE_PAPER, ''Auto PAPER''))"

datatype level_problem =
    BadDirection string
  | NoEntryPrice
  | NoStopLoss
  | StopOnWrongSide pyfloat pyfloat string
  | TargetOnWrongSide pyfloat pyfloat string

definition level_problems ::
  "string \<Rightarrow> pyfloat option \<Rightarrow> pyfloat option \<Rightarrow> pyfloat option \<Rightarrow> bool \<Rightarrow> level_problem list" where
  "level_problems direction entry stop_loss target1 need_stop =
     (let side = py_upper direction in
      if side \<noteq> ''LONG'' \<and> side \<noteq> ''SHORT'' then [BadDirection direction]
      else case entry of
        None \<Rightarrow> [NoEntryPrice]
      | Some e \<Rightarrow>
        (if \<not> 0 < e then [NoEntryPrice]
         else
          (let is_long = (side = ''LONG'') in
           (case stop_loss of
              None \<Rightarrow> (if need_stop then [NoStopLoss] else [])
            | Some s \<Rightarrow> (if (is_long \<and> \<not> s < e) \<or> (\<not> is_long \<and> \<not> e < s)
                         then [StopOnWrongSide s e (py_lower side)] else [])) @
           (case target1 of
              None \<Rightarrow> []
            | Some t \<Rightarrow> (if (is_long \<and> \<not> e < t) \<or> (\<not> is_long \<and> \<not> t < e)
                         then [TargetOnWrongSide t e (py_lower side)] else [])))))"

section \<open>The table of the policy\<close>

lemma decide_paper [queue_rules]:
  "fst (decide i) = ROUTE_PAPER \<longleftrightarrow>
     clean_mode (pi_mode i) = AUTO_PAPER \<and> \<not> pi_approval_required i \<and> pi_auto_paper_enabled i"
  by (auto simp: decide_def Let_def MODES_def mode_names)

lemma decide_propose [queue_rules]:
  "fst (decide i) = ROUTE_PROPOSE \<longleftrightarrow>
     clean_mode (pi_mode i) = ONE_CLICK \<or>
     clean_mode (pi_mode i) = AUTO_PAPER \<and> (pi_approval_required i \<or> \<not> pi_auto_paper_enabled i)"
  by (auto simp: decide_def Let_def MODES_def mode_names)

lemma decide_notify [queue_rules]: "fst (decide i) = ROUTE_NOTIFY \<longleftrightarrow> clean_mode (pi_mode i) = NOTIFY"
  by (auto simp: decide_def Let_def MODES_def mode_names)

definition sides_ok :: "bool \<Rightarrow> pyfloat \<Rightarrow> pyfloat option \<Rightarrow> pyfloat option \<Rightarrow> bool" where
  "sides_ok is_long e stop_loss target1 =
     ((case stop_loss of None \<Rightarrow> True | Some s \<Rightarrow> if is_long then s < e else e < s) \<and>
      (case target1 of None \<Rightarrow> True | Some t \<Rightarrow> if is_long then e < t else t < e))"

lemma level_problems_none:
  "level_problems d entry sl t1 need = [] \<longleftrightarrow>
     (py_upper d = ''LONG'' \<or> py_upper d = ''SHORT'') \<and>
     (\<exists>e. entry = Some e \<and> 0 < e \<and> (need \<longrightarrow> sl \<noteq> None) \<and> sides_ok (py_upper d = ''LONG'') e sl t1)"
  by (auto simp: level_problems_def sides_ok_def Let_def split: option.splits if_splits)

end
