(* ===== verification/IntentQueue.thy ===== *)
theory IntentQueue
  imports OrderLifecycle RowStore Policy
begin

text \<open>
  The intent queue of the execution core, \<open>app/execution/core/intents.py\<close> with the announcement of
  \<open>app/execution/core/announce.py\<close>: the \<open>execution_intents\<close> table, its producers' \<open>submit\<close> and the
  worker's \<open>claim\<close>, \<open>finish\<close>, \<open>expire_overdue\<close>, \<open>requeue_stale\<close> and \<open>relink_placed\<close>. The orders it reads
  are the rows of OrderLifecycle. Instants are microseconds; SHA-256 is the parameter \<open>sha\<close>.
\<close>

section \<open>Rows\<close>

datatype intent_status = QUEUED | CLAIMED | DONE | REFUSED | INTENT_FAILED | EXPIRED

definition FINAL :: "intent_status list" where
  "FINAL = [DONE, REFUSED, INTENT_FAILED, EXPIRED]"

text \<open>A reason is the text of a caller (cut to 300 characters) or one of the queue's own messages.\<close>

datatype why =
    Because string
  | NothingRaisedInTime
  | InterruptedTimes int
  | OrderPlacedBefore int
  | OrderNotPlaced int order_status
  | ProposalRaisedBefore int
  | ProposalRaised string int
  | LevelsWrong "level_problem list"
  | PlacedAt int pyfloat "int option" bool
  | KeyTaken int

fun cut_reason :: "why \<Rightarrow> why" where
  "cut_reason (Because s) = Because (take 300 s)"
| "cut_reason w = w"

record intent =
  in_id :: int
  in_tenant :: int
  in_user :: "int option"
  in_source :: string
  in_source_ref :: string
  in_key :: string
  in_mode :: string
  in_route :: "route option"
  in_status :: intent_status
  in_symbol :: string
  in_exchange :: string
  in_direction :: string
  in_strategy :: string
  in_signal :: string
  in_reason :: "why option"
  in_action :: "int option"
  in_notification :: "int option"
  in_attempts :: int
  in_claimed_at :: "int option"
  in_finished_at :: "int option"
  in_expires_at :: int
  in_created_at :: int

record proposal =
  pr_id :: int
  pr_tenant :: int
  pr_key :: string

record core_state =
  q_intents :: "intent list"
  q_orders :: "order_row list"
  q_proposals :: "proposal list"
  q_next :: int
  q_announced :: "(int \<times> int) list"

record core_config =
  cf_ttl :: int
  cf_claim_stale :: int
  cf_max_attempts :: int

definition SOURCES :: "(string \<times> string) list" where
  "SOURCES = [(''scan'', ''Scan setup'')]"

datatype core_error = CoreDisabled | IntentRejected string | NotAFinalStatus intent_status

section \<open>Keys and lookups\<close>

definition queue_key :: "(string \<Rightarrow> string) \<Rightarrow> string \<Rightarrow> string \<Rightarrow> string" where
  "queue_key sha source key =
     (let k = source @ '':'' @ key in if length k \<le> 200 then k else source @ '':sha256:'' @ sha key)"

definition proposal_key :: "int \<Rightarrow> string" where "proposal_key i = ''intent:'' @ show_int i"
definition order_key :: "int \<Rightarrow> string" where "order_key i = ''intent:'' @ show_int i"

definition intent_row :: "core_state \<Rightarrow> int \<Rightarrow> intent option" where
  "intent_row s i = row_with in_id (q_intents s) i"

definition existing_proposal :: "core_state \<Rightarrow> int \<Rightarrow> int \<Rightarrow> proposal option" where
  "existing_proposal s tenant i = find (\<lambda>p. pr_tenant p = tenant \<and> pr_key p = proposal_key i) (q_proposals s)"

definition IN_FLIGHT_ORDER :: "order_status list" where
  "IN_FLIGHT_ORDER = [CREATED, VALIDATING, RISK_CHECK, SUBMITTED, PENDING, PARTIAL_FILL]"
definition PLACED_ORDER :: "order_status list" where
  "PLACED_ORDER = [FILLED, POSITION_OPEN]"

definition existing_order :: "core_state \<Rightarrow> int \<Rightarrow> int \<Rightarrow> int option \<Rightarrow> order_row option" where
  "existing_order s tenant i user =
     (case (case user of Some u \<Rightarrow> Some u | None \<Rightarrow> Option.bind (intent_row s i) in_user) of
        None \<Rightarrow> None
      | Some u \<Rightarrow> find (\<lambda>ord. tenant_id ord = tenant \<and> user_id ord = u \<and> mode ord = ''PAPER''
                          \<and> idempotency_key ord = Some (order_key i)) (q_orders s))"

section \<open>Outcomes of an earlier attempt\<close>

record outcome =
  oc_status :: intent_status
  oc_route :: route
  oc_action :: "int option"
  oc_reason :: why
  oc_order :: "order_row option"

definition order_outcome :: "order_row \<Rightarrow> outcome option" where
  "order_outcome ord =
     (if status ord \<in> set IN_FLIGHT_ORDER then None
      else if status ord \<in> set PLACED_ORDER \<or> trade_id ord \<noteq> None then
        Some \<lparr>oc_status = DONE, oc_route = ROUTE_PAPER, oc_action = None,
              oc_reason = OrderPlacedBefore (order_id ord), oc_order = Some ord\<rparr>
      else Some \<lparr>oc_status = REFUSED, oc_route = ROUTE_PAPER, oc_action = None,
              oc_reason = OrderNotPlaced (order_id ord) (status ord), oc_order = Some ord\<rparr>)"

definition earlier_outcome :: "core_state \<Rightarrow> int \<Rightarrow> int \<Rightarrow> outcome option" where
  "earlier_outcome s tenant i =
     (case existing_order s tenant i None of
        Some ord \<Rightarrow> order_outcome ord
      | None \<Rightarrow> (case existing_proposal s tenant i of
            Some p \<Rightarrow> Some \<lparr>oc_status = DONE, oc_route = ROUTE_PROPOSE, oc_action = Some (pr_id p),
                          oc_reason = ProposalRaisedBefore (pr_id p), oc_order = None\<rparr>
          | None \<Rightarrow> None))"

text \<open>The values an outcome writes: the action id only when the outcome has one.\<close>

definition apply_outcome :: "int \<Rightarrow> outcome \<Rightarrow> intent \<Rightarrow> intent" where
  "apply_outcome now oc r =
     r\<lparr>in_status := oc_status oc, in_route := Some (oc_route oc), in_reason := Some (oc_reason oc),
       in_finished_at := Some now,
       in_action := (if oc_action oc = None then in_action r else oc_action oc)\<rparr>"

definition update_intents :: "(intent \<Rightarrow> bool) \<Rightarrow> (intent \<Rightarrow> intent) \<Rightarrow> core_state \<Rightarrow> core_state \<times> nat" where
  "update_intents P f s =
     (let (t, n) = update_where P f (q_intents s) in (s\<lparr>q_intents := t\<rparr>, n))"

definition announced :: "core_state \<Rightarrow> int \<Rightarrow> int \<Rightarrow> bool" where
  "announced s tenant i = ((tenant, i) \<in> set (q_announced s))"

definition write_announcement :: "int \<Rightarrow> int \<Rightarrow> core_state \<Rightarrow> core_state" where
  "write_announcement tenant i s = s\<lparr>q_announced := q_announced s @ [(tenant, i)]\<rparr>"

definition placed_once :: "int \<Rightarrow> core_state \<Rightarrow> core_state" where
  "placed_once i s =
     (case intent_row s i of
        None \<Rightarrow> s
      | Some r \<Rightarrow> if in_user r = None \<or> announced s (in_tenant r) i then s
                  else write_announcement (in_tenant r) i s)"

definition relink_placed :: "int \<Rightarrow> route \<Rightarrow> why \<Rightarrow> int \<Rightarrow> core_state \<Rightarrow> core_state \<times> bool" where
  "relink_placed i rt reason now s =
     (let (s', n) = update_intents (\<lambda>r. in_id r = i \<and> in_status r \<in> {EXPIRED, INTENT_FAILED})
            (\<lambda>r. r\<lparr>in_status := DONE, in_route := Some rt, in_reason := Some (cut_reason reason), in_finished_at := Some now\<rparr>) s
      in (s', n \<noteq> 0))"

section \<open>Submitting\<close>

record submit_request =
  rq_tenant :: int
  rq_user :: int
  rq_source :: string
  rq_source_ref :: string
  rq_key :: string
  rq_mode :: "string option"
  rq_symbol :: string
  rq_direction :: string
  rq_strategy :: "string option"
  rq_signal :: string
  rq_exchange :: "string option"

definition by_key :: "core_state \<Rightarrow> int \<Rightarrow> int \<Rightarrow> string \<Rightarrow> intent option" where
  "by_key s tenant user key =
     find (\<lambda>r. in_tenant r = tenant \<and> in_user r = Some user \<and> in_key r = key) (q_intents s)"

definition new_intent :: "core_config \<Rightarrow> submit_request \<Rightarrow> string \<Rightarrow> string \<Rightarrow> int \<Rightarrow> int \<Rightarrow> intent" where
  "new_intent cf q m key now i =
     \<lparr>in_id = i, in_tenant = rq_tenant q, in_user = Some (rq_user q), in_source = rq_source q,
      in_source_ref = take 120 (rq_source_ref q), in_key = key, in_mode = m, in_route = None, in_status = QUEUED,
      in_symbol = take 40 (rq_symbol q), in_exchange = take 12 (py_upper (str_or (rq_exchange q) ''NSE'')),
      in_direction = take 8 (rq_direction q), in_strategy = take 80 (str_or (rq_strategy q) (rq_source q)),
      in_signal = rq_signal q, in_reason = None, in_action = None, in_notification = None, in_attempts = 0,
      in_claimed_at = None, in_finished_at = None, in_expires_at = now + cf_ttl cf * US_SECOND, in_created_at = now\<rparr>"

text \<open>
  The look-up, then the insert against the unique constraint on (tenant, user, key): \<open>others\<close> is what
  concurrent transactions commit in between, and the winner's row is returned.
\<close>

definition insert_intent :: "core_config \<Rightarrow> submit_request \<Rightarrow> string \<Rightarrow> string \<Rightarrow> int \<Rightarrow> core_state \<Rightarrow> core_state \<times> intent \<times> bool" where
  "insert_intent cf q m key now s =
     (case by_key s (rq_tenant q) (rq_user q) key of
        Some r \<Rightarrow> (s, r, False)
      | None \<Rightarrow>
         (let row = new_intent cf q m key now (q_next s)
          in (s\<lparr>q_intents := q_intents s @ [row], q_next := q_next s + 1\<rparr>, row, True)))"

definition find_or_insert ::
  "core_config \<Rightarrow> submit_request \<Rightarrow> string \<Rightarrow> string \<Rightarrow> (core_state \<Rightarrow> core_state) \<Rightarrow> int \<Rightarrow> core_state \<Rightarrow> core_state \<times> intent \<times> bool" where
  "find_or_insert cf q m key others now s =
     (case by_key s (rq_tenant q) (rq_user q) key of
        Some r \<Rightarrow> (s, r, False)
      | None \<Rightarrow> insert_intent cf q m key now (others s))"

text \<open>\<open>submit\<close>: \<open>is_on\<close> is the organisation's flag, \<open>users\<close> the user table (tenant, active).\<close>

definition submit ::
  "core_config \<Rightarrow> (string \<Rightarrow> string) \<Rightarrow> bool \<Rightarrow> (int \<Rightarrow> (int \<times> bool) option) \<Rightarrow> (core_state \<Rightarrow> core_state) \<Rightarrow>
   submit_request \<Rightarrow> int \<Rightarrow> core_state \<Rightarrow> core_error + (core_state \<times> intent \<times> bool)" where
  "submit cf sha is_on users others q now s =
     (if \<not> is_on then Inl CoreDisabled
      else if map_of SOURCES (rq_source q) = None then Inl (IntentRejected ''source'')
      else if clean_mode (str_or (rq_mode q) []) \<notin> set MODES then Inl (IntentRejected ''mode'')
      else if users (rq_user q) \<noteq> Some (rq_tenant q, True) then Inl (IntentRejected ''member'')
      else Inr (find_or_insert cf q (clean_mode (str_or (rq_mode q) [])) (queue_key sha (rq_source q) (rq_key q)) others now s))"

section \<open>Claiming, expiring, retrying, finishing\<close>

type_synonym scope = "int list option"

definition in_scope :: "scope \<Rightarrow> intent \<Rightarrow> bool" where
  "in_scope sc r = (case sc of None \<Rightarrow> True | Some ts \<Rightarrow> in_tenant r \<in> set ts)"

definition ids_by_id :: "(intent \<Rightarrow> bool) \<Rightarrow> core_state \<Rightarrow> int list" where
  "ids_by_id P s = sort (map in_id (filter P (q_intents s)))"

definition finish ::
  "int \<Rightarrow> intent_status \<Rightarrow> route option \<Rightarrow> why \<Rightarrow> int option \<Rightarrow> int option \<Rightarrow> int \<Rightarrow> core_state \<Rightarrow> core_error + (core_state \<times> bool)" where
  "finish i st rt reason action notification now s =
     (if st \<notin> set FINAL then Inl (NotAFinalStatus st)
      else
       (let (s', n) = update_intents (\<lambda>r. in_id r = i \<and> in_status r = CLAIMED)
              (\<lambda>r. r\<lparr>in_status := st, in_route := rt, in_reason := Some (cut_reason reason), in_finished_at := Some now,
                     in_action := (if action = None then in_action r else action),
                     in_notification := (if notification = None then in_notification r else notification)\<rparr>) s
        in Inr (s', n \<noteq> 0)))"

definition claim_one :: "int \<Rightarrow> int \<Rightarrow> core_state \<Rightarrow> core_state \<times> nat" where
  "claim_one now i s =
     update_intents (\<lambda>r. in_id r = i \<and> in_status r = QUEUED)
       (\<lambda>r. r\<lparr>in_status := CLAIMED, in_claimed_at := Some now, in_attempts := in_attempts r + 1\<rparr>) s"

fun claim_each :: "int \<Rightarrow> int list \<Rightarrow> core_state \<Rightarrow> core_state \<times> int list" where
  "claim_each now [] s = (s, [])"
| "claim_each now (i # is) s =
     (let (s1, n) = claim_one now i s; (s2, taken) = claim_each now is s1
      in (s2, if n \<noteq> 0 then i # taken else taken))"

definition claim_candidates :: "scope \<Rightarrow> int \<Rightarrow> int \<Rightarrow> core_state \<Rightarrow> int list" where
  "claim_candidates sc now limit s =
     take (nat (max 1 limit)) (ids_by_id (\<lambda>r. in_status r = QUEUED \<and> now < in_expires_at r \<and> in_scope sc r) s)"

definition claim :: "scope \<Rightarrow> int \<Rightarrow> int \<Rightarrow> core_state \<Rightarrow> core_state \<times> int list" where
  "claim sc now limit s = claim_each now (claim_candidates sc now limit s) s"

text \<open>One retried overdue row: linked to what its earlier attempt did, if anything.\<close>

definition link_overdue :: "int \<Rightarrow> int \<Rightarrow> int \<Rightarrow> core_state \<Rightarrow> core_state" where
  "link_overdue now i tenant s =
     (case earlier_outcome s tenant i of
        None \<Rightarrow> s
      | Some oc \<Rightarrow>
         (let (s1, n) = update_intents (\<lambda>r. in_id r = i \<and> in_status r = QUEUED) (apply_outcome now oc) s
          in if oc_order oc \<noteq> None \<and> oc_status oc = DONE \<and> n \<noteq> 0 then placed_once i s1 else s1))"

definition expire_overdue :: "scope \<Rightarrow> int \<Rightarrow> core_state \<Rightarrow> core_state \<times> nat" where
  "expire_overdue sc now s =
     (let retried = map (\<lambda>r. (in_id r, in_tenant r))
            (filter (\<lambda>r. in_status r = QUEUED \<and> in_expires_at r \<le> now \<and> 0 < in_attempts r \<and> in_scope sc r) (q_intents s));
          s1 = fold (\<lambda>(i, t). link_overdue now i t) retried s
      in update_intents (\<lambda>r. in_status r = QUEUED \<and> in_expires_at r \<le> now \<and> in_scope sc r)
           (\<lambda>r. r\<lparr>in_status := EXPIRED, in_finished_at := Some now, in_reason := Some NothingRaisedInTime\<rparr>) s1)"

text \<open>What becomes of one interrupted row: queued again, failed, or linked to its earlier outcome.\<close>

definition stale_values :: "core_config \<Rightarrow> int \<Rightarrow> int \<Rightarrow> intent \<Rightarrow> core_state \<Rightarrow> (intent \<Rightarrow> intent) \<times> intent_status \<times> order_row option" where
  "stale_values cf now attempts row s =
     (if cf_max_attempts cf \<le> attempts then
        (case earlier_outcome s (in_tenant row) (in_id row) of
           Some oc \<Rightarrow> (apply_outcome now oc, oc_status oc, oc_order oc)
         | None \<Rightarrow> ((\<lambda>r. r\<lparr>in_status := INTENT_FAILED, in_finished_at := Some now, in_reason := Some (InterruptedTimes attempts)\<rparr>),
                    INTENT_FAILED, None))
      else ((\<lambda>r. r\<lparr>in_status := QUEUED, in_claimed_at := None\<rparr>), QUEUED, None))"

definition requeue_one :: "core_config \<Rightarrow> int \<Rightarrow> intent \<Rightarrow> core_state \<times> nat \<times> nat \<Rightarrow> core_state \<times> nat \<times> nat" where
  "requeue_one cf now row acc =
     (case acc of (s, requeued, failed) \<Rightarrow>
       (let (f, st, linked) = stale_values cf now (in_attempts row) row s;
            (s1, n) = update_intents (\<lambda>r. in_id r = in_id row \<and> in_status r = CLAIMED \<and> in_claimed_at r = in_claimed_at row) f s;
            s2 = (if n \<noteq> 0 \<and> st = DONE \<and> linked \<noteq> None then placed_once (in_id row) s1 else s1)
        in (s2, (if n \<noteq> 0 \<and> st = QUEUED then requeued + 1 else requeued),
                (if n \<noteq> 0 \<and> st = INTENT_FAILED then failed + 1 else failed))))"

definition stale_claims :: "core_config \<Rightarrow> scope \<Rightarrow> int \<Rightarrow> int \<Rightarrow> core_state \<Rightarrow> intent list" where
  "stale_claims cf sc now limit s =
     take (nat (max 1 limit)) (sort_key in_id (filter (\<lambda>r. in_status r = CLAIMED \<and>
        (case in_claimed_at r of None \<Rightarrow> False | Some c \<Rightarrow> c \<le> now - cf_claim_stale cf * US_SECOND) \<and> in_scope sc r) (q_intents s)))"

definition requeue_stale :: "core_config \<Rightarrow> scope \<Rightarrow> int \<Rightarrow> int \<Rightarrow> core_state \<Rightarrow> core_state \<times> nat \<times> nat" where
  "requeue_stale cf sc now limit s = fold (requeue_one cf now) (stale_claims cf sc now limit s) (s, 0, 0)"

section \<open>What every operation keeps\<close>

fun later :: "intent_status \<Rightarrow> intent_status list" where
  "later QUEUED = [QUEUED, CLAIMED, DONE, REFUSED, INTENT_FAILED, EXPIRED]"
| "later CLAIMED = [QUEUED, CLAIMED, DONE, REFUSED, INTENT_FAILED, EXPIRED]"
| "later DONE = [DONE]"
| "later REFUSED = [REFUSED]"
| "later INTENT_FAILED = [INTENT_FAILED, DONE]"
| "later EXPIRED = [EXPIRED, DONE]"

definition request_of :: "intent \<Rightarrow> int \<times> int \<times> int option \<times> string \<times> string \<times> string \<times> int" where
  "request_of r = (in_id r, in_tenant r, in_user r, in_key r, in_mode r, in_signal r, in_expires_at r)"

definition verdict_of :: "intent \<Rightarrow> route option \<times> why option \<times> int option \<times> int option" where
  "verdict_of r = (in_route r, in_reason r, in_action r, in_finished_at r)"

definition intent_ev :: "intent \<Rightarrow> intent \<Rightarrow> bool" where
  "intent_ev r r' = (request_of r' = request_of r \<and> in_status r' \<in> set (later (in_status r)) \<and> in_attempts r \<le> in_attempts r' \<and>
     (in_status r \<in> {DONE, REFUSED} \<longrightarrow> verdict_of r' = verdict_of r))"

lemma later_refl [simp]: "st \<in> set (later st)"
  by (cases st) simp_all

lemma later_trans: "b \<in> set (later a) \<Longrightarrow> c \<in> set (later b) \<Longrightarrow> c \<in> set (later a)"
  by (cases a; cases b; cases c) simp_all

lemma later_done: "b \<in> set (later a) \<Longrightarrow> a \<in> {DONE, REFUSED} \<Longrightarrow> b = a"
  by (cases a) simp_all

interpretation intents: row_contract in_id intent_ev
proof
  show "intent_ev r r" for r by (simp add: intent_ev_def)
next
  fix a b c
  assume "intent_ev a b" "intent_ev b c"
  then show "intent_ev a c"
    using later_trans [of "in_status b" "in_status a" "in_status c"] later_done [of "in_status b" "in_status a"]
    by (auto simp: intent_ev_def)
next
  show "intent_ev a b \<Longrightarrow> in_id b = in_id a" for a b by (simp add: intent_ev_def request_of_def)
qed

definition row_inv :: "core_config \<Rightarrow> intent \<Rightarrow> bool" where
  "row_inv cf r = (0 \<le> in_attempts r \<and> in_attempts r \<le> cf_max_attempts cf \<and>
     (in_status r = QUEUED \<longrightarrow> in_attempts r < cf_max_attempts cf) \<and>
     (in_status r = CLAIMED \<longrightarrow> 1 \<le> in_attempts r \<and> in_claimed_at r \<noteq> None) \<and>
     (in_status r \<in> set FINAL \<longrightarrow> in_finished_at r \<noteq> None))"

definition unique_key :: "intent \<Rightarrow> int \<times> int option \<times> string" where
  "unique_key r = (in_tenant r, in_user r, in_key r)"

definition queue_inv :: "core_config \<Rightarrow> core_state \<Rightarrow> bool" where
  "queue_inv cf s = (distinct (map in_id (q_intents s)) \<and> distinct (map unique_key (q_intents s)) \<and>
     (\<forall>r \<in> set (q_intents s). row_inv cf r \<and> in_id r < q_next s))"

definition good :: "core_config \<Rightarrow> core_state \<Rightarrow> core_state \<Rightarrow> bool" where
  "good cf s s' = (queue_inv cf s \<longrightarrow> queue_inv cf s' \<and> table_evolves intent_ev (q_intents s) (q_intents s'))"

lemma good_refl [simp]: "good cf s s"
  by (simp add: good_def intents.table_refl)

lemma good_trans: "good cf s t \<Longrightarrow> good cf t u \<Longrightarrow> good cf s u"
  using intents.table_trans by (auto simp: good_def)

lemma queue_inv_cong: "q_intents s' = q_intents s \<Longrightarrow> q_next s' = q_next s \<Longrightarrow> queue_inv cf s' = queue_inv cf s"
  by (simp add: queue_inv_def)

lemma good_same: "q_intents s' = q_intents s \<Longrightarrow> q_next s' = q_next s \<Longrightarrow> good cf s s'"
  using queue_inv_cong [of s' s cf] by (simp add: good_def intents.table_refl)

lemma update_intents_simps [simp]:
  "q_intents (fst (update_intents P f s)) = fst (update_where P f (q_intents s))"
  "q_next (fst (update_intents P f s)) = q_next s"
  "q_orders (fst (update_intents P f s)) = q_orders s"
  "q_proposals (fst (update_intents P f s)) = q_proposals s"
  "q_announced (fst (update_intents P f s)) = q_announced s"
  "snd (update_intents P f s) = length (filter P (q_intents s))"
  by (simp_all add: update_intents_def update_where_def)

lemma intent_ev_keys: "intent_ev r r' \<Longrightarrow> in_id r' = in_id r \<and> unique_key r' = unique_key r"
  by (simp add: intent_ev_def request_of_def unique_key_def)

lemma good_update:
  assumes "\<And>r. r \<in> set (q_intents s) \<Longrightarrow> P r \<Longrightarrow> intent_ev r (f r)"
    and "\<And>r. r \<in> set (q_intents s) \<Longrightarrow> P r \<Longrightarrow> row_inv cf r \<Longrightarrow> row_inv cf (f r)"
  shows "good cf s (fst (update_intents P f s))"
proof -
  let ?P = "\<lambda>r. P r \<and> r \<in> set (q_intents s)"
  let ?g = "\<lambda>r. if ?P r then f r else r"
  have e: "fst (update_where P f (q_intents s)) = map ?g (q_intents s)"
    by (auto simp: update_where_def)
  have ev: "intent_ev r (?g r)" for r using assms(1) intents.ev_refl by simp
  have k: "in_id (?g r) = in_id r" "unique_key (?g r) = unique_key r" for r
    using intent_ev_keys [OF ev [of r]] by blast+
  have ids: "map in_id (map ?g (q_intents s)) = map in_id (q_intents s)"
    and keys: "map unique_key (map ?g (q_intents s)) = map unique_key (q_intents s)"
    unfolding map_map by (rule map_cong [OF refl]; simp only: comp_def k)+
  have "table_evolves intent_ev (q_intents s) (fst (update_where ?P f (q_intents s)))"
    by (rule intents.table_update) (use assms(1) in blast)
  then have t: "table_evolves intent_ev (q_intents s) (map ?g (q_intents s))" by (simp add: update_where_def)
  have rows: "row_inv cf (?g r) \<and> in_id (?g r) < q_next s" if "queue_inv cf s" "r \<in> set (q_intents s)" for r
    using that assms(2) [of r] unfolding k by (simp add: queue_inv_def)
  have all: "\<forall>r \<in> set (map ?g (q_intents s)). row_inv cf r \<and> in_id r < q_next s" if "queue_inv cf s"
    using rows [OF that] by (metis (no_types, lifting) image_iff list.set_map)
  show ?thesis
    unfolding good_def
  proof
    assume inv: "queue_inv cf s"
    then have "distinct (map in_id (q_intents s))" "distinct (map unique_key (q_intents s))" by (simp_all add: queue_inv_def)
    then show "queue_inv cf (fst (update_intents P f s)) \<and>
        table_evolves intent_ev (q_intents s) (q_intents (fst (update_intents P f s)))"
      unfolding queue_inv_def update_intents_simps e ids keys using t all [OF inv] by blast
  qed
qed

lemma placed_once_same [simp]:
  "q_intents (placed_once i s) = q_intents s" "q_next (placed_once i s) = q_next s"
  "q_orders (placed_once i s) = q_orders s" "q_proposals (placed_once i s) = q_proposals s"
  by (simp_all add: placed_once_def write_announcement_def split: option.splits)

lemma good_placed_once: "good cf s (placed_once i s)"
  by (rule good_same) simp_all

lemma earlier_status: "earlier_outcome s t i = Some oc \<Longrightarrow> oc_status oc \<in> {DONE, REFUSED}"
  by (auto simp: earlier_outcome_def order_outcome_def split: option.splits if_splits)

lemmas ev_defs = intent_ev_def request_of_def verdict_of_def row_inv_def FINAL_def

lemma ok_apply_outcome:
  assumes "oc_status oc \<in> {DONE, REFUSED}" "in_status r \<in> {QUEUED, CLAIMED}"
  shows "intent_ev r (apply_outcome now oc r)" "row_inv cf r \<Longrightarrow> row_inv cf (apply_outcome now oc r)"
  using assms by (auto simp: ev_defs apply_outcome_def)

lemma good_claim_one: "good cf s (fst (claim_one now i s))"
  unfolding claim_one_def by (rule good_update) (auto simp: ev_defs)

lemma good_finish: "finish i st rt w a n now s = Inr (s', b) \<Longrightarrow> good cf s s'"
proof -
  assume f: "finish i st rt w a n now s = Inr (s', b)"
  define g where "g = (\<lambda>r :: intent. r\<lparr>in_status := st, in_route := rt, in_reason := Some (cut_reason w), in_finished_at := Some now,
      in_action := (if a = None then in_action r else a), in_notification := (if n = None then in_notification r else n)\<rparr>)"
  have st: "st \<in> set FINAL" using f by (auto simp: finish_def split: if_splits)
  have "good cf s (fst (update_intents (\<lambda>r. in_id r = i \<and> in_status r = CLAIMED) g s))"
    by (rule good_update) (use st in \<open>auto simp: ev_defs g_def\<close>)
  moreover have "s' = fst (update_intents (\<lambda>r. in_id r = i \<and> in_status r = CLAIMED) g s)"
    using f st by (simp add: finish_def g_def case_prod_beta)
  ultimately show ?thesis by simp
qed

lemma good_relink: "good cf s (fst (relink_placed i rt w now s))"
  unfolding relink_placed_def case_prod_beta Let_def fst_conv by (rule good_update) (auto simp: ev_defs)

lemma good_claim_each: "good cf s (fst (claim_each now is s))"
proof (induction "is" arbitrary: s)
  case (Cons i "is")
  have "good cf s (fst (claim_each now is (fst (claim_one now i s))))"
    by (rule good_trans [OF good_claim_one Cons.IH])
  then show ?case by (simp add: case_prod_beta Let_def)
qed simp

lemma good_link: "good cf s (link_overdue now i t s)"
proof (cases "earlier_outcome s t i")
  case (Some oc)
  let ?s1 = "fst (update_intents (\<lambda>r. in_id r = i \<and> in_status r = QUEUED) (apply_outcome now oc) s)"
  have "good cf s ?s1" by (rule good_update) (use ok_apply_outcome earlier_status [OF Some] in auto)
  then show ?thesis
    using good_trans [OF _ good_placed_once] by (simp add: link_overdue_def Some case_prod_beta Let_def)
qed (simp add: link_overdue_def)

lemma good_fold: "(\<And>x s. good cf s (f x s)) \<Longrightarrow> good cf s (fold f xs s)"
proof (induction xs arbitrary: s)
  case (Cons x xs)
  then show ?case using good_trans by (simp add: comp_def) blast
qed simp

lemma good_expire: "good cf s (fst (expire_overdue sc now s))"
proof -
  let ?s1 = "\<lambda>l. fold (\<lambda>(i, t). link_overdue now i t) l s"
  have 1: "good cf s (?s1 l)" for l by (rule good_fold) (simp add: good_link case_prod_beta)
  have 2: "good cf t (fst (update_intents (\<lambda>r. in_status r = QUEUED \<and> in_expires_at r \<le> now \<and> in_scope sc r)
     (\<lambda>r. r\<lparr>in_status := EXPIRED, in_finished_at := Some now, in_reason := Some NothingRaisedInTime\<rparr>) t))" for t
    by (rule good_update) (auto simp: ev_defs)
  show ?thesis unfolding expire_overdue_def Let_def by (rule good_trans [OF 1 2])
qed

section \<open>Retrying interrupted rows\<close>

definition same_attempts :: "intent list \<Rightarrow> core_state \<Rightarrow> bool" where
  "same_attempts rows s = (\<forall>row \<in> set rows. \<forall>r \<in> set (q_intents s). in_id r = in_id row \<longrightarrow> in_attempts r = in_attempts row)"

definition stale_update :: "core_config \<Rightarrow> int \<Rightarrow> intent \<Rightarrow> core_state \<Rightarrow> core_state" where
  "stale_update cf now row s =
     fst (update_intents (\<lambda>r. in_id r = in_id row \<and> in_status r = CLAIMED \<and> in_claimed_at r = in_claimed_at row)
            (fst (stale_values cf now (in_attempts row) row s)) s)"

lemma requeue_one_state:
  "q_intents (fst (requeue_one cf now row (s, a, b))) = q_intents (stale_update cf now row s)"
  "q_next (fst (requeue_one cf now row (s, a, b))) = q_next (stale_update cf now row s)"
  by (simp_all add: requeue_one_def stale_update_def case_prod_beta Let_def)

lemma stale_values_keep: "in_attempts (fst (stale_values cf now k row s) r) = in_attempts r"
  "in_id (fst (stale_values cf now k row s) r) = in_id r"
  by (simp_all add: stale_values_def apply_outcome_def split: option.splits)

lemma stale_values_ok:
  assumes "in_status r = CLAIMED" "in_attempts r = k"
  shows "intent_ev r (fst (stale_values cf now k row s) r)"
    "row_inv cf r \<Longrightarrow> row_inv cf (fst (stale_values cf now k row s) r)"
proof -
  consider (retry) "k < cf_max_attempts cf"
    | (fail) "cf_max_attempts cf \<le> k" "earlier_outcome s (in_tenant row) (in_id row) = None"
    | (link) oc where "cf_max_attempts cf \<le> k" "earlier_outcome s (in_tenant row) (in_id row) = Some oc"
    by (cases "earlier_outcome s (in_tenant row) (in_id row)") fastforce+
  then have "intent_ev r (fst (stale_values cf now k row s) r) \<and> (row_inv cf r \<longrightarrow> row_inv cf (fst (stale_values cf now k row s) r))"
  proof cases
    case link
    then show ?thesis using ok_apply_outcome [of oc r] earlier_status [OF link(2)] assms(1) by (simp add: stale_values_def)
  qed (use assms in \<open>auto simp: stale_values_def ev_defs\<close>)
  then show "intent_ev r (fst (stale_values cf now k row s) r)"
    "row_inv cf r \<Longrightarrow> row_inv cf (fst (stale_values cf now k row s) r)" by simp_all
qed

lemma good_stale_update: "same_attempts [row] s \<Longrightarrow> good cf s (stale_update cf now row s)"
  unfolding stale_update_def
  by (rule good_update) (use stale_values_ok in \<open>auto simp: same_attempts_def\<close>)

lemma stale_update_attempts: "same_attempts rows s \<Longrightarrow> same_attempts rows (stale_update cf now row s)"
  by (auto simp: same_attempts_def stale_update_def set_update_where stale_values_keep)

lemma good_requeue_fold:
  "same_attempts rows s \<Longrightarrow> good cf s (fst (fold (requeue_one cf now) rows (s, a, b)))"
proof (induction rows arbitrary: s a b)
  case (Cons row rows)
  obtain s1 a1 b1 where r: "requeue_one cf now row (s, a, b) = (s1, a1, b1)" by (metis prod_cases3)
  have e: "q_intents s1 = q_intents (stale_update cf now row s)" "q_next s1 = q_next (stale_update cf now row s)"
    using requeue_one_state [of cf now row s a b] r by simp_all
  have "same_attempts rows (stale_update cf now row s)" using stale_update_attempts [of rows s] Cons.prems
    by (simp add: same_attempts_def)
  then have "same_attempts rows s1" by (simp add: same_attempts_def e)
  then have rest: "good cf s1 (fst (fold (requeue_one cf now) rows (s1, a1, b1)))" by (rule Cons.IH)
  have "good cf s (stale_update cf now row s)" using Cons.prems by (intro good_stale_update) (simp add: same_attempts_def)
  then have "good cf s s1" using good_trans [OF _ good_same [OF e]] by blast
  then show ?case using good_trans [OF _ rest] by (simp add: r)
qed simp

lemma stale_claims_subset: "set (stale_claims cf sc now limit s) \<subseteq> set (q_intents s)"
  unfolding stale_claims_def by (auto dest: in_set_takeD)

lemma same_id_same_row: "distinct (map in_id t) \<Longrightarrow> a \<in> set t \<Longrightarrow> b \<in> set t \<Longrightarrow> in_id a = in_id b \<Longrightarrow> a = b"
  by (simp add: distinct_map inj_on_def)

lemma good_requeue: "good cf s (fst (requeue_stale cf sc now limit s))"
proof (cases "queue_inv cf s")
  case True
  then have "distinct (map in_id (q_intents s))" by (simp add: queue_inv_def)
  then have "same_attempts (stale_claims cf sc now limit s) s"
    unfolding same_attempts_def using stale_claims_subset [of cf sc now limit s] same_id_same_row by blast
  then show ?thesis unfolding requeue_stale_def by (rule good_requeue_fold)
qed (simp add: good_def)

section \<open>Submitting and whole runs\<close>

lemma by_key_Some: "by_key s t u k = Some r \<Longrightarrow> r \<in> set (q_intents s) \<and> unique_key r = (t, Some u, k)"
  by (auto simp: by_key_def find_Some_iff unique_key_def)

lemma by_key_None: "by_key s t u k = None \<longleftrightarrow> (t, Some u, k) \<notin> unique_key ` set (q_intents s)"
  by (auto simp: by_key_def find_None_iff unique_key_def)

lemma new_intent_fields [simp]:
  "in_id (new_intent cf q m key now i) = i" "unique_key (new_intent cf q m key now i) = (rq_tenant q, Some (rq_user q), key)"
  "in_status (new_intent cf q m key now i) = QUEUED"
  by (simp_all add: new_intent_def unique_key_def)

lemma new_intent_inv: "1 \<le> cf_max_attempts cf \<Longrightarrow> row_inv cf (new_intent cf q m key now i)"
  by (simp add: row_inv_def new_intent_def FINAL_def)

lemma good_insert:
  assumes "1 \<le> cf_max_attempts cf" "by_key s (rq_tenant q) (rq_user q) key = None"
  shows "good cf s (s\<lparr>q_intents := q_intents s @ [new_intent cf q m key now (q_next s)], q_next := q_next s + 1\<rparr>)"
proof -
  let ?row = "new_intent cf q m key now (q_next s)"
  have "row_inv cf r \<and> in_id r < q_next s + 1"
    if "queue_inv cf s" "r \<in> set (q_intents s @ [?row])" for r
    using that new_intent_inv [OF assms(1)] by (auto simp: queue_inv_def less_imp_le add.commute zless_add1_eq)
  moreover have "q_next s \<notin> in_id ` set (q_intents s)" if "queue_inv cf s"
    using that by (auto simp: queue_inv_def)
  moreover have "unique_key ?row \<notin> unique_key ` set (q_intents s)" using assms(2) by (simp add: by_key_None)
  ultimately show ?thesis
    using intents.table_append [of "q_intents s" ?row] by (simp add: good_def queue_inv_def)
qed

lemma submit_cases:
  assumes "submit cf sha on users others q now s = Inr (s', r, created)"
  obtains (first) "by_key s (rq_tenant q) (rq_user q) (queue_key sha (rq_source q) (rq_key q)) = Some r" "s' = s" "\<not> created"
  | (lost) "by_key (others s) (rq_tenant q) (rq_user q) (queue_key sha (rq_source q) (rq_key q)) = Some r" "s' = others s" "\<not> created"
  | (new) m where "by_key (others s) (rq_tenant q) (rq_user q) (queue_key sha (rq_source q) (rq_key q)) = None" "created"
      "r = new_intent cf q m (queue_key sha (rq_source q) (rq_key q)) now (q_next (others s))"
      "s' = others s\<lparr>q_intents := q_intents (others s) @ [r], q_next := q_next (others s) + 1\<rparr>"
proof -
  let ?m = "clean_mode (str_or (rq_mode q) [])" and ?k = "queue_key sha (rq_source q) (rq_key q)"
  have f: "find_or_insert cf q ?m ?k others now s = (s', r, created)"
    using assms by (simp add: submit_def split: if_splits)
  show thesis
  proof (cases "by_key s (rq_tenant q) (rq_user q) ?k")
    case None
    then have i: "insert_intent cf q ?m ?k now (others s) = (s', r, created)" using f by (simp add: find_or_insert_def)
    show ?thesis
    proof (cases "by_key (others s) (rq_tenant q) (rq_user q) ?k")
      case None
      have "r = new_intent cf q ?m ?k now (q_next (others s))" "created"
        "s' = others s\<lparr>q_intents := q_intents (others s) @ [r], q_next := q_next (others s) + 1\<rparr>"
        using i by (auto simp: insert_intent_def None Let_def)
      then show ?thesis by (intro new [OF None])
    next
      case (Some x)
      have "x = r" "s' = others s" "\<not> created" using i by (auto simp: insert_intent_def Some)
      then show ?thesis using Some by (intro lost) simp_all
    qed
  next
    case (Some x)
    have "x = r" "s' = s" "\<not> created" using f by (auto simp: find_or_insert_def Some)
    then show ?thesis using Some by (intro first) simp_all
  qed
qed

lemma good_submit:
  assumes "1 \<le> cf_max_attempts cf" "submit cf sha on users others q now s = Inr (s', r, created)" "good cf s (others s)"
  shows "good cf s s'"
  using assms(2)
proof (cases rule: submit_cases)
  case (new m)
  show ?thesis using good_trans [OF assms(3) good_insert [OF assms(1) new(1)]] new by simp
qed (use assms(3) in simp_all)

lemma submit_row:
  assumes "1 \<le> cf_max_attempts cf" "submit cf sha on users others q now s = Inr (s', r, created)"
    and "good cf s (others s)" "queue_inv cf s"
  shows "queue_inv cf s'" "r \<in> set (q_intents s')"
    "unique_key r = (rq_tenant q, Some (rq_user q), queue_key sha (rq_source q) (rq_key q))"
proof -
  show "queue_inv cf s'" using good_submit [OF assms(1-3)] assms(4) by (simp add: good_def)
  show "r \<in> set (q_intents s')"
    "unique_key r = (rq_tenant q, Some (rq_user q), queue_key sha (rq_source q) (rq_key q))"
    using assms(2) by (cases rule: submit_cases; use by_key_Some in fastforce)+
qed

datatype queue_event =
    SubmitEv bool "int \<Rightarrow> (int \<times> bool) option" submit_request int
  | ClaimEv scope int int
  | ExpireEv scope int
  | RequeueEv scope int int
  | FinishEv int intent_status "route option" why "int option" "int option" int
  | RelinkEv int route why int
  | OutsideEv "order_row list" "proposal list"

text \<open>One committed operation; a refused one changes nothing. Orders and proposals are written by other components.\<close>

fun queue_step :: "core_config \<Rightarrow> (string \<Rightarrow> string) \<Rightarrow> queue_event \<Rightarrow> core_state \<Rightarrow> core_state" where
  "queue_step cf sha (SubmitEv is_on users q now) s =
     (case submit cf sha is_on users (\<lambda>t. t) q now s of Inl _ \<Rightarrow> s | Inr (s', _) \<Rightarrow> s')"
| "queue_step cf sha (ClaimEv sc now limit) s = fst (claim sc now limit s)"
| "queue_step cf sha (ExpireEv sc now) s = fst (expire_overdue sc now s)"
| "queue_step cf sha (RequeueEv sc now limit) s = fst (requeue_stale cf sc now limit s)"
| "queue_step cf sha (FinishEv i st rt reason a n now) s =
     (case finish i st rt reason a n now s of Inl _ \<Rightarrow> s | Inr (s', _) \<Rightarrow> s')"
| "queue_step cf sha (RelinkEv i rt reason now) s = fst (relink_placed i rt reason now s)"
| "queue_step cf sha (OutsideEv os ps) s = s\<lparr>q_orders := os, q_proposals := ps\<rparr>"

definition queue_run :: "core_config \<Rightarrow> (string \<Rightarrow> string) \<Rightarrow> queue_event list \<Rightarrow> core_state \<Rightarrow> core_state" where
  "queue_run cf sha evs s = fold (queue_step cf sha) evs s"

definition empty_core :: core_state where
  "empty_core = \<lparr>q_intents = [], q_orders = [], q_proposals = [], q_next = 1, q_announced = []\<rparr>"

lemma good_step: "1 \<le> cf_max_attempts cf \<Longrightarrow> good cf s (queue_step cf sha e s)"
proof (cases e)
  case (SubmitEv is_on users q now)
  assume "1 \<le> cf_max_attempts cf"
  then show ?thesis using good_submit [of cf sha is_on users "\<lambda>t. t" q now s] SubmitEv
    by (auto split: sum.splits)
next
  case (FinishEv i st rt w a n now)
  then show ?thesis using good_finish [of i st rt w a n now s] by (auto split: sum.splits)
next
  case (OutsideEv os ps)
  then show ?thesis by (simp add: good_same)
qed (simp_all add: claim_def good_claim_each good_expire good_requeue good_relink)

lemma good_run: "1 \<le> cf_max_attempts cf \<Longrightarrow> good cf s (queue_run cf sha evs s)"
  unfolding queue_run_def by (rule good_fold) (rule good_step)

lemma empty_core_inv: "queue_inv cf empty_core"
  by (simp add: queue_inv_def empty_core_def)

lemma good_row:
  "good cf s s' \<Longrightarrow> queue_inv cf s \<Longrightarrow> intent_row s i = Some r \<Longrightarrow> \<exists>r'. intent_row s' i = Some r' \<and> intent_ev r r'"
  unfolding good_def intent_row_def using intents.table_row by blast

section \<open>Claim races\<close>

text \<open>
  The conditional updates of any number of workers, in whatever order they reach the database: each
  entry is one worker's update of one row it had selected earlier.
\<close>

fun claim_race :: "(nat \<times> int \<times> int) list \<Rightarrow> core_state \<Rightarrow> core_state \<times> (nat \<times> int) list" where
  "claim_race [] s = (s, [])"
| "claim_race ((w, i, now) # es) s =
     (let (s1, n) = claim_one now i s; (s2, won) = claim_race es s1
      in (s2, if n \<noteq> 0 then (w, i) # won else won))"

definition queued :: "core_state \<Rightarrow> int \<Rightarrow> bool" where
  "queued s i = (\<exists>r \<in> set (q_intents s). in_id r = i \<and> in_status r = QUEUED)"

lemma claim_one_won: "snd (claim_one now i s) \<noteq> 0 \<longleftrightarrow> queued s i"
  by (auto simp: claim_one_def queued_def filter_empty_conv)

lemma claim_one_queued: "queued (fst (claim_one now i s)) j \<longleftrightarrow> j \<noteq> i \<and> queued s j"
  by (auto simp: claim_one_def queued_def set_update_where)

lemma claim_race_Cons:
  "claim_race ((w, i, now) # es) s =
     (fst (claim_race es (fst (claim_one now i s))),
      (if queued s i then [(w, i)] else []) @ snd (claim_race es (fst (claim_one now i s))))"
  using claim_one_won [of now i s] by (simp add: case_prod_beta Let_def)

declare claim_race.simps(2) [simp del]

lemma claim_race_queued: "queued (fst (claim_race es s)) j \<Longrightarrow> queued s j"
proof (induction es arbitrary: s)
  case (Cons e es)
  obtain w i now where e: "e = (w, i, now)" by (rule prod_cases3)
  show ?case using Cons.prems Cons.IH [of "fst (claim_one now i s)"] by (simp add: e claim_race_Cons claim_one_queued)
qed simp

lemma claim_race_won: "(w, i) \<in> set (snd (claim_race es s)) \<Longrightarrow> queued s i"
proof (induction es arbitrary: s)
  case (Cons e es)
  obtain w' i' now where e: "e = (w', i', now)" by (rule prod_cases3)
  show ?case using Cons.prems Cons.IH [of "fst (claim_one now i' s)"]
    by (auto simp: e claim_race_Cons claim_one_queued split: if_splits)
qed simp

lemma claim_race_distinct: "distinct (map snd (snd (claim_race es s)))"
proof (induction es arbitrary: s)
  case (Cons e es)
  obtain w i now where e: "e = (w, i, now)" by (rule prod_cases3)
  have "i \<notin> snd ` set (snd (claim_race es (fst (claim_one now i s))))"
    using claim_race_won [of _ i es "fst (claim_one now i s)"] claim_one_queued [of now i s i] by auto
  then show ?case using Cons.IH by (simp add: e claim_race_Cons)
qed simp

lemma claim_race_complete: "queued s i \<Longrightarrow> i \<in> (fst \<circ> snd) ` set es \<Longrightarrow> i \<in> snd ` set (snd (claim_race es s))"
proof (induction es arbitrary: s)
  case (Cons e es)
  obtain w i' now where e: "e = (w, i', now)" by (rule prod_cases3)
  show ?case
  proof (cases "i = i'")
    case True
    then show ?thesis using Cons.prems(1) by (simp add: e claim_race_Cons)
  next
    case False
    then have "i \<in> snd ` set (snd (claim_race es (fst (claim_one now i' s))))"
      using Cons.prems by (intro Cons.IH) (auto simp: e claim_one_queued)
    then show ?thesis by (simp add: e claim_race_Cons image_Un)
  qed
qed simp

section \<open>Properties\<close>

text \<open>
  C16. Whatever the producers, workers and sweeps do to the queue, and in whatever order: ids and
  (organisation, person, key) stay unique, no intent is ever claimed more than the configured number
  of times, a queued one has an attempt left, a closed one has its time; and from any point on every
  row keeps its request, never moves outside the life cycle, and a DONE or REFUSED verdict never changes.
\<close>

theorem queue_run_keeps:
  assumes "1 \<le> cf_max_attempts cf" "s = queue_run cf sha evs empty_core" "s' = queue_run cf sha evs' s"
    and "intent_row s i = Some r"
  shows "queue_inv cf s' \<and>
    (\<exists>r'. intent_row s' i = Some r' \<and> request_of r' = request_of r \<and> in_status r' \<in> set (later (in_status r)) \<and>
       in_attempts r \<le> in_attempts r' \<and> in_attempts r' \<le> cf_max_attempts cf \<and>
       (in_status r \<in> {DONE, REFUSED} \<longrightarrow> in_status r' = in_status r \<and> verdict_of r' = verdict_of r))"
proof -
  have g: "good cf empty_core s" "good cf s s'" unfolding assms(2,3) by (rule good_run [OF assms(1)])+
  have inv: "queue_inv cf s" using g(1) empty_core_inv by (simp add: good_def)
  then have inv': "queue_inv cf s'" using g(2) by (simp add: good_def)
  obtain r' where r': "intent_row s' i = Some r'" "intent_ev r r'" using good_row [OF g(2) inv assms(4)] by blast
  have "row_inv cf r'" using inv' row_with_Some [of in_id "q_intents s'" i r'] r'(1) by (simp add: queue_inv_def intent_row_def)
  then show ?thesis using inv' r' later_done [of "in_status r'" "in_status r"]
    by (auto simp: intent_ev_def row_inv_def)
qed

text \<open>
  C17. However the conditional updates of any number of workers interleave, no intent is claimed by
  two of them, only queued intents are claimed, and every queued intent somebody tried is claimed.
\<close>

theorem claim_race_exclusive:
  "distinct (map snd (snd (claim_race es s))) \<and>
   snd ` set (snd (claim_race es s)) = {i. queued s i \<and> i \<in> (fst \<circ> snd) ` set es}"
proof -
  have "snd ` set (snd (claim_race es s)) \<subseteq> (fst \<circ> snd) ` set es"
  proof (induction es arbitrary: s)
    case (Cons e es)
    obtain w i now where e: "e = (w, i, now)" by (rule prod_cases3)
    show ?case using Cons.IH [of "fst (claim_one now i s)"] by (auto simp: e claim_race_Cons split: if_splits)
  qed simp
  moreover have "i \<in> snd ` set (snd (claim_race es s)) \<Longrightarrow> queued s i" for i using claim_race_won by fastforce
  ultimately show ?thesis using claim_race_distinct [of es s] claim_race_complete [of s _ es] by blast
qed

text \<open>
  C18. A setup is queued once per person: after a submit (which may have lost a race against
  concurrent commits) and any further activity on the queue, an accepted submit of the same key for
  the same person creates nothing, changes nothing and answers with the same row.
\<close>

theorem submit_once:
  assumes "1 \<le> cf_max_attempts cf" "queue_inv cf s" "good cf s (others s)"
    and "submit cf sha on users others q now s = Inr (s1, r1, c1)"
    and "submit cf sha on' users' others' q' now' (queue_run cf sha evs s1) = Inr (s2, r2, c2)"
    and "rq_tenant q' = rq_tenant q" "rq_user q' = rq_user q" "rq_source q' = rq_source q" "rq_key q' = rq_key q"
  shows "\<not> c2 \<and> s2 = queue_run cf sha evs s1 \<and> in_id r2 = in_id r1 \<and> in_attempts r1 \<le> in_attempts r2"
proof -
  let ?k = "(rq_tenant q, Some (rq_user q), queue_key sha (rq_source q) (rq_key q))" and ?s = "queue_run cf sha evs s1"
  note row = submit_row [OF assms(1,4,3,2)]
  have g: "good cf s1 ?s" by (rule good_run [OF assms(1)])
  have inv: "queue_inv cf ?s" using g row(1) by (simp add: good_def)
  have "intent_row s1 (in_id r1) = Some r1"
    unfolding intent_row_def by (rule row_with_distinct) (use row in \<open>simp_all add: queue_inv_def\<close>)
  then obtain r' where r': "intent_row ?s (in_id r1) = Some r'" "intent_ev r1 r'" using good_row [OF g row(1)] by blast
  then have m: "r' \<in> set (q_intents ?s)" "in_id r' = in_id r1" "unique_key r' = ?k"
    using row_with_Some [of in_id "q_intents ?s" "in_id r1" r'] row(3) intent_ev_keys by (auto simp: intent_row_def)
  have found: "by_key ?s (rq_tenant q) (rq_user q) (queue_key sha (rq_source q) (rq_key q)) = Some r'"
  proof (cases "by_key ?s (rq_tenant q) (rq_user q) (queue_key sha (rq_source q) (rq_key q))")
    case None
    then show ?thesis using m by (force simp: by_key_None)
  next
    case (Some x)
    have "x = r'" using inv by_key_Some [OF Some] m by (simp add: queue_inv_def distinct_map inj_on_def)
    then show ?thesis using Some by simp
  qed
  have "s2 = ?s \<and> r2 = r' \<and> \<not> c2"
    using assms(5) found by (simp add: submit_def assms(6-9) find_or_insert_def split: if_splits)
  then show ?thesis using m r'(2) by (simp add: intent_ev_def)
qed

section \<open>Witnesses\<close>

definition demo_config :: core_config where
  "demo_config = \<lparr>cf_ttl = 300, cf_claim_stale = 120, cf_max_attempts = 3\<rparr>"

definition demo_submit :: submit_request where
  "demo_submit = \<lparr>rq_tenant = 1, rq_user = 7, rq_source = ''scan'', rq_source_ref = ''rule:12:event:345'', rq_key = ''k'',
     rq_mode = Some ''notify '', rq_symbol = ''INFY'', rq_direction = ''LONG'', rq_strategy = None, rq_signal = ''{}'',
     rq_exchange = None\<rparr>"

definition demo_users :: "int \<Rightarrow> (int \<times> bool) option" where
  "demo_users u = Some (1, True)"

definition demo_row :: intent where
  "demo_row = new_intent demo_config demo_submit NOTIFY ''scan:k'' 0 1"

lemma demo_submitted:
  "submit demo_config id True demo_users id demo_submit 0 empty_core =
     Inr (empty_core\<lparr>q_intents := [demo_row], q_next := 2\<rparr>, demo_row, True)"
  by code_simp

theorem queue_run_keeps_witness:
  "\<exists>r'. intent_row (queue_run demo_config id [ClaimEv None 0 10] (queue_run demo_config id
       [SubmitEv True demo_users demo_submit 0] empty_core)) 1 = Some r' \<and> in_attempts r' \<le> 3"
proof -
  let ?s = "queue_run demo_config id [SubmitEv True demo_users demo_submit 0] empty_core"
  have r: "intent_row ?s 1 = Some demo_row" by code_simp
  have m: "1 \<le> cf_max_attempts demo_config" "cf_max_attempts demo_config = 3" by (simp_all add: demo_config_def)
  show ?thesis using queue_run_keeps [OF m(1) refl refl r, where evs' = "[ClaimEv None 0 10]"] m(2) by auto
qed

theorem submit_once_witness:
  "submit demo_config id True demo_users id demo_submit 5 (empty_core\<lparr>q_intents := [demo_row], q_next := 2\<rparr>) =
     Inr (empty_core\<lparr>q_intents := [demo_row], q_next := 2\<rparr>, demo_row, False) \<and> in_id demo_row = in_id demo_row"
proof -
  let ?s = "empty_core\<lparr>q_intents := [demo_row], q_next := 2\<rparr>"
  have m: "1 \<le> cf_max_attempts demo_config" by (simp add: demo_config_def)
  have e: "queue_run demo_config id [] ?s = ?s" by (simp add: queue_run_def)
  have again: "submit demo_config id True demo_users id demo_submit 5 ?s = Inr (?s, demo_row, False)" by code_simp
  have g: "good demo_config empty_core (id empty_core)" by simp
  show ?thesis
    using again submit_once [OF m empty_core_inv g demo_submitted, of True demo_users id demo_submit 5 "[]"]
    unfolding e by simp
qed

end
