(* ===== verification/Dispatcher.thy ===== *)
theory Dispatcher
  imports IntentQueue
begin

text \<open>
  The dispatcher of the execution core, \<open>app/execution/core/dispatcher.py\<close>, over the intent queue, with
  the re-quote rule of \<open>app/execution/approval.py\<close>. What other components answer (users, switches, the
  parsed signal, prices, the approval store, the PAPER pipeline) is the environment of a dispatch; a
  caught or escaping exception of theirs is a value of it.
\<close>

section \<open>The re-quote rule\<close>

datatype requote = RequoteOk | Requote "pyfloat \<times> bool" | RequoteExpire | NoValidPrice

text \<open>The limit a move is measured against: the stricter of percent (True) and ticks (False), first wins a tie.\<close>

definition drift_limit :: "pyfloat \<Rightarrow> pyfloat \<Rightarrow> int \<Rightarrow> pyfloat \<Rightarrow> (pyfloat \<times> bool) option" where
  "drift_limit proposal_price max_drift_pct max_drift_ticks tick_size =
     (let pct = (if 0 < max_drift_pct then Some (fdiv (fmul proposal_price max_drift_pct) 100, True) else None);
          ticks = (if 0 < max_drift_ticks \<and> 0 < tick_size then Some (fmul (fl (of_int max_drift_ticks)) tick_size, False) else None)
      in case (pct, ticks) of
           (Some p, Some t) \<Rightarrow> Some (if fst t < fst p then t else p)
         | (Some p, None) \<Rightarrow> Some p
         | (None, t) \<Rightarrow> t)"

definition requote_check ::
  "string \<Rightarrow> pyfloat \<Rightarrow> pyfloat \<Rightarrow> pyfloat option \<Rightarrow> pyfloat option \<Rightarrow> pyfloat \<Rightarrow> int \<Rightarrow> pyfloat \<Rightarrow> requote" where
  "requote_check side proposal_price current_price stop_loss target1 max_drift_pct max_drift_ticks tick_size =
     (if current_price \<le> 0 \<or> proposal_price \<le> 0 then NoValidPrice
      else
       (let is_long = (py_upper side = ''LONG'') in
        if (case stop_loss of None \<Rightarrow> False
            | Some s \<Rightarrow> (is_long \<and> current_price \<le> s) \<or> (\<not> is_long \<and> s \<le> current_price)) then RequoteExpire
        else if (case target1 of None \<Rightarrow> False
            | Some t \<Rightarrow> (is_long \<and> t \<le> current_price) \<or> (\<not> is_long \<and> current_price \<le> t)) then RequoteExpire
        else
         (let drift = \<bar>fsub current_price proposal_price\<bar> in
          case drift_limit proposal_price max_drift_pct max_drift_ticks tick_size of
            None \<Rightarrow> RequoteOk
          | Some (limit, is_pct) \<Rightarrow>
              if fadd limit (flit 1 1000000000) < drift then Requote (limit, is_pct) else RequoteOk)))"

section \<open>The environment of one dispatch\<close>

record trade_signal =
  sg_entry :: "pyfloat option"
  sg_stop_loss :: "pyfloat option"
  sg_target1 :: "pyfloat option"

datatype quote_answer = NoLookup | QuoteFails string | Quote pyfloat

record paper_facts =
  pf_can_trade :: bool
  pf_paused :: "string option"
  pf_locked :: "string option"
  pf_caps :: "string list"
  pf_late :: "string option"
  pf_limit :: "string option"
  pf_quote :: quote_answer
  pf_own_drift :: "pyfloat option"
  pf_max_ticks :: int
  pf_tick_size :: pyfloat

datatype proposal_answer = EntriesPaused string | AlreadyRaised | NewProposal | ProposalError

datatype pipeline_answer = PipelineError string | Pipeline bool order_row "string list"

record dispatch_env =
  de_now :: int
  de_tenant :: "int \<Rightarrow> bool option"
  de_users :: "int \<Rightarrow> (int \<times> bool) option"
  de_places :: "intent \<Rightarrow> bool option"
  de_approval :: "int \<Rightarrow> int \<Rightarrow> bool"
  de_approval_again :: "int \<Rightarrow> int \<Rightarrow> bool"
  de_phase0 :: "int \<Rightarrow> bool"
  de_signal :: "string \<Rightarrow> trade_signal option"
  de_facts :: "intent \<Rightarrow> paper_facts option"
  de_propose :: "core_state \<Rightarrow> intent \<Rightarrow> proposal_answer"
  de_pipeline :: "core_state \<Rightarrow> intent \<Rightarrow> pyfloat \<Rightarrow> core_state \<times> pipeline_answer"
  de_notification :: "intent \<Rightarrow> int option"

section \<open>Outcomes of a dispatch\<close>

definition WHY_PAPER_NOT_SCAN :: string where
  "WHY_PAPER_NOT_SCAN = ''Auto PAPER is placed only for an armed scan template - nothing was placed''"
definition WHY_OWNER_GONE :: string where
  "WHY_OWNER_GONE = ''The person this intent is for is no longer an active member - nothing was raised''"

text \<open>\<open>finish\<close> with one of the final statuses, as the dispatcher calls it.\<close>

definition finish_as ::
  "int \<Rightarrow> intent_status \<Rightarrow> route option \<Rightarrow> why \<Rightarrow> int option \<Rightarrow> int \<Rightarrow> core_state \<Rightarrow> core_state \<times> bool" where
  "finish_as i st rt reason action now s =
     (case finish i st rt reason action None now s of Inl _ \<Rightarrow> (s, False) | Inr x \<Rightarrow> x)"

definition settle :: "int \<Rightarrow> intent_status \<Rightarrow> route option \<Rightarrow> why \<Rightarrow> int \<Rightarrow> core_state \<Rightarrow> core_state \<times> intent_status" where
  "settle i st rt reason now s = (fst (finish_as i st rt reason None now s), st)"

definition add_proposal :: "int \<Rightarrow> string \<Rightarrow> core_state \<Rightarrow> core_state" where
  "add_proposal tenant key s =
     s\<lparr>q_proposals := q_proposals s @ [\<lparr>pr_id = q_next s, pr_tenant = tenant, pr_key = key\<rparr>], q_next := q_next s + 1\<rparr>"

text \<open>\<open>_propose\<close>: \<open>None\<close> is an exception that leaves the call (the caller's savepoint undoes its work).\<close>

definition propose_outcome :: "dispatch_env \<Rightarrow> intent \<Rightarrow> string \<Rightarrow> core_state \<Rightarrow> core_state \<times> intent_status" where
  "propose_outcome env row reason s =
     (case existing_proposal s (in_tenant row) (in_id row) of
        None \<Rightarrow> settle (in_id row) INTENT_FAILED (Some ROUTE_PROPOSE)
                 (Because ''The proposal could not be raised - nothing was placed'') (de_now env) s
      | Some p \<Rightarrow> (fst (finish_as (in_id row) DONE (Some ROUTE_PROPOSE) (ProposalRaised reason (pr_id p)) (Some (pr_id p)) (de_now env) s), DONE))"

definition propose :: "dispatch_env \<Rightarrow> intent \<Rightarrow> string \<Rightarrow> core_state \<Rightarrow> (core_state \<times> intent_status) option" where
  "propose env row reason s =
     (case de_propose env s row of
        ProposalError \<Rightarrow> None
      | EntriesPaused w \<Rightarrow> Some (settle (in_id row) REFUSED (Some ROUTE_REFUSE) (Because w) (de_now env) s)
      | AlreadyRaised \<Rightarrow> Some (propose_outcome env row reason s)
      | NewProposal \<Rightarrow> Some (propose_outcome env row reason (add_proposal (in_tenant row) (proposal_key (in_id row)) s)))"

text \<open>\<open>_notify\<close>: the row is DONE in the transaction of its notification; a notification that raises undoes both.\<close>

definition notify_intent :: "dispatch_env \<Rightarrow> intent \<Rightarrow> string \<Rightarrow> core_state \<Rightarrow> (core_state \<times> intent_status) option" where
  "notify_intent env row reason s =
     (let (s1, finished) = finish_as (in_id row) DONE (Some ROUTE_NOTIFY) (Because reason) None (de_now env) s
      in if \<not> finished then Some (s, INTENT_FAILED)
         else case de_notification env row of
           None \<Rightarrow> None
         | Some n \<Rightarrow> Some (fst (update_intents (\<lambda>r. in_id r = in_id row) (\<lambda>r. r\<lparr>in_notification := Some n\<rparr>) s1), DONE))"

section \<open>Auto PAPER\<close>

datatype paper_check = CheckRefuse string | CheckPropose string | CheckPlace pyfloat

definition quote_check :: "paper_facts \<Rightarrow> intent \<Rightarrow> trade_signal \<Rightarrow> paper_check" where
  "quote_check f row sg =
     (case pf_quote f of
        NoLookup \<Rightarrow> CheckPropose ''No live price on your own broker session to re-quote the Auto PAPER entry - a proposal instead''
      | QuoteFails e \<Rightarrow> CheckPropose (''No live price for '' @ in_symbol row @ '' to re-quote the Auto PAPER entry ('' @ e @ '') - a proposal instead'')
      | Quote price \<Rightarrow>
         (case requote_check (in_direction row) (case sg_entry sg of None \<Rightarrow> 0 | Some e \<Rightarrow> e) price (sg_stop_loss sg) (sg_target1 sg)
                 (case pf_own_drift f of None \<Rightarrow> 0 | Some d \<Rightarrow> d) (pf_max_ticks f) (pf_tick_size f) of
            RequoteOk \<Rightarrow> CheckPlace price
          | NoValidPrice \<Rightarrow> CheckPropose (''The live price for '' @ in_symbol row @ '' is not usable - a proposal instead'')
          | _ \<Rightarrow> CheckPropose ''The price moved since the setup - a proposal instead''))"

definition paper_checks :: "paper_facts \<Rightarrow> intent \<Rightarrow> trade_signal \<Rightarrow> paper_check" where
  "paper_checks f row sg =
     (if \<not> pf_can_trade f then CheckRefuse ''The template's owner may not trade (role or scope) - nothing was placed''
      else if truthy (pf_paused f) then CheckRefuse (the (pf_paused f))
      else if truthy (pf_locked f) then CheckRefuse (the (pf_locked f))
      else if pf_caps f \<noteq> [] then CheckRefuse (concat (pf_caps f))
      else if truthy (pf_late f) then CheckPropose (the (pf_late f))
      else if truthy (pf_limit f) then CheckPropose (the (pf_limit f))
      else quote_check f row sg)"

text \<open>\<open>_placed\<close>: DONE with the announcement, or, when a sweep settled the row meanwhile, the row is linked to its order.\<close>

definition relink_after_sweep :: "dispatch_env \<Rightarrow> intent \<Rightarrow> int \<Rightarrow> order_row \<Rightarrow> pyfloat \<Rightarrow> core_state \<Rightarrow> core_state" where
  "relink_after_sweep env row owner ord price s =
     (case existing_order s (in_tenant row) (in_id row) (Some owner) of
        None \<Rightarrow> s
      | Some o1 \<Rightarrow>
         (if status o1 \<in> set PLACED_ORDER then
            (let (s1, linked) = relink_placed (in_id row) ROUTE_PAPER (PlacedAt (order_id ord) price (trade_id ord) True) (de_now env) s
             in if linked then placed_once (in_id row) s1 else s)
          else s))"

definition placed :: "dispatch_env \<Rightarrow> intent \<Rightarrow> int \<Rightarrow> order_row \<Rightarrow> pyfloat \<Rightarrow> core_state \<Rightarrow> core_state" where
  "placed env row owner ord price s =
     (let (s1, finished) = finish_as (in_id row) DONE (Some ROUTE_PAPER) (PlacedAt (order_id ord) price (trade_id ord) False) None (de_now env) s
      in if finished then write_announcement (in_tenant row) (in_id row) s1
         else relink_after_sweep env row owner ord price s)"

definition place_order :: "dispatch_env \<Rightarrow> intent \<Rightarrow> int \<Rightarrow> pyfloat \<Rightarrow> core_state \<Rightarrow> core_state \<times> intent_status" where
  "place_order env row owner price s =
     (case de_pipeline env s row price of
        (s1, PipelineError e) \<Rightarrow>
          settle (in_id row) INTENT_FAILED (Some ROUTE_PAPER) (Because (''Auto PAPER placement failed ('' @ e @ '') - see the worker log'')) (de_now env) s1
      | (s1, Pipeline done_now ord why_not) \<Rightarrow>
          (if \<not> done_now \<and> status ord \<in> set IN_FLIGHT_ORDER then (s1, CLAIMED)
           else if \<not> done_now then
             settle (in_id row) REFUSED (Some ROUTE_PAPER) (Because (''PAPER order not placed: '' @ concat why_not)) (de_now env) s1
           else (placed env row owner ord price s1, DONE)))"

definition key_holder :: "core_state \<Rightarrow> int \<Rightarrow> int \<Rightarrow> order_row option" where
  "key_holder s tenant i = find (\<lambda>ord. tenant_id ord = tenant \<and> idempotency_key ord = Some (order_key i)) (q_orders s)"

text \<open>The part of \<open>_paper\<close> before anything is placed: what an order already under the key decides.\<close>

definition paper_taken :: "dispatch_env \<Rightarrow> intent \<Rightarrow> int \<Rightarrow> core_state \<Rightarrow> (core_state \<times> intent_status) option" where
  "paper_taken env row owner s =
     (case key_holder s (in_tenant row) (in_id row) of
        Some t \<Rightarrow>
          (if user_id t \<noteq> owner \<or> mode t \<noteq> ''PAPER'' then
             Some (settle (in_id row) REFUSED (Some ROUTE_REFUSE) (KeyTaken (order_id t)) (de_now env) s)
           else (case existing_order s (in_tenant row) (in_id row) (Some owner) of
               None \<Rightarrow> None
             | Some e \<Rightarrow> if status e \<in> set IN_FLIGHT_ORDER then Some (s, CLAIMED)
                 else Some (settle (in_id row) DONE (Some ROUTE_PAPER) (OrderPlacedBefore (order_id e)) (de_now env) s)))
      | None \<Rightarrow> None)"

definition paper :: "dispatch_env \<Rightarrow> intent \<Rightarrow> int \<Rightarrow> trade_signal \<Rightarrow> core_state \<Rightarrow> (core_state \<times> intent_status) option" where
  "paper env row owner sg s =
     (case paper_taken env row owner s of
        Some x \<Rightarrow> Some x
      | None \<Rightarrow>
         (if de_approval_again env (in_tenant row) owner then propose env row WHY_AUTO_APPROVAL s
          else case de_facts env row of
            None \<Rightarrow> Some (settle (in_id row) INTENT_FAILED (Some ROUTE_PAPER) (Because ''Auto PAPER checks could not run - nothing was placed'') (de_now env) s)
          | Some f \<Rightarrow>
             (case paper_checks f row sg of
                CheckRefuse w \<Rightarrow> Some (settle (in_id row) REFUSED (Some ROUTE_REFUSE) (Because w) (de_now env) s)
              | CheckPropose w \<Rightarrow> propose env row w s
              | CheckPlace price \<Rightarrow> Some (place_order env row owner price s))))"

section \<open>One intent\<close>

definition earlier_attempt :: "dispatch_env \<Rightarrow> intent \<Rightarrow> core_state \<Rightarrow> (core_state \<times> intent_status) option" where
  "earlier_attempt env row s =
     (if in_attempts row \<le> 1 then None
      else case earlier_outcome s (in_tenant row) (in_id row) of
        Some oc \<Rightarrow>
          (let (s1, finished) = finish_as (in_id row) (oc_status oc) (Some (oc_route oc)) (oc_reason oc) (oc_action oc) (de_now env) s
           in Some (if finished \<and> oc_order oc \<noteq> None \<and> oc_status oc = DONE then placed_once (in_id row) s1 else s1, oc_status oc))
      | None \<Rightarrow> (if existing_order s (in_tenant row) (in_id row) None \<noteq> None then Some (s, CLAIMED) else None))"

definition owner_of :: "dispatch_env \<Rightarrow> intent \<Rightarrow> int option" where
  "owner_of env row =
     (case in_user row of None \<Rightarrow> None
      | Some u \<Rightarrow> if de_users env u = Some (in_tenant row, True) then Some u else None)"

definition auto_paper_enabled :: "dispatch_env \<Rightarrow> intent \<Rightarrow> bool" where
  "auto_paper_enabled env row = (py_upper (in_mode row) = AUTO_PAPER \<and> de_places env row = Some True)"

definition decision_of :: "dispatch_env \<Rightarrow> intent \<Rightarrow> int \<Rightarrow> route \<times> string" where
  "decision_of env row owner =
     decide \<lparr>pi_mode = in_mode row, pi_approval_required = de_approval env (in_tenant row) owner,
             pi_phase0_locked = de_phase0 env (in_tenant row), pi_auto_paper_enabled = auto_paper_enabled env row\<rparr>"

definition route_signal :: "dispatch_env \<Rightarrow> intent \<Rightarrow> int \<Rightarrow> route \<times> string \<Rightarrow> trade_signal \<Rightarrow> core_state \<Rightarrow> (core_state \<times> intent_status) option" where
  "route_signal env row owner decision sg s =
     (let problems = level_problems (in_direction row) (sg_entry sg) (sg_stop_loss sg) (sg_target1 sg) (fst decision \<noteq> ROUTE_NOTIFY)
      in if problems \<noteq> [] then Some (settle (in_id row) REFUSED (Some ROUTE_REFUSE) (LevelsWrong problems) (de_now env) s)
         else if fst decision = ROUTE_NOTIFY then notify_intent env row (snd decision) s
         else if fst decision = ROUTE_PROPOSE then propose env row (snd decision) s
         else if fst decision = ROUTE_PAPER \<and> auto_paper_enabled env row then paper env row owner sg s
         else Some (settle (in_id row) REFUSED (Some ROUTE_REFUSE) (Because WHY_PAPER_NOT_SCAN) (de_now env) s))"

definition first_attempt :: "dispatch_env \<Rightarrow> intent \<Rightarrow> core_state \<Rightarrow> (core_state \<times> intent_status) option" where
  "first_attempt env row s =
     (if de_tenant env (in_tenant row) \<noteq> Some True then
        Some (settle (in_id row) REFUSED (Some ROUTE_REFUSE) (Because ''The organisation is not active: nothing was raised'') (de_now env) s)
      else case owner_of env row of
        None \<Rightarrow> Some (settle (in_id row) REFUSED (Some ROUTE_REFUSE) (Because WHY_OWNER_GONE) (de_now env) s)
      | Some owner \<Rightarrow>
         (let decision = decision_of env row owner in
          if fst decision = ROUTE_REFUSE
          then Some (settle (in_id row) REFUSED (Some ROUTE_REFUSE) (Because (snd decision)) (de_now env) s)
          else case de_signal env (in_signal row) of
            None \<Rightarrow> None
          | Some sg \<Rightarrow> route_signal env row owner decision sg s))"

definition dispatch_one :: "dispatch_env \<Rightarrow> intent \<Rightarrow> core_state \<Rightarrow> (core_state \<times> intent_status) option" where
  "dispatch_one env row s =
     (case earlier_attempt env row s of Some x \<Rightarrow> Some x | None \<Rightarrow> first_attempt env row s)"

section \<open>A drain\<close>

record drain_report =
  dr_claimed :: nat
  dr_done :: nat
  dr_refused :: nat
  dr_failed :: nat
  dr_expired :: nat
  dr_requeued :: nat

definition no_drain :: drain_report where
  "no_drain = \<lparr>dr_claimed = 0, dr_done = 0, dr_refused = 0, dr_failed = 0, dr_expired = 0, dr_requeued = 0\<rparr>"

definition CLAIM_BATCH :: int where "CLAIM_BATCH = 10"

definition count_status :: "intent_status \<Rightarrow> drain_report \<Rightarrow> drain_report" where
  "count_status st rep =
     (if st = DONE then rep\<lparr>dr_done := dr_done rep + 1\<rparr>
      else if st = REFUSED then rep\<lparr>dr_refused := dr_refused rep + 1\<rparr>
      else if st \<noteq> CLAIMED then rep\<lparr>dr_failed := dr_failed rep + 1\<rparr> else rep)"

definition dispatch_guarded :: "dispatch_env \<Rightarrow> intent \<Rightarrow> core_state \<Rightarrow> core_state \<times> intent_status" where
  "dispatch_guarded env row s =
     (case dispatch_one env row s of
        Some x \<Rightarrow> x
      | None \<Rightarrow> settle (in_id row) INTENT_FAILED None (Because ''Dispatch error; the worker log has the details'') (de_now env) s)"

fun dispatch_batch :: "(int \<Rightarrow> dispatch_env) \<Rightarrow> int list \<Rightarrow> core_state \<times> drain_report \<Rightarrow> core_state \<times> drain_report" where
  "dispatch_batch env [] acc = acc"
| "dispatch_batch env (i # is) (s, rep) =
     dispatch_batch env is
       (case intent_row s i of
          None \<Rightarrow> (s, rep)
        | Some row \<Rightarrow>
            (if in_status row \<noteq> CLAIMED then (s, rep)
             else (let (s1, st) = dispatch_guarded (env i) row s in (s1, count_status st rep))))"

text \<open>
  \<open>in_time n\<close>: the deadline has not passed when round \<open>n\<close> begins. Every round claims at least one
  row or ends the loop, so \<open>cap\<close> rounds are enough.
\<close>

fun drain_rounds ::
  "nat \<Rightarrow> nat \<Rightarrow> (nat \<Rightarrow> bool) \<Rightarrow> (int \<Rightarrow> dispatch_env) \<Rightarrow> scope \<Rightarrow> int \<Rightarrow> nat \<Rightarrow> core_state \<times> drain_report \<Rightarrow> core_state \<times> drain_report" where
  "drain_rounds 0 n in_time env sc now cap (s, rep) = (s, rep)"
| "drain_rounds (Suc k) n in_time env sc now cap (s, rep) =
     (if dr_claimed rep < cap \<and> in_time n then
        (let (s1, ids) = claim sc now (min CLAIM_BATCH (int cap - int (dr_claimed rep))) s in
         if ids = [] then (s1, rep)
         else drain_rounds k (Suc n) in_time env sc now cap
                (dispatch_batch env (sort ids) (s1, rep\<lparr>dr_claimed := dr_claimed rep + length ids\<rparr>)))
      else (s, rep))"

definition drain_scope :: "bool \<Rightarrow> int list \<Rightarrow> bool \<times> scope" where
  "drain_scope on tenants = (if on then (True, None) else (tenants \<noteq> [], Some tenants))"

definition drain ::
  "core_config \<Rightarrow> bool \<Rightarrow> int list \<Rightarrow> (nat \<Rightarrow> bool) \<Rightarrow> (int \<Rightarrow> dispatch_env) \<Rightarrow> int \<Rightarrow> nat \<Rightarrow> core_state \<Rightarrow> core_state \<times> drain_report" where
  "drain cf on tenants in_time env now cap s =
     (case drain_scope on tenants of
        (False, _) \<Rightarrow> (s, no_drain)
      | (True, sc) \<Rightarrow>
         (let (s1, expired) = expire_overdue sc now s;
              (s2, requeued, failed) = requeue_stale cf sc now (int cap) s1
          in drain_rounds (Suc cap) 0 in_time env sc now cap
               (s2, no_drain\<lparr>dr_expired := expired, dr_requeued := requeued, dr_failed := failed\<rparr>)))"

section \<open>Frame facts\<close>

lemma finish_as_same [simp]:
  "q_orders (fst (finish_as i st rt w a now s)) = q_orders s"
  "q_proposals (fst (finish_as i st rt w a now s)) = q_proposals s"
  by (simp_all add: finish_as_def finish_def case_prod_beta Let_def)

lemma good_finish_as: "good cf s (fst (finish_as i st rt w a now s))"
proof (cases "finish i st rt w a None now s")
  case (Inr x)
  then show ?thesis using good_finish [of i st rt w a None now s "fst x" "snd x"] by (simp add: finish_as_def)
qed (simp add: finish_as_def)

lemma settle_same [simp]:
  "q_orders (fst (settle i st rt w now s)) = q_orders s" "q_proposals (fst (settle i st rt w now s)) = q_proposals s"
  "snd (settle i st rt w now s) = st"
  by (simp_all add: settle_def)

text \<open>No row with this id is CLAIMED any more.\<close>

definition unclaimed :: "int \<Rightarrow> core_state \<Rightarrow> bool" where
  "unclaimed i s = (\<forall>r \<in> set (q_intents s). in_id r = i \<longrightarrow> in_status r \<noteq> CLAIMED)"

definition finish_row :: "intent_status \<Rightarrow> route option \<Rightarrow> why \<Rightarrow> int option \<Rightarrow> int \<Rightarrow> intent \<Rightarrow> intent" where
  "finish_row st rt w a now r = r\<lparr>in_status := st, in_route := rt, in_reason := Some (cut_reason w), in_finished_at := Some now,
     in_action := (if a = None then in_action r else a)\<rparr>"

lemma finish_as_update:
  assumes "st \<in> set FINAL"
  shows "finish_as i st rt w a now s =
    (fst (update_intents (\<lambda>r. in_id r = i \<and> in_status r = CLAIMED) (finish_row st rt w a now) s),
     \<exists>r \<in> set (q_intents s). in_id r = i \<and> in_status r = CLAIMED)"
proof -
  have e: "(\<lambda>r :: intent. r\<lparr>in_status := st, in_route := rt, in_reason := Some (cut_reason w), in_finished_at := Some now,
      in_action := (if a = None then in_action r else a), in_notification := (if None = None then in_notification r else None)\<rparr>)
      = finish_row st rt w a now" by (simp add: finish_row_def fun_eq_iff)
  show ?thesis
    using assms by (auto simp: finish_as_def finish_def e [simplified] case_prod_beta Let_def filter_empty_conv)
qed

lemma finish_row_simps [simp]: "in_status (finish_row st rt w a now r) = st" "in_id (finish_row st rt w a now r) = in_id r"
  by (simp_all add: finish_row_def)




lemma unclaimed_placed_once [simp]: "unclaimed i (placed_once j s) = unclaimed i s"
  by (simp add: unclaimed_def)




lemma final_words [simp]: "DONE \<in> set FINAL" "REFUSED \<in> set FINAL" "INTENT_FAILED \<in> set FINAL"
  by (simp_all add: FINAL_def)













section \<open>Who writes orders and proposals\<close>

lemma propose_orders: "propose env row w s = Some x \<Longrightarrow> q_orders (fst x) = q_orders s"
  by (auto simp: propose_def propose_outcome_def add_proposal_def split: proposal_answer.splits option.splits)

lemma notify_same: "notify_intent env row w s = Some x \<Longrightarrow> q_orders (fst x) = q_orders s \<and> q_proposals (fst x) = q_proposals s"
  by (auto simp: notify_intent_def case_prod_beta Let_def split: if_splits option.splits)

lemma earlier_same:
  "earlier_attempt env row s = Some x \<Longrightarrow> q_orders (fst x) = q_orders s \<and> q_proposals (fst x) = q_proposals s"
  by (auto simp: earlier_attempt_def case_prod_beta Let_def split: if_splits option.splits)

lemma taken_same:
  "paper_taken env row owner s = Some x \<Longrightarrow> q_orders (fst x) = q_orders s \<and> q_proposals (fst x) = q_proposals s"
  by (auto simp: paper_taken_def split: if_splits option.splits)

lemma taken_None:
  assumes "paper_taken env row owner s = None"
  shows "key_holder s (in_tenant row) (in_id row) = None"
proof (cases "key_holder s (in_tenant row) (in_id row)")
  case (Some t)
  then have t: "t \<in> set (q_orders s)" "tenant_id t = in_tenant row" "idempotency_key t = Some (order_key (in_id row))"
    by (auto simp: key_holder_def find_Some_iff)
  then have "user_id t = owner \<and> mode t = ''PAPER'' \<Longrightarrow> existing_order s (in_tenant row) (in_id row) (Some owner) \<noteq> None"
    by (auto simp: existing_order_def find_None_iff)
  then show ?thesis using assms Some by (auto simp: paper_taken_def split: if_splits option.splits)
qed

definition paper_gates :: "dispatch_env \<Rightarrow> intent \<Rightarrow> int \<Rightarrow> trade_signal \<Rightarrow> core_state \<Rightarrow> bool" where
  "paper_gates env row owner sg s =
     (key_holder s (in_tenant row) (in_id row) = None \<and> \<not> de_approval_again env (in_tenant row) owner \<and>
      (\<exists>f price. de_facts env row = Some f \<and> paper_checks f row sg = CheckPlace price))"

lemma paper_orders:
  assumes "paper env row owner sg s = Some x" "q_orders (fst x) \<noteq> q_orders s"
  shows "paper_gates env row owner sg s"
proof -
  have n: "paper_taken env row owner s = None"
    using assms taken_same [of env row owner s x] by (auto simp: paper_def split: option.splits)
  show ?thesis
    using assms propose_orders taken_None [OF n]
    by (auto simp: paper_gates_def paper_def n split: if_splits option.splits paper_check.splits)
qed

lemma route_orders:
  assumes "route_signal env row owner d sg s = Some x" "q_orders (fst x) \<noteq> q_orders s"
  shows "fst d = ROUTE_PAPER \<and> auto_paper_enabled env row \<and> paper_gates env row owner sg s \<and>
    level_problems (in_direction row) (sg_entry sg) (sg_stop_loss sg) (sg_target1 sg) True = []"
  using assms notify_same [of env row "snd d" s x] propose_orders [of env row "snd d" s x] paper_orders [of env row owner sg s x]
  by (auto simp: route_signal_def Let_def split: if_splits)

lemma first_orders:
  assumes "first_attempt env row s = Some x" "q_orders (fst x) \<noteq> q_orders s"
  obtains owner sg where "de_tenant env (in_tenant row) = Some True" "owner_of env row = Some owner"
    "de_signal env (in_signal row) = Some sg" "route_signal env row owner (decision_of env row owner) sg s = Some x"
  using assms unfolding first_attempt_def Let_def
  by (auto split: if_splits option.splits)

lemma retry_none:
  "earlier_attempt env row s = None \<Longrightarrow> 1 < in_attempts row \<Longrightarrow>
     existing_order s (in_tenant row) (in_id row) None = None \<and> existing_proposal s (in_tenant row) (in_id row) = None"
  by (auto simp: earlier_attempt_def earlier_outcome_def case_prod_beta Let_def split: if_splits option.splits)

section \<open>Properties\<close>

text \<open>
  C19. Dispatching an intent writes an order only through the PAPER pipeline, and only when every gate
  is open at that moment: the organisation and the owner are active, the person asked for Auto PAPER
  and the template is armed, approval-only mode is off at both readings, the levels make an entry
  with a stop on the right side, no order holds the intent's key, every Auto PAPER check passed on a
  live price; and a retried intent has neither an order nor a proposal from before.
\<close>

theorem orders_only_after_every_gate:
  assumes "dispatch_one env row s = Some (s', st)" "q_orders s' \<noteq> q_orders s"
  shows "\<exists>owner sg. de_tenant env (in_tenant row) = Some True \<and> owner_of env row = Some owner \<and>
    clean_mode (in_mode row) = AUTO_PAPER \<and> de_places env row = Some True \<and>
    \<not> de_approval env (in_tenant row) owner \<and> de_signal env (in_signal row) = Some sg \<and>
    level_problems (in_direction row) (sg_entry sg) (sg_stop_loss sg) (sg_target1 sg) True = [] \<and>
    paper_gates env row owner sg s \<and>
    (1 < in_attempts row \<longrightarrow> existing_proposal s (in_tenant row) (in_id row) = None)"
proof -
  have none: "earlier_attempt env row s = None"
    using assms earlier_same [of env row s] by (auto simp: dispatch_one_def split: option.splits)
  then have f: "first_attempt env row s = Some (s', st)" using assms(1) by (simp add: dispatch_one_def)
  obtain owner sg where g: "de_tenant env (in_tenant row) = Some True" "owner_of env row = Some owner"
    "de_signal env (in_signal row) = Some sg" "route_signal env row owner (decision_of env row owner) sg s = Some (s', st)"
    by (rule first_orders [OF f]) (use assms(2) in auto)
  note r = route_orders [OF g(4)]
  have "fst (decision_of env row owner) = ROUTE_PAPER" using r assms(2) by simp
  then have "clean_mode (in_mode row) = AUTO_PAPER" "\<not> de_approval env (in_tenant row) owner"
    by (auto simp: decision_of_def decide_paper)
  then show ?thesis using g r assms(2) retry_none [OF none] by (auto simp: auto_paper_enabled_def)
qed

text \<open>
  C20. A retried intent whose earlier attempt left an order or a proposal never enters twice: the
  dispatch writes no order and no proposal. An order decides before a proposal, and the answer is the
  outcome of that order: waiting while it is in flight, DONE when it filled, REFUSED when it did not.
\<close>

theorem retry_never_enters_twice:
  assumes "1 < in_attempts row"
    and "existing_order s (in_tenant row) (in_id row) None \<noteq> None \<or> existing_proposal s (in_tenant row) (in_id row) \<noteq> None"
  shows "\<exists>s' st. dispatch_one env row s = Some (s', st) \<and> q_orders s' = q_orders s \<and> q_proposals s' = q_proposals s \<and>
    (case existing_order s (in_tenant row) (in_id row) None of
       Some ord \<Rightarrow> st = (if status ord \<in> set IN_FLIGHT_ORDER then CLAIMED
                         else if status ord \<in> set PLACED_ORDER \<or> trade_id ord \<noteq> None then DONE else REFUSED)
     | None \<Rightarrow> st = DONE)"
proof -
  obtain s1 st where x: "earlier_attempt env row s = Some (s1, st)"
    using retry_none [of env row s] assms by (cases "earlier_attempt env row s") auto
  have "(case existing_order s (in_tenant row) (in_id row) None of
       Some ord \<Rightarrow> st = (if status ord \<in> set IN_FLIGHT_ORDER then CLAIMED
                         else if status ord \<in> set PLACED_ORDER \<or> trade_id ord \<noteq> None then DONE else REFUSED)
     | None \<Rightarrow> st = DONE)"
    using x assms by (auto simp: earlier_attempt_def earlier_outcome_def order_outcome_def case_prod_beta Let_def split: if_splits option.splits)
  moreover have "dispatch_one env row s = Some (s1, st)" by (simp add: dispatch_one_def x)
  ultimately show ?thesis using earlier_same [OF x] unfolding fst_conv by blast
qed

text \<open>
  A rejected order of the owner under the intent's key is read in two ways. On a retry the row is
  REFUSED with "was not placed"; but when the order appears after the retry check (attempt one, or
  another attempt's pipeline rejecting it in between), the Auto PAPER step closes the row as DONE with
  "was placed before an interruption", whatever the order's status.
\<close>

theorem rejected_order_closed_as_placed:
  assumes "key_holder s (in_tenant row) (in_id row) = Some ord" "user_id ord = owner" "mode ord = ''PAPER''"
    and "status ord = REJECTED" "trade_id ord = None"
    and "intent_row s (in_id row) = Some row" "in_status row = CLAIMED" "in_user row = Some owner"
  shows "(\<exists>s'. paper env row owner sg s = Some (s', DONE) \<and>
      (\<exists>r. intent_row s' (in_id row) = Some r \<and> in_status r = DONE \<and> in_reason r = Some (OrderPlacedBefore (order_id ord)))) \<and>
    earlier_outcome s (in_tenant row) (in_id row) = order_outcome ord \<and>
    map_option oc_status (order_outcome ord) = Some REFUSED"
proof -
  let ?i = "in_id row"
  have found: "find (\<lambda>q. tenant_id q = in_tenant row \<and> user_id q = owner \<and> mode q = ''PAPER'' \<and> idempotency_key q = Some (order_key ?i)) xs
      = Some ord"
    if "find (\<lambda>q. tenant_id q = in_tenant row \<and> idempotency_key q = Some (order_key ?i)) xs = Some ord" for xs
    using that assms(2,3) by (induction xs) (auto split: if_splits)
  have e: "existing_order s (in_tenant row) ?i (Some owner) = Some ord" "existing_order s (in_tenant row) ?i None = Some ord"
    using found assms(1,6,8) by (simp_all add: existing_order_def key_holder_def)
  have rej: "REJECTED \<notin> set IN_FLIGHT_ORDER" "REJECTED \<notin> set PLACED_ORDER" by (simp_all add: IN_FLIGHT_ORDER_def PLACED_ORDER_def)
  have p: "paper env row owner sg s = Some (settle ?i DONE (Some ROUTE_PAPER) (OrderPlacedBefore (order_id ord)) (de_now env) s)"
    using assms rej e by (simp add: paper_def paper_taken_def)
  have upd: "row_with in_id (map (\<lambda>r. if in_id r = ?i \<and> in_status r = CLAIMED then f r else r) t) ?i = Some (f row)"
    if "row_with in_id t ?i = Some row" "in_id (f row) = ?i" for f :: "intent \<Rightarrow> intent" and t
    using that assms(7) by (induction t) (auto simp: row_with_def split: if_splits)
  have "intent_row (fst (settle ?i DONE (Some ROUTE_PAPER) (OrderPlacedBefore (order_id ord)) (de_now env) s)) ?i =
      Some (finish_row DONE (Some ROUTE_PAPER) (OrderPlacedBefore (order_id ord)) None (de_now env) row)"
    using upd assms(6) by (simp add: settle_def finish_as_update intent_row_def update_where_def)
  then show ?thesis
    using p e(2) rej assms(4,5) by (simp add: earlier_outcome_def order_outcome_def finish_row_def settle_def)
qed


section \<open>Bounds of a drain\<close>

lemma claim_each_length: "length (snd (claim_each now is s)) \<le> length is"
proof (induction "is" arbitrary: s)
  case (Cons i "is")
  have "length (snd (claim_each now is (fst (claim_one now i s)))) \<le> length is" by (rule Cons.IH)
  then show ?case by (simp add: case_prod_beta Let_def le_SucI)
qed simp

lemma claim_length: "1 \<le> limit \<Longrightarrow> int (length (snd (claim sc now limit s))) \<le> limit"
proof -
  assume "1 \<le> limit"
  then have "length (claim_candidates sc now limit s) \<le> nat limit" by (simp add: claim_candidates_def)
  then show ?thesis
    using \<open>1 \<le> limit\<close> claim_each_length [of now "claim_candidates sc now limit s" s] unfolding claim_def by linarith
qed

lemma batch_claimed: "dr_claimed (snd (dispatch_batch env is (s, rep))) = dr_claimed rep"
proof (induction "is" arbitrary: s rep)
  case (Cons i "is")
  have c: "dr_claimed (count_status st r) = dr_claimed r" for st r by (simp add: count_status_def)
  show ?case using Cons by (simp add: case_prod_beta Let_def c split: option.split)
qed simp

lemma drain_rounds_claimed:
  "dr_claimed rep \<le> cap \<Longrightarrow> dr_claimed (snd (drain_rounds k n in_time env sc now cap (s, rep))) \<le> cap"
proof (induction k arbitrary: n s rep)
  case (Suc k)
  let ?c = "claim sc now (min CLAIM_BATCH (int cap - int (dr_claimed rep))) s"
  show ?case
  proof (cases "dr_claimed rep < cap")
    case True
    then have "int (length (snd ?c)) \<le> int cap - int (dr_claimed rep)"
      using claim_length [of "min CLAIM_BATCH (int cap - int (dr_claimed rep))" sc now s] by (simp add: CLAIM_BATCH_def)
    then have le: "dr_claimed rep + length (snd ?c) \<le> cap" by linarith
    obtain s2 r2 where b: "dispatch_batch env (sort (snd ?c)) (fst ?c, rep\<lparr>dr_claimed := dr_claimed rep + length (snd ?c)\<rparr>) = (s2, r2)"
      by fastforce
    have "dr_claimed r2 \<le> cap"
      using batch_claimed [of env "sort (snd ?c)" "fst ?c" "rep\<lparr>dr_claimed := dr_claimed rep + length (snd ?c)\<rparr>"] b le by simp
    then show ?thesis using Suc True b by (simp add: case_prod_beta Let_def)
  next
    case False
    then show ?thesis using Suc by simp
  qed
qed simp

lemma drain_rounds_fuel:
  "cap < dr_claimed rep + k \<Longrightarrow> drain_rounds (k + j) n in_time env sc now cap (s, rep) = drain_rounds k n in_time env sc now cap (s, rep)"
proof (induction k arbitrary: n s rep)
  case 0
  then show ?case by (cases j) simp_all
next
  case (Suc k)
  let ?c = "claim sc now (min CLAIM_BATCH (int cap - int (dr_claimed rep))) s"
  obtain s2 r2 where b: "dispatch_batch env (sort (snd ?c)) (fst ?c, rep\<lparr>dr_claimed := dr_claimed rep + length (snd ?c)\<rparr>) = (s2, r2)"
    by fastforce
  have "dr_claimed r2 = dr_claimed rep + length (snd ?c)"
    using batch_claimed [of env "sort (snd ?c)" "fst ?c" "rep\<lparr>dr_claimed := dr_claimed rep + length (snd ?c)\<rparr>"] b by simp
  then have "snd ?c \<noteq> [] \<Longrightarrow> cap < dr_claimed r2 + k" using Suc.prems by (cases "snd ?c") simp_all
  then show ?case using Suc.IH [of r2 "Suc n" s2] b by (simp add: case_prod_beta Let_def)
qed

text \<open>
  C40. A drain ends and is bounded: it never claims more intents than its cap, and the rounds it is
  given are enough, since with more of them the result is the same.
\<close>

theorem drain_bounded:
  "dr_claimed (snd (drain cf on tenants in_time env now cap s)) \<le> cap \<and>
   drain_rounds (Suc cap + j) n in_time env sc now cap (s, no_drain) = drain_rounds (Suc cap) n in_time env sc now cap (s, no_drain)"
proof -
  have "dr_claimed (snd (drain cf on tenants in_time env now cap s)) \<le> cap"
  proof (cases "drain_scope on tenants")
    case (Pair anything sc)
    have z: "dr_claimed (no_drain\<lparr>dr_expired := a, dr_requeued := b, dr_failed := c\<rparr>) \<le> cap" for a b c
      by (simp add: no_drain_def)
    show ?thesis
    proof (cases anything)
      case True
      obtain s1 e where e: "expire_overdue sc now s = (s1, e)" by fastforce
      obtain s2 a c where q: "requeue_stale cf sc now (int cap) s1 = (s2, a, c)" by (metis prod_cases3)
      have d: "drain cf on tenants in_time env now cap s =
          drain_rounds (Suc cap) 0 in_time env sc now cap (s2, no_drain\<lparr>dr_expired := e, dr_requeued := a, dr_failed := c\<rparr>)"
        unfolding drain_def Pair using True e q by (simp only: prod.case bool.case Let_def)
      show ?thesis unfolding d by (rule drain_rounds_claimed [OF z])
    next
      case False
      then show ?thesis unfolding drain_def Pair by (simp add: no_drain_def)
    qed
  qed
  moreover have "drain_rounds (Suc cap + j) n in_time env sc now cap (s, no_drain) = drain_rounds (Suc cap) n in_time env sc now cap (s, no_drain)"
    by (rule drain_rounds_fuel) (simp add: no_drain_def)
  ultimately show ?thesis by blast
qed

section \<open>Witnesses\<close>

definition demo_claimed :: intent where
  "demo_claimed = demo_row\<lparr>in_mode := AUTO_PAPER, in_status := CLAIMED, in_attempts := 1, in_claimed_at := Some 0\<rparr>"

definition demo_order :: order_row where
  "demo_order = \<lparr>order_id = 40, tenant_id = 1, user_id = 7, idempotency_key = Some ''intent:1'', mode = ''PAPER'',
     strategy_id = [], symbol = ''INFY'', direction = ''LONG'', status = REJECTED, broker_order_id = None, algo_tag = None,
     trade_id = None, signal_json = [], reasons = [], updated_at = 0\<rparr>"

definition demo_core :: "intent \<Rightarrow> order_row list \<Rightarrow> core_state" where
  "demo_core row os = \<lparr>q_intents = [row], q_orders = os, q_proposals = [], q_next = 50, q_announced = []\<rparr>"

definition demo_facts :: paper_facts where
  "demo_facts = \<lparr>pf_can_trade = True, pf_paused = None, pf_locked = None, pf_caps = [], pf_late = None, pf_limit = None,
     pf_quote = Quote 100, pf_own_drift = None, pf_max_ticks = 0, pf_tick_size = 1\<rparr>"

definition demo_dispatch :: dispatch_env where
  "demo_dispatch = \<lparr>de_now = 60, de_tenant = (\<lambda>_. Some True), de_users = demo_users, de_places = (\<lambda>_. Some True),
     de_approval = (\<lambda>_ _. False), de_approval_again = (\<lambda>_ _. False), de_phase0 = (\<lambda>_. True),
     de_signal = (\<lambda>_. Some \<lparr>sg_entry = Some 100, sg_stop_loss = Some 95, sg_target1 = Some 110\<rparr>),
     de_facts = (\<lambda>_. Some demo_facts), de_propose = (\<lambda>_ _. NewProposal),
     de_pipeline = (\<lambda>s _ _. (s\<lparr>q_orders := q_orders s @ [demo_order\<lparr>status := POSITION_OPEN, trade_id := Some 3\<rparr>]\<rparr>,
        Pipeline True (demo_order\<lparr>status := POSITION_OPEN, trade_id := Some 3\<rparr>) [])),
     de_notification = (\<lambda>_. Some 9)\<rparr>"

theorem orders_only_after_every_gate_witness:
  "\<exists>s'. dispatch_one demo_dispatch demo_claimed (demo_core demo_claimed []) = Some (s', DONE) \<and> q_orders s' \<noteq> [] \<and>
     clean_mode (in_mode demo_claimed) = AUTO_PAPER"
proof -
  let ?s = "demo_core demo_claimed []"
  have d: "map_option snd (dispatch_one demo_dispatch demo_claimed ?s) = Some DONE"
    "map_option (\<lambda>x. q_orders (fst x) \<noteq> []) (dispatch_one demo_dispatch demo_claimed ?s) = Some True" by code_simp+
  then obtain s' where s': "dispatch_one demo_dispatch demo_claimed ?s = Some (s', DONE)" "q_orders s' \<noteq> []" by auto
  have "q_orders s' \<noteq> q_orders ?s" using s'(2) by (simp add: demo_core_def)
  then show ?thesis using s' orders_only_after_every_gate [OF s'(1)] by blast
qed

theorem retry_never_enters_twice_witness:
  "\<exists>s'. dispatch_one demo_dispatch (demo_claimed\<lparr>in_attempts := 2\<rparr>) (demo_core (demo_claimed\<lparr>in_attempts := 2\<rparr>) [demo_order]) = Some (s', REFUSED)
     \<and> q_orders s' = [demo_order]"
proof -
  let ?r = "demo_claimed\<lparr>in_attempts := 2\<rparr>" and ?s = "demo_core (demo_claimed\<lparr>in_attempts := 2\<rparr>) [demo_order]"
  have e: "existing_order ?s (in_tenant ?r) (in_id ?r) None = Some demo_order" by code_simp
  have o: "status demo_order = REJECTED" "trade_id demo_order = None" "q_orders ?s = [demo_order]"
    by (simp_all add: demo_order_def demo_core_def)
  show ?thesis using retry_never_enters_twice [of ?r ?s demo_dispatch] e o
    by (auto simp: IN_FLIGHT_ORDER_def PLACED_ORDER_def)
qed

theorem rejected_order_closed_as_placed_witness:
  "\<exists>s'. paper demo_dispatch demo_claimed 7 \<lparr>sg_entry = Some 100, sg_stop_loss = Some 95, sg_target1 = None\<rparr>
     (demo_core demo_claimed [demo_order]) = Some (s', DONE)"
proof -
  let ?s = "demo_core demo_claimed [demo_order]"
  have a: "key_holder ?s (in_tenant demo_claimed) (in_id demo_claimed) = Some demo_order"
    "intent_row ?s (in_id demo_claimed) = Some demo_claimed" "in_status demo_claimed = CLAIMED" "in_user demo_claimed = Some 7"
    by code_simp+
  have o: "user_id demo_order = 7" "mode demo_order = ''PAPER''" "status demo_order = REJECTED" "trade_id demo_order = None"
    by (simp_all add: demo_order_def)
  show ?thesis using rejected_order_closed_as_placed [OF a(1) o a(2,3,4)] by blast
qed


end
