(* ===== verification/BrokerHealth.thy ===== *)
theory BrokerHealth
  imports Pyfloat Tagging
begin

text \<open>
  Two gates in front of a broker: the circuit breaker of \<open>app/brokers/circuit_breaker.py\<close> and the
  orders-per-second throttle of \<open>app/execution/ops_throttle.py\<close>. Every operation takes the readings of
  the monotonic clock it makes, as binary64 seconds; metrics and log lines are left out.
\<close>

section \<open>The circuit breaker\<close>

datatype circuit_state = CIRCUIT_CLOSED | CIRCUIT_OPEN | CIRCUIT_HALF_OPEN

datatype broker_exc = AuthenticationError | OrderRejected | ApiError "int option" | OtherError

fun is_health_failure :: "broker_exc \<Rightarrow> bool" where
  "is_health_failure AuthenticationError = False"
| "is_health_failure OrderRejected = False"
| "is_health_failure (ApiError None) = True"
| "is_health_failure (ApiError (Some code)) = (code = 429 \<or> 500 \<le> code)"
| "is_health_failure OtherError = True"

record breaker =
  cb_window :: pyfloat
  cb_min_calls :: nat
  cb_ratio :: pyfloat
  cb_open_seconds :: pyfloat
  cb_events :: "(pyfloat \<times> bool) list"
  cb_state :: circuit_state
  cb_opened_at :: "pyfloat option"
  cb_probe :: bool
  cb_opened_count :: nat

definition new_breaker :: "pyfloat \<Rightarrow> nat \<Rightarrow> pyfloat \<Rightarrow> pyfloat \<Rightarrow> breaker" where
  "new_breaker window min_calls ratio open_seconds =
     \<lparr>cb_window = window, cb_min_calls = min_calls, cb_ratio = ratio, cb_open_seconds = open_seconds, cb_events = [],
      cb_state = CIRCUIT_CLOSED, cb_opened_at = None, cb_probe = False, cb_opened_count = 0\<rparr>"

definition prune :: "pyfloat \<Rightarrow> breaker \<Rightarrow> breaker" where
  "prune now b = b\<lparr>cb_events := dropWhile (\<lambda>e. fst e < fsub now (cb_window b)) (cb_events b)\<rparr>"

definition counts :: "breaker \<Rightarrow> nat \<times> nat" where
  "counts b = (length (filter snd (cb_events b)), length (cb_events b))"

definition open_circuit :: "pyfloat \<Rightarrow> breaker \<Rightarrow> breaker" where
  "open_circuit now b = b\<lparr>cb_state := CIRCUIT_OPEN, cb_opened_at := Some now, cb_probe := False,
     cb_opened_count := cb_opened_count b + 1\<rparr>"

definition close_circuit :: "breaker \<Rightarrow> breaker" where
  "close_circuit b = b\<lparr>cb_state := CIRCUIT_CLOSED, cb_opened_at := None, cb_probe := False, cb_events := []\<rparr>"

definition record_success :: "pyfloat \<Rightarrow> breaker \<Rightarrow> breaker" where
  "record_success now b =
     (let b1 = prune now (b\<lparr>cb_events := cb_events b @ [(now, False)]\<rparr>)
      in if cb_state b1 = CIRCUIT_HALF_OPEN then close_circuit b1 else b1)"

text \<open>More failures than the ratio allows, once there are enough calls in the window.\<close>

definition too_many_failures :: "breaker \<Rightarrow> bool" where
  "too_many_failures b =
     (let (failures, total) = counts b
      in cb_min_calls b \<le> total \<and> cb_ratio b < fdiv (of_nat failures) (of_nat total))"

text \<open>\<open>now2\<close>: the clock read again by \<open>counts\<close>.\<close>

definition record_failure :: "pyfloat \<Rightarrow> pyfloat \<Rightarrow> breaker \<Rightarrow> breaker" where
  "record_failure now now2 b =
     (let b1 = prune now (b\<lparr>cb_events := cb_events b @ [(now, True)]\<rparr>) in
      case cb_state b1 of
        CIRCUIT_HALF_OPEN \<Rightarrow> open_circuit now b1
      | CIRCUIT_CLOSED \<Rightarrow> (let b2 = prune now2 b1 in if too_many_failures b2 then open_circuit now b2 else b2)
      | CIRCUIT_OPEN \<Rightarrow> b1)"

definition record_call :: "broker_exc option \<Rightarrow> pyfloat \<Rightarrow> pyfloat \<Rightarrow> breaker \<Rightarrow> breaker" where
  "record_call exc now now2 b =
     (case exc of None \<Rightarrow> record_success now b
      | Some e \<Rightarrow> if is_health_failure e then record_failure now now2 b else b)"

text \<open>Reading \<open>state\<close> moves an open breaker to half-open once its time is over.\<close>

definition read_state :: "pyfloat \<Rightarrow> breaker \<Rightarrow> breaker" where
  "read_state now b =
     (case cb_opened_at b of
        Some t \<Rightarrow> if cb_state b = CIRCUIT_OPEN \<and> cb_open_seconds b \<le> fsub now t then b\<lparr>cb_state := CIRCUIT_HALF_OPEN\<rparr> else b
      | None \<Rightarrow> b)"

definition allow_submission :: "pyfloat \<Rightarrow> breaker \<Rightarrow> breaker \<times> bool" where
  "allow_submission now b =
     (let b1 = read_state now b in
      if cb_state b1 = CIRCUIT_CLOSED then (b1, True)
      else if cb_state b1 = CIRCUIT_HALF_OPEN \<and> \<not> cb_probe b1 then (b1\<lparr>cb_probe := True\<rparr>, True)
      else (b1, False))"

definition seconds_until_half_open :: "pyfloat \<Rightarrow> breaker \<Rightarrow> pyfloat" where
  "seconds_until_half_open now b =
     (case cb_opened_at b of
        Some t \<Rightarrow> if cb_state b \<noteq> CIRCUIT_OPEN then 0 else max 0 (fsub (cb_open_seconds b) (fsub now t))
      | None \<Rightarrow> 0)"

definition breaker_for :: "breaker \<Rightarrow> (string, breaker) dict \<Rightarrow> string option \<Rightarrow> string \<times> breaker" where
  "breaker_for fresh reg name =
     (let key = py_lower (str_or name ''unknown'')
      in (key, case dict_get reg key of Some b \<Rightarrow> b | None \<Rightarrow> fresh))"

definition observe_call ::
  "breaker \<Rightarrow> string option \<Rightarrow> broker_exc option \<Rightarrow> pyfloat \<Rightarrow> pyfloat \<Rightarrow> (string, breaker) dict \<Rightarrow> (string, breaker) dict" where
  "observe_call fresh name exc now now2 reg =
     (let (key, b) = breaker_for fresh reg name in dict_set key (record_call exc now now2 b) reg)"

section \<open>Traces of the breaker\<close>

datatype breaker_event = Ask pyfloat | Outcome "broker_exc option" pyfloat pyfloat

fun breaker_run :: "breaker_event list \<Rightarrow> breaker \<Rightarrow> breaker \<times> bool list" where
  "breaker_run [] b = (b, [])"
| "breaker_run (Ask now # es) b =
     (let (b1, ok) = allow_submission now b; (b2, oks) = breaker_run es b1 in (b2, ok # oks))"
| "breaker_run (Outcome exc now now2 # es) b = breaker_run es (record_call exc now now2 b)"

text \<open>The broker answered, but with a business refusal: the breaker records nothing.\<close>

fun business_event :: "breaker_event \<Rightarrow> bool" where
  "business_event (Ask _) = True"
| "business_event (Outcome None _ _) = False"
| "business_event (Outcome (Some e) _ _) = (\<not> is_health_failure e)"

lemma breaker_run_Ask:
  "breaker_run (Ask now # es) b =
     (fst (breaker_run es (fst (allow_submission now b))),
      snd (allow_submission now b) # snd (breaker_run es (fst (allow_submission now b))))"
  by (simp add: case_prod_beta Let_def)

lemma business_record: "business_event (Outcome exc now now2) \<Longrightarrow> record_call exc now now2 b = b"
  by (cases exc) (simp_all add: record_call_def)

definition used_up :: "breaker \<Rightarrow> bool" where
  "used_up b = (cb_state b = CIRCUIT_HALF_OPEN \<and> cb_probe b)"

lemma used_up_ask: "used_up b \<Longrightarrow> fst (allow_submission now b) = b \<and> \<not> snd (allow_submission now b)"
  by (auto simp: used_up_def allow_submission_def read_state_def Let_def split: option.splits)

lemma used_up_run: "used_up b \<Longrightarrow> list_all business_event es \<Longrightarrow> fst (breaker_run es b) = b \<and> True \<notin> set (snd (breaker_run es b))"
proof (induction es)
  case (Cons e es)
  show ?case
  proof (cases e)
    case (Ask now)
    then show ?thesis using Cons used_up_ask [of b now] by (simp add: breaker_run_Ask del: breaker_run.simps(2))
  next
    case (Outcome exc now now2)
    then show ?thesis using Cons business_record [of exc now now2 b] by simp
  qed
qed simp








text \<open>
  A probe the broker answers with a business refusal (insufficient margin, invalid instrument,
  expired token) is never cleared: from then on every entry is refused, however much time passes,
  until some other call to the broker is recorded as a success or a failure.
\<close>

theorem breaker_probe_leaks:
  assumes "cb_state b = CIRCUIT_HALF_OPEN" "\<not> cb_probe b" "\<not> is_health_failure e" "list_all business_event es"
  shows "snd (allow_submission t0 b) \<and>
    True \<notin> set (snd (breaker_run (Outcome (Some e) t1 t2 # es) (fst (allow_submission t0 b))))"
proof -
  have a: "snd (allow_submission t0 b)" "used_up (fst (allow_submission t0 b))"
    using assms(1,2) by (auto simp: allow_submission_def read_state_def used_up_def Let_def split: option.splits)
  then show ?thesis using used_up_run [OF a(2), of "Outcome (Some e) t1 t2 # es"] assms(3,4) by simp
qed

section \<open>The orders-per-second throttle\<close>

definition is_entry :: "string option \<Rightarrow> bool" where
  "is_entry tag =
     (let t = py_upper (str_or tag []) in t = LEG_ENTRY \<or> (length t \<ge> 4 \<and> drop (length t - 4) t = ''-'' @ LEG_ENTRY))"

record bucket =
  bk_rate :: pyfloat
  bk_capacity :: pyfloat
  bk_tokens :: pyfloat
  bk_updated :: pyfloat
  bk_paused_until :: pyfloat
  bk_exits_waiting :: nat
  bk_backoff_step :: nat

definition new_bucket :: "pyfloat \<Rightarrow> pyfloat \<Rightarrow> bucket" where
  "new_bucket rate now = \<lparr>bk_rate = rate, bk_capacity = max 1 rate, bk_tokens = max 1 rate, bk_updated = now,
     bk_paused_until = 0, bk_exits_waiting = 0, bk_backoff_step = 0\<rparr>"

definition refill :: "pyfloat \<Rightarrow> bucket \<Rightarrow> bucket" where
  "refill now k = k\<lparr>bk_tokens := min (bk_capacity k) (fadd (bk_tokens k) (fmul (fsub now (bk_updated k)) (bk_rate k))),
     bk_updated := now\<rparr>"

definition wait_for_token :: "pyfloat \<Rightarrow> bucket \<Rightarrow> bucket \<times> pyfloat" where
  "wait_for_token now k =
     (let k1 = refill now k in
      (k1, if now < bk_paused_until k1 then fsub (bk_paused_until k1) now
           else if 1 \<le> bk_tokens k1 then 0 else fdiv (fsub 1 (bk_tokens k1)) (bk_rate k1)))"

definition take_token :: "bucket \<Rightarrow> bucket" where
  "take_token k = k\<lparr>bk_tokens := fsub (bk_tokens k) 1\<rparr>"

definition try_entry :: "pyfloat \<Rightarrow> bucket \<Rightarrow> bucket \<times> bool" where
  "try_entry now k =
     (if bk_exits_waiting k \<noteq> 0 then (k, False)
      else (let (k1, wait) = wait_for_token now k in if 0 < wait then (k1, False) else (take_token k1, True)))"

text \<open>
  The exit lane: it counts as waiting while it polls, sleeping between the clock readings \<open>ts\<close>, and
  answers the seconds waited; \<open>None\<close> when the readings end before a token is free.
\<close>

fun exit_polls :: "pyfloat list \<Rightarrow> pyfloat \<Rightarrow> bucket \<Rightarrow> (bucket \<times> pyfloat) option" where
  "exit_polls [] waited k = None"
| "exit_polls (now # ts) waited k =
     (let (k1, wait) = wait_for_token now k in
      if wait \<le> 0 then Some (take_token k1, waited) else exit_polls ts (fadd waited wait) k1)"

definition exit_begin :: "bucket \<Rightarrow> bucket" where
  "exit_begin k = k\<lparr>bk_exits_waiting := bk_exits_waiting k + 1\<rparr>"

definition exit_end :: "bucket \<Rightarrow> bucket" where
  "exit_end k = k\<lparr>bk_exits_waiting := bk_exits_waiting k - 1\<rparr>"

definition exit_lane :: "pyfloat list \<Rightarrow> bucket \<Rightarrow> (bucket \<times> pyfloat) option" where
  "exit_lane ts k = map_option (\<lambda>x. (exit_end (fst x), snd x)) (exit_polls ts 0 (exit_begin k))"

record throttle =
  th_rate :: pyfloat
  th_backoff :: "pyfloat list"
  th_critical_after :: nat
  th_buckets :: "(string, bucket) dict"
  th_order_exchange :: "(string, string) dict"
  th_consecutive_429 :: nat

definition bucket_key :: "string option \<Rightarrow> string" where
  "bucket_key exchange = py_upper (str_or exchange ''*'')"

definition bucket_of :: "pyfloat \<Rightarrow> string option \<Rightarrow> throttle \<Rightarrow> bucket" where
  "bucket_of now exchange th =
     (case dict_get (th_buckets th) (bucket_key exchange) of Some k \<Rightarrow> k | None \<Rightarrow> new_bucket (th_rate th) now)"

definition set_bucket :: "string option \<Rightarrow> bucket \<Rightarrow> throttle \<Rightarrow> throttle" where
  "set_bucket exchange k th = th\<lparr>th_buckets := dict_set (bucket_key exchange) k (th_buckets th)\<rparr>"

definition remember :: "string \<Rightarrow> string \<Rightarrow> throttle \<Rightarrow> throttle" where
  "remember ord_id exchange th =
     (if ord_id = [] then th else th\<lparr>th_order_exchange := dict_set ord_id exchange (th_order_exchange th)\<rparr>)"

definition throttle_entry :: "pyfloat \<Rightarrow> string option \<Rightarrow> throttle \<Rightarrow> throttle \<times> bool" where
  "throttle_entry now exchange th =
     (let (k, ok) = try_entry now (bucket_of now exchange th) in (set_bucket exchange k th, ok))"

text \<open>A broker 429: the next back-off step; the answer is the pause and whether it is critical.\<close>

definition rate_limited :: "pyfloat \<Rightarrow> string option \<Rightarrow> throttle \<Rightarrow> throttle \<times> pyfloat \<times> bool" where
  "rate_limited now exchange th =
     (let k = bucket_of now exchange th;
          pause = th_backoff th ! min (bk_backoff_step k) (length (th_backoff th) - 1);
          k1 = k\<lparr>bk_backoff_step := bk_backoff_step k + 1, bk_paused_until := max (bk_paused_until k) (fadd now pause)\<rparr>;
          n = th_consecutive_429 th + 1
      in (set_bucket exchange k1 (th\<lparr>th_consecutive_429 := n\<rparr>), pause, th_critical_after th \<le> n))"

definition accepted :: "pyfloat \<Rightarrow> string option \<Rightarrow> throttle \<Rightarrow> throttle" where
  "accepted now exchange th =
     (let k = bucket_of now exchange th
      in set_bucket exchange (k\<lparr>bk_backoff_step := 0\<rparr>) (th\<lparr>th_consecutive_429 := 0\<rparr>))"

section \<open>What a bucket keeps\<close>


definition bucket_inv :: "bucket \<Rightarrow> bool" where
  "bucket_inv k = (0 \<le> bk_tokens k \<and> bk_tokens k \<le> bk_capacity k \<and> is64 (bk_tokens k) \<and> is64 (bk_capacity k) \<and> bk_capacity k < 2 ^ 53 \<and>
     0 < bk_rate k \<and> bk_rate k \<le> bk_capacity k \<and> is64 (bk_paused_until k))"

lemma is64_min: "is64 a \<Longrightarrow> is64 b \<Longrightarrow> is64 (min a b)"
  by (simp add: min_def)

lemma refill_inv:
  assumes "bucket_inv k" "bk_updated k \<le> now"
  shows "bucket_inv (refill now k)" "bk_tokens k \<le> bk_tokens (refill now k)"
proof -
  have f: "0 \<le> fmul (fsub now (bk_updated k)) (bk_rate k)"
    using assms by (intro fmul_nonneg fsub_nonneg) (auto simp: bucket_inv_def)
  then have "fl (bk_tokens k) \<le> fadd (bk_tokens k) (fmul (fsub now (bk_updated k)) (bk_rate k))"
    unfolding fadd_def by (intro fl_mono) simp
  then have g: "bk_tokens k \<le> fadd (bk_tokens k) (fmul (fsub now (bk_updated k)) (bk_rate k))"
    using assms(1) by (simp add: bucket_inv_def is64_def)
  then show "bk_tokens k \<le> bk_tokens (refill now k)" using assms(1) by (simp add: refill_def bucket_inv_def)
  have "is64 (min (bk_capacity k) (fadd (bk_tokens k) (fmul (fsub now (bk_updated k)) (bk_rate k))))"
    using assms(1) by (intro is64_min) (simp_all add: fadd_def bucket_inv_def)
  then show "bucket_inv (refill now k)"
    using assms(1) g by (auto simp: refill_def bucket_inv_def)
qed


lemma below_one:
  assumes "is64 t" "0 \<le> t" "t < 1"
  shows "2 powi (- 53) \<le> 1 - t"
proof (cases "t \<le> 1 / 2")
  case True
  have "(2 powi (- 53) :: rat) \<le> 2 powi (- 1)" by (rule powi2_mono) simp
  then show ?thesis using True by (simp add: power_int_minus)
next
  case False
  let ?m = "rhe (t / 2 powi (- 53))"
  have f: "flog2 t = - 1" by (rule flog2_unique) (use False assms(3) in \<open>simp_all add: power_int_minus\<close>)
  have t: "t = of_int ?m * 2 powi (- 53)"
    using assms(1) False f by (auto simp: is64_def fl_def Let_def ulp_exp_def)
  have "(of_int ?m :: rat) * 2 powi (- 53) < of_int (2 ^ 53) * 2 powi (- 53)"
    using t assms(3) by (simp add: power_int_minus)
  then have "(of_int ?m :: rat) < of_int (2 ^ 53)" by (simp add: mult_less_cancel_right)
  then have "?m < 2 ^ 53" by (simp only: of_int_less_iff)
  then have "(of_int ?m :: rat) \<le> of_int (2 ^ 53 - 1)" by (simp only: of_int_le_iff)
  then have "(of_int ?m :: rat) * 2 powi (- 53) \<le> of_int (2 ^ 53 - 1) * 2 powi (- 53)" by (intro mult_right_mono) auto
  then have "t \<le> of_int (2 ^ 53 - 1) * 2 powi (- 53)" using t by simp
  also have "\<dots> = 1 - 2 powi (- 53)" by (simp add: power_int_minus)
  finally show ?thesis by simp
qed

lemma fl_powi: "- 1074 \<le> e \<Longrightarrow> fl (2 powi e) = 2 powi e"
  using fl_scaled [of 1 e] by simp

lemma wait_positive:
  assumes "bucket_inv k" "bk_tokens k < 1"
  shows "0 < fdiv (fsub 1 (bk_tokens k)) (bk_rate k)"
proof -
  have r: "0 < bk_rate k" "bk_rate k \<le> 2 powi 53" using assms(1) by (auto simp: bucket_inv_def)
  have "2 powi (- 53) \<le> 1 - bk_tokens k" using assms by (intro below_one) (auto simp: bucket_inv_def)
  then have "fl (2 powi (- 53)) \<le> fsub 1 (bk_tokens k)" unfolding fsub_def by (rule fl_mono)
  then have "2 powi (- 53) \<le> fsub 1 (bk_tokens k)" using fl_powi [of "- 53"] by simp
  then have "(2 powi (- 53) / 2 powi 53 :: rat) \<le> fsub 1 (bk_tokens k) / bk_rate k" using r by (intro frac_le) auto
  moreover have "(2 powi (- 53) / 2 powi 53 :: rat) = 2 powi (- 106)" by (simp add: power_int_minus)
  ultimately have "fl (2 powi (- 106)) \<le> fdiv (fsub 1 (bk_tokens k)) (bk_rate k)"
    unfolding fdiv_def by (intro fl_mono) simp
  moreover have "(0 :: rat) < fl (2 powi (- 106))" using fl_powi [of "- 106"] by simp
  ultimately show ?thesis by linarith
qed

section \<open>Runs of a bucket\<close>

datatype lane = EntryLane | ExitPoll

definition attempt :: "lane \<Rightarrow> pyfloat \<Rightarrow> bucket \<Rightarrow> bucket \<times> bool" where
  "attempt l now k =
     (case l of EntryLane \<Rightarrow> try_entry now k
      | ExitPoll \<Rightarrow> (let (k1, wait) = wait_for_token now k in if wait \<le> 0 then (take_token k1, True) else (k1, False)))"


lemma free_token:
  assumes "bucket_inv (refill now k)" "is64 now"
  shows "snd (wait_for_token now k) \<le> 0 \<longleftrightarrow> bk_paused_until k \<le> now \<and> 1 \<le> bk_tokens (refill now k)"
proof -
  let ?k = "refill now k"
  have p: "bk_paused_until ?k = bk_paused_until k" by (simp add: refill_def)
  have w: "snd (wait_for_token now k) = (if now < bk_paused_until k then fsub (bk_paused_until k) now
      else if 1 \<le> bk_tokens ?k then 0 else fdiv (fsub 1 (bk_tokens ?k)) (bk_rate ?k))"
    by (simp add: wait_for_token_def Let_def p)
  have a: "now < bk_paused_until k \<Longrightarrow> 0 < fsub (bk_paused_until k) now"
    using assms p by (intro fsub_pos) (auto simp: bucket_inv_def)
  have b: "\<not> 1 \<le> bk_tokens ?k \<Longrightarrow> 0 < fdiv (fsub 1 (bk_tokens ?k)) (bk_rate ?k)"
    by (rule wait_positive [OF assms(1)]) simp
  show ?thesis
  proof (cases "now < bk_paused_until k")
    case True
    then show ?thesis using a w by simp
  next
    case False
    then show ?thesis using b w by (cases "1 \<le> bk_tokens ?k") simp_all
  qed
qed

lemma fst_wait [simp]: "fst (wait_for_token now k) = refill now k"
  by (simp add: wait_for_token_def Let_def)

definition refused_early :: "lane \<Rightarrow> bucket \<Rightarrow> bool" where
  "refused_early l k = (l = EntryLane \<and> bk_exits_waiting k \<noteq> 0)"

text \<open>An attempt is refused early, finds no free token, or takes exactly one.\<close>

lemma attempt_cases:
  assumes "bucket_inv k" "bk_updated k \<le> now" "is64 now"
  shows "attempt l now k =
    (if refused_early l k then (k, False)
     else if bk_paused_until k \<le> now \<and> 1 \<le> bk_tokens (refill now k) then (take_token (refill now k), True)
     else (refill now k, False))"
proof -
  have f: "snd (wait_for_token now k) \<le> 0 \<longleftrightarrow> bk_paused_until k \<le> now \<and> 1 \<le> bk_tokens (refill now k)"
    by (rule free_token [OF refill_inv(1) [OF assms(1,2)] assms(3)])
  show ?thesis
    unfolding f [symmetric] attempt_def try_entry_def refused_early_def
    by (cases l) (simp_all add: case_prod_beta Let_def not_less)
qed


lemma refill_fields [simp]: "bk_updated (refill now k) = now" "bk_capacity (refill now k) = bk_capacity k"
  "bk_updated (take_token k) = bk_updated k" "bk_capacity (take_token k) = bk_capacity k"
  by (simp_all add: refill_def take_token_def)



definition grants_at :: "pyfloat \<Rightarrow> (pyfloat \<times> bool) list \<Rightarrow> nat" where
  "grants_at t oks = length (filter (\<lambda>(u, ok). u = t \<and> ok) oks)"

lemma grants_at_simps [simp]: "grants_at t [] = 0"
  "grants_at t ((u, ok) # oks) = (if u = t \<and> ok then 1 else 0) + grants_at t oks"
  by (simp_all add: grants_at_def)






text \<open>
  Exits first: an entry takes a token only when no exit is waiting on the same exchange, the
  exchange is not paused after a 429 and a whole token is there; a 429 pauses every lane of that
  exchange until its back-off is over, and never another exchange.
\<close>

theorem exits_go_first:
  assumes "bucket_inv (bucket_of now x th)" "bk_updated (bucket_of now x th) \<le> now" "is64 now"
    and "throttle_entry now x th = (th', True)"
  shows "bk_exits_waiting (bucket_of now x th) = 0 \<and> bk_paused_until (bucket_of now x th) \<le> now \<and>
    1 \<le> bk_tokens (refill now (bucket_of now x th)) \<and>
    (bucket_key y \<noteq> bucket_key x \<longrightarrow> bucket_of now y th' = bucket_of now y th) \<and>
    (\<forall>pause th2 crit. rate_limited now x th' = (th2, pause, crit) \<longrightarrow>
       fadd now pause \<le> bk_paused_until (bucket_of now x th2) \<and>
       (bucket_key y \<noteq> bucket_key x \<longrightarrow> bucket_of now y th2 = bucket_of now y th))"
proof -
  let ?k = "bucket_of now x th"
  have ok: "snd (attempt EntryLane now ?k)" and th': "th' = set_bucket x (fst (attempt EntryLane now ?k)) th"
    using assms(4) by (auto simp: throttle_entry_def attempt_def case_prod_beta Let_def)
  have other: "bucket_key y \<noteq> bucket_key x \<Longrightarrow> bucket_of now y (set_bucket x k q) = bucket_of now y q" for k q y
    by (simp add: bucket_of_def set_bucket_def split: option.split)
  have same: "bucket_of now x (set_bucket x k q) = k" for k q by (simp add: bucket_of_def set_bucket_def)
  have 429: "bucket_of now z (q\<lparr>th_consecutive_429 := n\<rparr>) = bucket_of now z q" for z q n
    by (simp add: bucket_of_def split: option.split)
  show ?thesis
    using ok attempt_cases [OF assms(1-3), of EntryLane]
    by (auto simp: refused_early_def th' other same 429 rate_limited_def Let_def split: if_splits)
qed

section \<open>Witnesses\<close>

definition demo_breaker :: breaker where
  "demo_breaker = (new_breaker 60 2 (1/2) 30)\<lparr>cb_events := [(0, True)]\<rparr>"


theorem breaker_probe_leaks_witness:
  "True \<notin> set (snd (breaker_run [Outcome (Some OrderRejected) 40 40, Ask 1000000]
     (fst (allow_submission 39 (demo_breaker\<lparr>cb_state := CIRCUIT_HALF_OPEN\<rparr>)))))"
proof -
  have a: "cb_state (demo_breaker\<lparr>cb_state := CIRCUIT_HALF_OPEN\<rparr>) = CIRCUIT_HALF_OPEN"
    "\<not> cb_probe (demo_breaker\<lparr>cb_state := CIRCUIT_HALF_OPEN\<rparr>)" by code_simp+
  show ?thesis using breaker_probe_leaks [OF a, of OrderRejected "[Ask 1000000]" 39 40 40] by simp
qed


definition demo_throttle :: throttle where
  "demo_throttle = \<lparr>th_rate = 10, th_backoff = [1, 2], th_critical_after = 3, th_buckets = [(''NSE'', new_bucket 10 0)],
     th_order_exchange = [], th_consecutive_429 = 0\<rparr>"

theorem exits_go_first_witness:
  "bk_exits_waiting (bucket_of 1 (Some ''NSE'') demo_throttle) = 0 \<and>
   1 \<le> bk_tokens (refill 1 (bucket_of 1 (Some ''NSE'') demo_throttle))"
proof -
  have k: "bucket_of 1 (Some ''NSE'') demo_throttle = new_bucket 10 0" by code_simp
  have i: "is64 10" "is64 1" using fl_of_int [of 10] fl_of_int [of 1] by (simp_all add: is64_def)
  have "bucket_inv (new_bucket 10 0)" using i by (simp add: bucket_inv_def new_bucket_def is64_def)
  moreover have "bk_updated (new_bucket 10 0) \<le> 1" by (simp add: new_bucket_def)
  moreover obtain th' where "throttle_entry 1 (Some ''NSE'') demo_throttle = (th', True)"
  proof -
    have "snd (throttle_entry 1 (Some ''NSE'') demo_throttle)" by code_simp
    then show ?thesis using that by (metis (full_types) prod.collapse)
  qed
  ultimately show ?thesis using exits_go_first [of 1 "Some ''NSE''" demo_throttle th'] i(2) by (simp add: k)
qed

end
