(* ===== verification/ExitSafety.thy ===== *)
theory ExitSafety
  imports Pyfloat
begin

text \<open>
  Exit safety helpers: \<open>app/execution/order_safety.py\<close> and the product rule of
  \<open>app/execution/products.py\<close>. A loosely typed field is a \<open>pyval\<close>; \<open>float(s)\<close> of a text is the parameter
  \<open>parse\<close>. A reason is data, the code words it.
\<close>

section \<open>Values\<close>

datatype pyval = VNone | VBool bool | VInt int | VFloat pyfloat | VStr string

definition PROTECTION_MIN :: int where "PROTECTION_MIN = 1"
definition PROTECTION_MAX :: int where "PROTECTION_MAX = 25"
definition AUTO_PROTECTION :: int where "AUTO_PROTECTION = - 1"

text \<open>\<open>int(str(v))\<close> never reads the text of a float (it has a point or an exponent).\<close>

definition market_protection_pct :: "pyval \<Rightarrow> int option" where
  "market_protection_pct value =
     (case (case value of VInt n \<Rightarrow> Some n | VStr s \<Rightarrow> py_int_of s | _ \<Rightarrow> None) of
        None \<Rightarrow> None
      | Some v \<Rightarrow> if PROTECTION_MIN \<le> v \<and> v \<le> PROTECTION_MAX then Some v else None)"

record order_payload =
  pl_order_type :: string
  pl_protection :: "int option"

definition PROTECTED_TYPES :: "string list" where
  "PROTECTED_TYPES = [''MARKET'', ''SL-M'']"

definition apply_market_protection :: "order_payload \<Rightarrow> pyval \<Rightarrow> bool \<Rightarrow> order_payload" where
  "apply_market_protection payload value auto =
     (if py_upper (pl_order_type payload) \<notin> set PROTECTED_TYPES then payload
      else case market_protection_pct value of
        Some pct \<Rightarrow> payload\<lparr>pl_protection := Some pct\<rparr>
      | None \<Rightarrow> if auto then payload\<lparr>pl_protection := Some AUTO_PROTECTION\<rparr> else payload)"

definition qty :: "(string \<Rightarrow> pyfloat option) \<Rightarrow> pyval \<Rightarrow> pyfloat option" where
  "qty parse x =
     (case x of VNone \<Rightarrow> Some 0 | VBool b \<Rightarrow> Some (if b then 1 else 0) | VInt n \<Rightarrow> Some (fl (of_int n)) | VFloat f \<Rightarrow> Some f
      | VStr s \<Rightarrow> if s = [] then Some 0 else parse s)"

text \<open>\<open>int(x or 0)\<close>; a float is cut towards zero.\<close>

definition int_or_zero :: "pyval \<Rightarrow> int option" where
  "int_or_zero x =
     (case x of VNone \<Rightarrow> Some 0 | VBool b \<Rightarrow> Some (if b then 1 else 0) | VInt n \<Rightarrow> Some n
      | VFloat f \<Rightarrow> Some (if f < 0 then - floor (- f) else floor f)
      | VStr s \<Rightarrow> if s = [] then Some 0 else py_int_of s)"

section \<open>Failures and pending orders\<close>

definition TERMINAL_NOFILL :: "string list" where
  "TERMINAL_NOFILL = [''REJECTED'', ''CANCELLED'', ''CANCELED'']"
definition TERMINAL_ALL :: "string list" where
  "TERMINAL_ALL = [''COMPLETE'', ''FILLED'', ''TRADED''] @ TERMINAL_NOFILL"

record leg_result =
  lg_status :: string
  lg_filled :: pyval
  lg_order_id :: "string option"

definition nofill :: "(string \<Rightarrow> pyfloat option) \<Rightarrow> leg_result \<Rightarrow> bool" where
  "nofill parse lg = (qty parse (lg_filled lg) = Some 0 \<and> py_upper (lg_status lg) \<in> set TERMINAL_NOFILL)"

definition is_full_failure :: "(string \<Rightarrow> pyfloat option) \<Rightarrow> leg_result list \<Rightarrow> int option \<Rightarrow> string list \<Rightarrow> bool" where
  "is_full_failure parse legs status_code order_ids =
     (if legs \<noteq> [] then list_all (nofill parse) legs
      else case status_code of
        None \<Rightarrow> False
      | Some c \<Rightarrow> if \<not> (400 \<le> c \<and> c < 500) then False else \<not> list_ex (\<lambda>i. i \<noteq> []) order_ids)"

definition pending_order_ids :: "leg_result list \<Rightarrow> string list" where
  "pending_order_ids legs =
     map (\<lambda>lg. the (lg_order_id lg)) (filter (\<lambda>lg. truthy (lg_order_id lg) \<and> py_upper (lg_status lg) \<notin> set TERMINAL_ALL) legs)"

section \<open>Sending an exit again\<close>

record close_order =
  co_symbol :: string
  co_side :: string
  co_quantity :: pyval
  co_product :: "string option"

record broker_position =
  bp_symbol :: string
  bp_quantity :: pyval
  bp_product :: "string option"

definition matches_position :: "string \<Rightarrow> string option \<Rightarrow> broker_position \<Rightarrow> bool" where
  "matches_position sy product p =
     (bp_symbol p = sy \<and> (\<not> truthy product \<or> \<not> truthy (bp_product p) \<or> bp_product p = product))"

definition net :: "(string \<Rightarrow> pyfloat option) \<Rightarrow> broker_position list \<Rightarrow> string \<Rightarrow> string option \<Rightarrow> int option" where
  "net parse ps sy product =
     (let hits = filter (matches_position sy product) ps in
      if hits = [] then None
      else if list_ex (\<lambda>p. qty parse (bp_quantity p) = None) hits then None
      else Some (sum_list (map (\<lambda>p. rhe (the (qty parse (bp_quantity p)))) hits)))"

datatype stop_reason =
    StillPending string
  | SharedInstrument "string list"
  | PositionsUnavailable
  | NotInPositions string
  | OtherSide string int
  | InvalidQuantity string
  | AboveExpected string int int

definition plan_leg ::
  "(string \<Rightarrow> pyfloat option) \<Rightarrow> broker_position list \<Rightarrow> close_order \<Rightarrow> stop_reason + close_order option" where
  "plan_leg parse ps o1 =
     (case net parse ps (co_symbol o1) (co_product o1) of
        None \<Rightarrow> Inl (NotInPositions (co_symbol o1))
      | Some n \<Rightarrow>
         (if n = 0 then Inr None
          else if (0 < n) \<noteq> (py_upper (co_side o1) = ''SELL'') then Inl (OtherSide (co_symbol o1) n)
          else case int_or_zero (co_quantity o1) of
            None \<Rightarrow> Inl (InvalidQuantity (co_symbol o1))
          | Some want \<Rightarrow>
             (if \<bar>n\<bar> = want then Inr (Some o1)
              else if \<bar>n\<bar> < want then Inr (Some (o1\<lparr>co_quantity := VInt \<bar>n\<bar>\<rparr>))
              else Inl (AboveExpected (co_symbol o1) \<bar>n\<bar> want))))"

fun plan_legs ::
  "(string \<Rightarrow> pyfloat option) \<Rightarrow> broker_position list \<Rightarrow> close_order list \<Rightarrow> stop_reason + close_order list" where
  "plan_legs parse ps [] = Inr []"
| "plan_legs parse ps (o1 # os) =
     (case plan_leg parse ps o1 of
        Inl r \<Rightarrow> Inl r
      | Inr x \<Rightarrow> (case plan_legs parse ps os of
          Inl r \<Rightarrow> Inl r
        | Inr out \<Rightarrow> Inr (case x of None \<Rightarrow> out | Some o2 \<Rightarrow> o2 # out)))"

definition not_terminal :: "(string \<Rightarrow> string option) \<Rightarrow> string \<Rightarrow> bool" where
  "not_terminal order_status oid = (py_upper (str_or (order_status oid) []) \<notin> set TERMINAL_ALL)"

text \<open>\<open>order_status\<close> is \<open>None\<close> for an order whose status is unknown or cannot be asked.\<close>

definition plan_exit_resend ::
  "(string \<Rightarrow> pyfloat option) \<Rightarrow> close_order list \<Rightarrow> broker_position list option \<Rightarrow> bool \<Rightarrow> bool \<Rightarrow> string list \<Rightarrow>
   (string \<Rightarrow> string option) \<Rightarrow> string list \<Rightarrow> stop_reason + close_order list" where
  "plan_exit_resend parse close_orders positions previous_failed previous_nofill pending order_status shared_symbols =
     (if \<not> previous_failed then Inr close_orders
      else case find (not_terminal order_status) pending of
        Some oid \<Rightarrow> Inl (StillPending oid)
      | None \<Rightarrow>
         (let shared = filter (\<lambda>s. s \<in> set shared_symbols) (remdups (map co_symbol close_orders)) in
          if shared \<noteq> [] then Inl (SharedInstrument shared)
          else case positions of
            None \<Rightarrow> if previous_nofill then Inr close_orders else Inl PositionsUnavailable
          | Some ps \<Rightarrow> plan_legs parse ps close_orders))"

definition wing_fill_complete :: "pyfloat \<Rightarrow> pyfloat \<Rightarrow> bool" where
  "wing_fill_complete requested filled = (requested \<le> fadd filled (flit 1 1000000000))"

section \<open>Products\<close>

definition product_for :: "string option \<Rightarrow> string option \<Rightarrow> string option \<Rightarrow> string option" where
  "product_for holding kind exchange =
     (if \<not> truthy holding then None
      else if py_upper (the holding) \<noteq> ''SWING'' then Some ''MIS''
      else if py_upper (str_or kind ''UNDERLYING'') = ''UNDERLYING'' \<and> py_upper (str_or exchange ''NSE'') \<in> {''NSE'', ''BSE''} then Some ''CNC''
      else Some ''NRML'')"

definition product_for_trade :: "string option \<Rightarrow> string option \<Rightarrow> string option \<Rightarrow> string" where
  "product_for_trade holding kind exchange = the (product_for (Some (str_or holding ''INTRADAY'')) kind exchange)"

section \<open>What a planned exit does to the position\<close>

text \<open>The signed change an order makes to the net quantity when it fills.\<close>

definition order_effect :: "close_order \<Rightarrow> int" where
  "order_effect o1 = (case int_or_zero (co_quantity o1) of None \<Rightarrow> 0
     | Some q \<Rightarrow> if py_upper (co_side o1) = ''SELL'' then - q else q)"

definition sent_for :: "string \<Rightarrow> close_order list \<Rightarrow> int" where
  "sent_for sy os = sum_list (map order_effect (filter (\<lambda>o1. co_symbol o1 = sy) os))"

lemma sent_for_simps [simp]: "sent_for sy [] = 0"
  "sent_for sy (o1 # os) = (if co_symbol o1 = sy then order_effect o1 else 0) + sent_for sy os"
  by (simp_all add: sent_for_def)





definition half_order :: close_order where
  "half_order = \<lparr>co_symbol = ''NIFTY'', co_side = ''SELL'', co_quantity = VInt 50, co_product = None\<rparr>"

text \<open>
  With two close orders on the same instrument the plan can reverse the position: each order is
  compared with the whole net quantity on its own, so after one of two equal halves filled both are
  sent again and the position ends on the other side.
\<close>

theorem exit_resend_twice_reverses:
  "\<exists>out. plan_exit_resend parse [half_order, half_order]
      (Some [\<lparr>bp_symbol = ''NIFTY'', bp_quantity = VInt 50, bp_product = None\<rparr>]) True nf [] order_status [] = Inr out \<and>
    net parse [\<lparr>bp_symbol = ''NIFTY'', bp_quantity = VInt 50, bp_product = None\<rparr>] ''NIFTY'' None = Some 50 \<and>
    50 + sent_for ''NIFTY'' out = - 50"
proof -
  let ?p = "\<lparr>bp_symbol = ''NIFTY'', bp_quantity = VInt 50, bp_product = None\<rparr>"
  have q: "qty parse (VInt 50) = Some 50" using fl_of_int [of 50] by (simp add: qty_def)
  have n: "net parse [?p] ''NIFTY'' None = Some 50"
    using rhe_of_int [of 50] by (simp add: net_def matches_position_def truthy_def q)
  have u: "py_upper ''SELL'' = ''SELL''" by code_simp
  have l: "plan_leg parse [?p] half_order = Inr (Some half_order)"
    by (simp add: plan_leg_def half_order_def n u int_or_zero_def)
  then have "plan_exit_resend parse [half_order, half_order] (Some [?p]) True nf [] order_status [] = Inr [half_order, half_order]"
    by (simp add: plan_exit_resend_def)
  then show ?thesis using n by (simp add: half_order_def order_effect_def int_or_zero_def u)
qed

text \<open>
  A retry is allowed only after a certain failure: it needs every leg terminal with nothing
  filled, or no leg information, a 4xx answer and no order id; and then no leg is still pending.
\<close>

theorem full_failure_is_certain:
  assumes "is_full_failure parse legs code ids"
  shows "pending_order_ids legs = [] \<and> (\<forall>lg \<in> set legs. qty parse (lg_filled lg) = Some 0) \<and>
    (legs = [] \<longrightarrow> (\<exists>c. code = Some c \<and> 400 \<le> c \<and> c < 500) \<and> (\<forall>i \<in> set ids. i = []))"
  using assms
  by (auto simp: is_full_failure_def pending_order_ids_def filter_empty_conv list_all_iff list_ex_iff nofill_def TERMINAL_ALL_def
      split: if_splits option.splits)

section \<open>Witnesses\<close>


theorem full_failure_is_certain_witness:
  "pending_order_ids [\<lparr>lg_status = ''rejected'', lg_filled = VInt 0, lg_order_id = Some ''7''\<rparr>] = []"
proof -
  have a: "is_full_failure (\<lambda>_. None) [\<lparr>lg_status = ''rejected'', lg_filled = VInt 0, lg_order_id = Some ''7''\<rparr>] None []" by code_simp
  show ?thesis using full_failure_is_certain [OF a] by simp
qed

end
