(* ===== verification/BarBuilder.thy ===== *)
theory BarBuilder
  imports Pyfloat
begin

text \<open>
  Ticks to closed bars: \<open>app/market_data/bar_builder.py\<close> with the session clock of
  \<open>app/market_data/calendar.py\<close> and the resampling rule of \<open>app/market_lake/tenant_store.py\<close>. Times are
  microseconds UTC, the grace window too; a bar is labelled by its END.
\<close>

section \<open>Sessions\<close>

record exchange_session =
  es_open :: int
  es_close :: int

text \<open>Open and close of a family, in seconds of the IST day.\<close>

definition hms :: "int \<Rightarrow> int \<Rightarrow> int \<Rightarrow> int" where
  "hms h m s = (h * 3600 + m * 60 + s) * US_SECOND"

definition EXCHANGE_SESSIONS :: "(string \<times> exchange_session) list" where
  "EXCHANGE_SESSIONS =
     [(''NSE'', \<lparr>es_open = hms 9 15 0, es_close = hms 15 30 0\<rparr>),
      (''MCX'', \<lparr>es_open = hms 9 0 0, es_close = hms 23 30 0\<rparr>),
      (''CDS'', \<lparr>es_open = hms 9 0 0, es_close = hms 17 0 0\<rparr>),
      (''CRYPTO'', \<lparr>es_open = hms 0 0 0, es_close = hms 23 59 59\<rparr>)]"

definition SESSION_ALIASES :: "(string \<times> string) list" where
  "SESSION_ALIASES =
     [(''NSE'', ''NSE''), (''BSE'', ''NSE''), (''NFO'', ''NSE''), (''BFO'', ''NSE''), (''NSE_EQ'', ''NSE''), (''NSE_FO'', ''NSE''),
      (''BSE_EQ'', ''NSE''), (''MCX'', ''MCX''), (''MCX_FO'', ''MCX''), (''CDS'', ''CDS''), (''NSE_CD'', ''CDS''), (''BCD'', ''CDS''),
      (''BSE_CD'', ''CDS''), (''CRYPTO'', ''CRYPTO''), (''BINANCE'', ''CRYPTO''), (''COINDCX'', ''CRYPTO''), (''WAZIRX'', ''CRYPTO'')]"

definition session_family :: "string option \<Rightarrow> string" where
  "session_family exchange =
     (case map_of SESSION_ALIASES (py_upper (str_or exchange ''NSE'')) of None \<Rightarrow> ''NSE'' | Some f \<Rightarrow> f)"

definition session_of :: "string \<Rightarrow> exchange_session" where
  "session_of exchange = the (map_of EXCHANGE_SESSIONS (session_family (Some exchange)))"

definition minute_start :: "int \<Rightarrow> int" where
  "minute_start ts = ts div US_MINUTE * US_MINUTE"

text \<open>Midnight of the IST day holding an instant.\<close>

definition ist_day :: "int \<Rightarrow> int" where
  "ist_day ts = (ts + IST_OFFSET) div US_DAY * US_DAY - IST_OFFSET"

fun take_until :: "char \<Rightarrow> string \<Rightarrow> string" where
  "take_until c [] = []"
| "take_until c (x # xs) = (if x = c then [] else x # take_until c xs)"

definition ends_with :: "string \<Rightarrow> string \<Rightarrow> bool" where
  "ends_with s t = (length t \<le> length s \<and> drop (length s - length t) s = t)"

definition exchange_of :: "string \<Rightarrow> string" where
  "exchange_of key =
     (let head = (if CHR '':'' \<in> set key then py_upper (take_until (CHR '':'') key) else ''NSE'')
      in if ends_with head ''_INDEX'' then take_until (CHR ''_'') head else head)"

definition session_bounds :: "string \<Rightarrow> int \<Rightarrow> int \<times> int" where
  "session_bounds key ts =
     (let spec = session_of (exchange_of key); day = ist_day ts in (day + es_open spec, day + es_close spec))"

section \<open>The one-minute builder\<close>

record feed_bar =
  fb_key :: string
  fb_minutes :: int
  fb_ts :: int
  fb_open :: pyfloat
  fb_high :: pyfloat
  fb_low :: pyfloat
  fb_close :: pyfloat
  fb_volume :: int
  fb_volume_known :: bool

definition is_post_close :: "string \<Rightarrow> feed_bar \<Rightarrow> bool" where
  "is_post_close key bar = (let start = fb_ts bar - US_MINUTE in snd (session_bounds key start) \<le> start)"

record open_bar =
  ob_open :: pyfloat
  ob_high :: pyfloat
  ob_low :: pyfloat
  ob_close :: pyfloat
  ob_vtt_first :: "int option"
  ob_vtt_last :: "int option"

record builder_stats =
  st_ticks :: nat
  st_late :: nat
  st_outside :: nat
  st_suppressed :: nat
  st_bars :: nat

record builder =
  bb_grace :: int
  bb_stats :: builder_stats
  bb_open :: "(string, (int, open_bar) dict) dict"
  bb_emitted_until :: "(string, int) dict"
  bb_emitted_vtt :: "(string, int) dict"
  bb_suppress :: "(string, (int \<times> int) list) dict"

definition new_builder :: "int \<Rightarrow> builder" where
  "new_builder grace = \<lparr>bb_grace = grace, bb_stats = \<lparr>st_ticks = 0, st_late = 0, st_outside = 0, st_suppressed = 0, st_bars = 0\<rparr>,
     bb_open = [], bb_emitted_until = [], bb_emitted_vtt = [], bb_suppress = []\<rparr>"

definition dict_get_or :: "('k, 'v) dict \<Rightarrow> 'k \<Rightarrow> 'v \<Rightarrow> 'v" where
  "dict_get_or d k v = (case dict_get d k of None \<Rightarrow> v | Some x \<Rightarrow> x)"

definition open_of :: "builder \<Rightarrow> string \<Rightarrow> (int, open_bar) dict" where
  "open_of b key = dict_get_or (bb_open b) key []"

definition suppressed :: "builder \<Rightarrow> string \<Rightarrow> int \<Rightarrow> bool" where
  "suppressed b key start = list_ex (\<lambda>(lo, hi). lo \<le> start \<and> start < hi) (dict_get_or (bb_suppress b) key [])"

definition suppressed_minute :: "builder \<Rightarrow> string \<Rightarrow> int \<Rightarrow> bool" where
  "suppressed_minute b key start = suppressed b key (minute_start start)"

text \<open>\<open>_volume\<close>: the bar's share of the feed's cumulative day volume, and the new figure to remember.\<close>

definition bar_volume :: "builder \<Rightarrow> string \<Rightarrow> open_bar \<Rightarrow> int option \<times> builder" where
  "bar_volume b key bar =
     (case ob_vtt_last bar of
        None \<Rightarrow> (None, b)
      | Some vl \<Rightarrow>
         (let base = (case dict_get (bb_emitted_vtt b) key of
                None \<Rightarrow> (case ob_vtt_first bar of None \<Rightarrow> vl | Some vf \<Rightarrow> vf)
              | Some v \<Rightarrow> if vl < v then 0 else v)
          in (Some (max 0 (vl - base)), b\<lparr>bb_emitted_vtt := dict_set key vl (bb_emitted_vtt b)\<rparr>)))"

definition emit_one :: "string \<Rightarrow> int \<Rightarrow> open_bar \<Rightarrow> builder \<Rightarrow> builder \<times> feed_bar" where
  "emit_one key start bar b =
     (let b0 = b\<lparr>bb_open := dict_set key (dict_pop start (open_of b key)) (bb_open b)\<rparr>;
          end' = start + US_MINUTE;
          (volume, b1) = bar_volume b0 key bar
      in (b1\<lparr>bb_emitted_until := dict_set key (max end' (dict_get_or (bb_emitted_until b1) key end')) (bb_emitted_until b1),
             bb_stats := (bb_stats b1)\<lparr>st_bars := st_bars (bb_stats b1) + 1\<rparr>\<rparr>,
          \<lparr>fb_key = key, fb_minutes = 1, fb_ts = end', fb_open = ob_open bar, fb_high = ob_high bar, fb_low = ob_low bar,
           fb_close = ob_close bar, fb_volume = (case volume of None \<Rightarrow> 0 | Some v \<Rightarrow> v), fb_volume_known = (volume \<noteq> None)\<rparr>))"

fun emit_starts :: "int \<Rightarrow> string \<Rightarrow> (int \<times> open_bar) list \<Rightarrow> builder \<Rightarrow> builder \<times> feed_bar list" where
  "emit_starts now key [] b = (b, [])"
| "emit_starts now key ((start, bar) # rest) b =
     (if now < start + US_MINUTE + bb_grace b then (b, [])
      else (let (b1, x) = emit_one key start bar b; (b2, xs) = emit_starts now key rest b1 in (b2, x # xs)))"

definition close_key :: "int \<Rightarrow> string \<Rightarrow> builder \<Rightarrow> builder \<times> feed_bar list" where
  "close_key now key b =
     (if open_of b key = [] then (b, [])
      else
       (let (b1, out) = emit_starts now key (sort_key fst (open_of b key)) b
        in (if open_of b1 key = [] then b1\<lparr>bb_open := dict_pop key (bb_open b1)\<rparr> else b1, out)))"

fun close_keys :: "int \<Rightarrow> string list \<Rightarrow> builder \<Rightarrow> builder \<times> feed_bar list" where
  "close_keys now [] b = (b, [])"
| "close_keys now (k # ks) b = (let (b1, xs) = close_key now k b; (b2, ys) = close_keys now ks b1 in (b2, xs @ ys))"

definition close_due :: "int \<Rightarrow> string list option \<Rightarrow> builder \<Rightarrow> builder \<times> feed_bar list" where
  "close_due now keys b = close_keys now (case keys of None \<Rightarrow> dict_keys (bb_open b) | Some ks \<Rightarrow> ks) b"

definition merge_tick :: "pyfloat \<Rightarrow> int option \<Rightarrow> open_bar option \<Rightarrow> open_bar" where
  "merge_tick price vol bar =
     (case bar of
        None \<Rightarrow> \<lparr>ob_open = price, ob_high = price, ob_low = price, ob_close = price, ob_vtt_first = vol, ob_vtt_last = vol\<rparr>
      | Some q \<Rightarrow> q\<lparr>ob_high := max (ob_high q) price, ob_low := min (ob_low q) price, ob_close := price,
           ob_vtt_first := (case vol of None \<Rightarrow> ob_vtt_first q | Some v \<Rightarrow> Some (case ob_vtt_first q of None \<Rightarrow> v | Some f \<Rightarrow> min f v)),
           ob_vtt_last := (case vol of None \<Rightarrow> ob_vtt_last q | Some v \<Rightarrow> Some (case ob_vtt_last q of None \<Rightarrow> v | Some l \<Rightarrow> max l v))\<rparr>)"

definition late_minute :: "builder \<Rightarrow> string \<Rightarrow> int \<Rightarrow> int \<Rightarrow> bool" where
  "late_minute b key start now =
     ((case dict_get (bb_emitted_until b) key of None \<Rightarrow> False | Some u \<Rightarrow> start + US_MINUTE \<le> u) \<or>
      start + US_MINUTE + bb_grace b \<le> now)"

definition add_tick :: "string \<Rightarrow> int \<Rightarrow> pyfloat option \<Rightarrow> int \<Rightarrow> int option \<Rightarrow> builder \<Rightarrow> builder" where
  "add_tick key start price now vol b =
     (case price of
        None \<Rightarrow> b
      | Some p \<Rightarrow>
         (if \<not> 0 < p then b
          else if late_minute b key start now then b\<lparr>bb_stats := (bb_stats b)\<lparr>st_late := st_late (bb_stats b) + 1\<rparr>\<rparr>
          else if start < fst (session_bounds key start) then b\<lparr>bb_stats := (bb_stats b)\<lparr>st_outside := st_outside (bb_stats b) + 1\<rparr>\<rparr>
          else if suppressed b key start then b\<lparr>bb_stats := (bb_stats b)\<lparr>st_suppressed := st_suppressed (bb_stats b) + 1\<rparr>\<rparr>
          else b\<lparr>bb_open := dict_set key (dict_set start (merge_tick p vol (dict_get (open_of b key) start)) (open_of b key)) (bb_open b)\<rparr>))"

definition feed :: "string \<Rightarrow> int \<Rightarrow> pyfloat option \<Rightarrow> int \<Rightarrow> int option \<Rightarrow> builder \<Rightarrow> builder \<times> feed_bar list" where
  "feed key ts price now vol b =
     (let b0 = b\<lparr>bb_stats := (bb_stats b)\<lparr>st_ticks := st_ticks (bb_stats b) + 1\<rparr>\<rparr>;
          (b1, closed) = close_due now (Some [key]) b0
      in (add_tick key (minute_start ts) price now vol b1, closed))"

definition US_HOUR :: int where "US_HOUR = 60 * US_MINUTE"

definition add_window :: "int \<Rightarrow> int \<Rightarrow> (int \<times> int) list \<Rightarrow> (int \<times> int) list" where
  "add_window start stop ws = filter (\<lambda>w. fst w \<noteq> start \<and> start - 2 * US_HOUR < snd w) ws @ [(start, stop)]"

definition suppress_key :: "int \<Rightarrow> int \<Rightarrow> string \<Rightarrow> builder \<Rightarrow> builder" where
  "suppress_key start stop key b =
     (let b1 = b\<lparr>bb_suppress := dict_set key (add_window start stop (dict_get_or (bb_suppress b) key [])) (bb_suppress b)\<rparr>
      in if dict_get (bb_open b1) key = None then b1
         else b1\<lparr>bb_open := dict_set key (filter (\<lambda>e. \<not> (start \<le> fst e \<and> fst e < stop)) (open_of b1 key)) (bb_open b1)\<rparr>)"

definition suppress :: "string list \<Rightarrow> int \<Rightarrow> int \<Rightarrow> builder \<Rightarrow> builder" where
  "suppress keys start stop b = fold (suppress_key (minute_start start) stop) keys b"

definition forget :: "string list \<Rightarrow> builder \<Rightarrow> builder" where
  "forget keys b = b\<lparr>bb_open := fold dict_pop keys (bb_open b)\<rparr>"

definition open_bars :: "builder \<Rightarrow> nat" where
  "open_bars b = sum_list (map (\<lambda>e. length (snd e)) (bb_open b))"

section \<open>Resampling\<close>

definition bucket_end_at :: "string \<Rightarrow> int \<Rightarrow> int \<Rightarrow> int" where
  "bucket_end_at exchange minutes start =
     (let spec = session_of exchange; day = ist_day start; op = day + es_open spec; cl = day + es_close spec;
          period = minutes * US_MINUTE; e = op + ((start - op) div period + 1) * period
      in if op \<le> start \<and> start < cl then min e cl else e)"

definition combine_bars :: "int \<Rightarrow> int \<Rightarrow> feed_bar list \<Rightarrow> feed_bar" where
  "combine_bars minutes e grp =
     \<lparr>fb_key = fb_key (hd grp), fb_minutes = minutes, fb_ts = e, fb_open = fb_open (hd grp),
      fb_high = fold (\<lambda>x m. max m (fb_high x)) (tl grp) (fb_high (hd grp)),
      fb_low = fold (\<lambda>x m. min m (fb_low x)) (tl grp) (fb_low (hd grp)), fb_close = fb_close (last grp),
      fb_volume = sum_list (map fb_volume grp), fb_volume_known = list_all fb_volume_known grp\<rparr>"

definition resample :: "string \<Rightarrow> int \<Rightarrow> feed_bar list \<Rightarrow> feed_bar list" where
  "resample exchange minutes bars =
     (let ordered = sort_key fb_ts bars; end_of = (\<lambda>x. bucket_end_at exchange minutes (fb_ts x - US_MINUTE)) in
      if minutes = 1 then ordered
      else map (\<lambda>e. combine_bars minutes e (filter (\<lambda>x. end_of x = e) ordered)) (sort (remdups (map end_of ordered))))"

definition bucket_end :: "int \<Rightarrow> feed_bar \<Rightarrow> int" where
  "bucket_end minutes bar = fb_ts (hd (resample (exchange_of (fb_key bar)) minutes [bar]))"

record bucket =
  bu_end :: int
  bu_bars :: "feed_bar list"
  bu_tainted :: bool

record resampler =
  rs_minutes :: int
  rs_grace :: int
  rs_buckets :: "(string, bucket) dict"
  rs_gaps :: "(string, (int \<times> int) list) dict"

definition gap_range :: "string \<Rightarrow> int \<Rightarrow> int \<Rightarrow> int \<Rightarrow> int \<times> int" where
  "gap_range key start stop minutes =
     (let m = (\<lambda>t. \<lparr>fb_key = key, fb_minutes = 1, fb_ts = minute_start t + US_MINUTE, fb_open = 1, fb_high = 1, fb_low = 1, fb_close = 1,
                 fb_volume = 0, fb_volume_known = True\<rparr>)
      in if minutes = 1 then (minute_start start, minute_start (stop - 1) + US_MINUTE)
         else (bucket_end minutes (m start) - minutes * US_MINUTE, bucket_end minutes (m (stop - 1))))"

definition overlaps_gap :: "resampler \<Rightarrow> string \<Rightarrow> int \<Rightarrow> bool" where
  "overlaps_gap r key e =
     (let lo = e - rs_minutes r * US_MINUTE
      in list_ex (\<lambda>(s, t). s < e \<and> lo < t) (dict_get_or (rs_gaps r) key []))"

definition emit_bucket :: "resampler \<Rightarrow> string \<Rightarrow> bucket \<Rightarrow> feed_bar list" where
  "emit_bucket r key k =
     (if bu_tainted k \<or> bu_bars k = [] then []
      else filter (\<lambda>x. fb_ts x = bu_end k)
             (map (\<lambda>x. x\<lparr>fb_volume_known := list_all fb_volume_known (bu_bars k)\<rparr>)
               (resample (exchange_of key) (rs_minutes r) (bu_bars k))))"

definition add_minute :: "feed_bar \<Rightarrow> resampler \<Rightarrow> resampler \<times> feed_bar list" where
  "add_minute bar r =
     (let key = fb_key bar in
      if is_post_close key bar then (r, [])
      else
       (let e = bucket_end (rs_minutes r) bar;
            fresh = \<lparr>bu_end = e, bu_bars = [bar], bu_tainted = overlaps_gap r key e\<rparr>;
            set' = (\<lambda>k. r\<lparr>rs_buckets := dict_set key k (dict_pop key (rs_buckets r))\<rparr>)
        in case dict_get (rs_buckets r) key of
             None \<Rightarrow> (r\<lparr>rs_buckets := dict_set key fresh (rs_buckets r)\<rparr>, [])
           | Some k \<Rightarrow>
              (if bu_end k < e then (set' fresh, emit_bucket r key k)
               else if e < bu_end k then (r, [])
               else (r\<lparr>rs_buckets := dict_set key (k\<lparr>bu_bars := bu_bars k @ [bar]\<rparr>) (rs_buckets r)\<rparr>, []))))"

definition taint :: "string \<Rightarrow> int \<Rightarrow> int \<Rightarrow> resampler \<Rightarrow> resampler" where
  "taint key start stop r =
     (let r1 = r\<lparr>rs_gaps := dict_set key (add_window (minute_start start) stop (dict_get_or (rs_gaps r) key [])) (rs_gaps r)\<rparr>
      in case dict_get (rs_buckets r1) key of
           None \<Rightarrow> r1
         | Some k \<Rightarrow> if overlaps_gap r1 key (bu_end k)
             then r1\<lparr>rs_buckets := dict_set key (k\<lparr>bu_tainted := True\<rparr>) (rs_buckets r1)\<rparr> else r1)"

definition close_buckets :: "int \<Rightarrow> resampler \<Rightarrow> resampler \<times> feed_bar list" where
  "close_buckets now r =
     (let due = filter (\<lambda>e. bu_end (snd e) + rs_grace r \<le> now) (rs_buckets r)
      in (r\<lparr>rs_buckets := filter (\<lambda>e. \<not> bu_end (snd e) + rs_grace r \<le> now) (rs_buckets r)\<rparr>,
          concat (map (\<lambda>(key, k). emit_bucket r key k) due)))"

definition forget_buckets :: "string list \<Rightarrow> resampler \<Rightarrow> resampler" where
  "forget_buckets keys r = r\<lparr>rs_buckets := fold dict_pop keys (rs_buckets r)\<rparr>"

section \<open>The pipeline\<close>

record bar_pipeline =
  bp_builder :: builder
  bp_resamplers :: "resampler list"

definition RESAMPLE_MINUTES :: "int list" where "RESAMPLE_MINUTES = [5, 15, 60]"

definition new_pipeline :: "int \<Rightarrow> bar_pipeline" where
  "new_pipeline grace = \<lparr>bp_builder = new_builder grace,
     bp_resamplers = map (\<lambda>m. \<lparr>rs_minutes = m, rs_grace = grace, rs_buckets = [], rs_gaps = []\<rparr>) RESAMPLE_MINUTES\<rparr>"

fun through_each :: "feed_bar \<Rightarrow> resampler list \<Rightarrow> resampler list \<times> feed_bar list" where
  "through_each bar [] = ([], [])"
| "through_each bar (r # rs) = (let (r1, xs) = add_minute bar r; (rs1, ys) = through_each bar rs in (r1 # rs1, xs @ ys))"

fun through_all :: "feed_bar list \<Rightarrow> resampler list \<Rightarrow> resampler list \<times> feed_bar list" where
  "through_all [] rs = (rs, [])"
| "through_all (bar # bars) rs = (let (rs1, xs) = through_each bar rs; (rs2, ys) = through_all bars rs1 in (rs2, xs @ ys))"

definition pipe_through :: "feed_bar list \<Rightarrow> bar_pipeline \<Rightarrow> bar_pipeline \<times> feed_bar list" where
  "pipe_through bars p = (let (rs, xs) = through_all bars (bp_resamplers p) in (p\<lparr>bp_resamplers := rs\<rparr>, bars @ xs))"

definition pipe_feed :: "string \<Rightarrow> int \<Rightarrow> pyfloat option \<Rightarrow> int \<Rightarrow> int option \<Rightarrow> bar_pipeline \<Rightarrow> bar_pipeline \<times> feed_bar list" where
  "pipe_feed key ts price now vol p =
     (let (b, bars) = feed key ts price now vol (bp_builder p) in pipe_through bars (p\<lparr>bp_builder := b\<rparr>))"

definition pipe_flush :: "int \<Rightarrow> bar_pipeline \<Rightarrow> bar_pipeline \<times> feed_bar list" where
  "pipe_flush now p =
     (let (b, bars) = close_due now None (bp_builder p);
          (p1, out) = pipe_through bars (p\<lparr>bp_builder := b\<rparr>);
          closed = map (close_buckets now) (bp_resamplers p1)
      in (p1\<lparr>bp_resamplers := map fst closed\<rparr>, out @ concat (map snd closed)))"

definition pipe_gap :: "string list \<Rightarrow> int \<Rightarrow> int \<Rightarrow> bar_pipeline \<Rightarrow> bar_pipeline" where
  "pipe_gap keys start stop p =
     p\<lparr>bp_builder := suppress keys start stop (bp_builder p),
       bp_resamplers := map (\<lambda>r. fold (\<lambda>key. taint key start stop) keys r) (bp_resamplers p)\<rparr>"

definition pipe_forget :: "string list \<Rightarrow> bar_pipeline \<Rightarrow> bar_pipeline" where
  "pipe_forget keys p = p\<lparr>bp_builder := forget keys (bp_builder p), bp_resamplers := map (forget_buckets keys) (bp_resamplers p)\<rparr>"

section \<open>What the builder hands out\<close>

fun rises :: "int option \<Rightarrow> int list \<Rightarrow> bool" where
  "rises u [] = True"
| "rises u (e # es) = ((case u of None \<Rightarrow> True | Some x \<Rightarrow> x < e) \<and> rises (Some e) es)"

fun reached :: "int option \<Rightarrow> int list \<Rightarrow> int option" where
  "reached u [] = u"
| "reached u (e # es) = reached (Some e) es"

lemma rises_append: "rises u (xs @ ys) \<longleftrightarrow> rises u xs \<and> rises (reached u xs) ys"
  by (induction u xs rule: rises.induct) auto

lemma reached_append: "reached u (xs @ ys) = reached (reached u xs) ys"
  by (induction u xs rule: reached.induct) auto

lemma rises_less: "rises (Some x) es \<Longrightarrow> \<forall>e \<in> set es. x < e"
  by (induction es arbitrary: x) fastforce+

lemma rises_sorted: "rises u es \<Longrightarrow> sorted_wrt (<) es"
proof (induction es arbitrary: u)
  case (Cons e es)
  then show ?case using rises_less [of e es] by auto
qed simp

definition until_of :: "builder \<Rightarrow> string \<Rightarrow> int option" where
  "until_of b key = dict_get (bb_emitted_until b) key"

definition after :: "int option \<Rightarrow> int \<Rightarrow> bool" where
  "after u e = (case u of None \<Rightarrow> True | Some x \<Rightarrow> x < e)"

definition bar_ok :: "open_bar \<Rightarrow> bool" where
  "bar_ok q = (0 < ob_low q \<and> ob_low q \<le> ob_open q \<and> ob_low q \<le> ob_close q \<and> ob_open q \<le> ob_high q \<and> ob_close q \<le> ob_high q)"

definition key_inv :: "builder \<Rightarrow> string \<Rightarrow> bool" where
  "key_inv b key = (distinct (map fst (open_of b key)) \<and>
     (\<forall>e \<in> set (open_of b key). after (until_of b key) (fst e + US_MINUTE) \<and> bar_ok (snd e)))"

definition builder_inv :: "builder \<Rightarrow> bool" where
  "builder_inv b = (\<forall>key. key_inv b key)"

definition ends_of :: "string \<Rightarrow> feed_bar list \<Rightarrow> int list" where
  "ends_of key bars = map fb_ts (filter (\<lambda>x. fb_key x = key) bars)"

definition bar_sound :: "int \<Rightarrow> int \<Rightarrow> feed_bar \<Rightarrow> bool" where
  "bar_sound now grace x = (fb_ts x + grace \<le> now \<and> 0 \<le> fb_volume x \<and> 0 < fb_low x \<and> fb_low x \<le> fb_open x \<and> fb_low x \<le> fb_close x \<and>
     fb_open x \<le> fb_high x \<and> fb_close x \<le> fb_high x)"

text \<open>One operation: what it hands out per key goes on from where the key was, every bar is closed and sound.\<close>

definition builder_step :: "int \<Rightarrow> builder \<Rightarrow> builder \<times> feed_bar list \<Rightarrow> bool" where
  "builder_step now b x =
     (builder_inv (fst x) \<and> bb_grace (fst x) = bb_grace b \<and> list_all (bar_sound now (bb_grace b)) (snd x) \<and>
      (\<forall>key. rises (until_of b key) (ends_of key (snd x)) \<and> until_of (fst x) key = reached (until_of b key) (ends_of key (snd x))))"

lemma step_none: "builder_inv b' \<Longrightarrow> bb_grace b' = bb_grace b \<Longrightarrow> bb_emitted_until b' = bb_emitted_until b \<Longrightarrow> builder_step now b (b', [])"
  by (simp add: builder_step_def until_of_def ends_of_def)

lemma step_trans:
  assumes "builder_step now b (b1, xs)" "builder_step now b1 (b2, ys)"
  shows "builder_step now b (b2, xs @ ys)"
  using assms by (simp add: builder_step_def ends_of_def rises_append reached_append)

lemma dict_get_pop: "dict_get (dict_pop k d) k' = (if k' = k then None else dict_get d k')"
  by (induction d) (auto simp: dict_get_def dict_pop_def)

lemma open_of_set: "open_of (b\<lparr>bb_open := dict_set key d (bb_open b)\<rparr>) k = (if k = key then d else open_of b k)"
  by (simp add: open_of_def dict_get_or_def)

lemma open_of_pop: "open_of (b\<lparr>bb_open := dict_pop key (bb_open b)\<rparr>) k = (if k = key then [] else open_of b k)"
  by (simp add: open_of_def dict_get_or_def dict_get_pop)

lemma bar_volume_facts:
  "bb_open (snd (bar_volume b key q)) = bb_open b" "bb_emitted_until (snd (bar_volume b key q)) = bb_emitted_until b"
  "bb_grace (snd (bar_volume b key q)) = bb_grace b" "fst (bar_volume b key q) = Some v \<Longrightarrow> 0 \<le> v"
  by (auto simp: bar_volume_def Let_def split: option.splits)

lemma emit_one_facts:
  assumes "after (until_of b key) (start + US_MINUTE)" "bar_ok q" "start + US_MINUTE + bb_grace b \<le> now"
  defines "x \<equiv> emit_one key start q b"
  shows "open_of (fst x) k = (if k = key then dict_pop start (open_of b key) else open_of b k)"
    "until_of (fst x) k = (if k = key then Some (start + US_MINUTE) else until_of b k)" "bb_grace (fst x) = bb_grace b"
    "bar_sound now (bb_grace b) (snd x)" "fb_key (snd x) = key" "fb_ts (snd x) = start + US_MINUTE"
proof -
  note d = x_def emit_one_def case_prod_beta Let_def bar_volume_facts
  show "open_of (fst x) k = (if k = key then dict_pop start (open_of b key) else open_of b k)"
    by (simp add: d open_of_def dict_get_or_def)
  show "until_of (fst x) k = (if k = key then Some (start + US_MINUTE) else until_of b k)"
    using assms(1) by (auto simp: d until_of_def after_def dict_get_or_def split: option.splits)
  show "bar_sound now (bb_grace b) (snd x)"
    using assms(2,3) bar_volume_facts(4) by (auto simp: d bar_sound_def bar_ok_def split: option.splits)
qed (simp_all add: x_def emit_one_def case_prod_beta Let_def bar_volume_facts)

lemma builder_invD: "builder_inv b \<Longrightarrow> e \<in> set (open_of b key) \<Longrightarrow> after (until_of b key) (fst e + US_MINUTE) \<and> bar_ok (snd e)"
  by (simp add: builder_inv_def key_inv_def)

lemma step_inv: "builder_step now b x \<Longrightarrow> builder_inv (fst x)"
  by (simp add: builder_step_def)

lemma emit_one_inv:
  assumes "builder_inv b" "(start, q) \<in> set (open_of b key)" "\<forall>e \<in> set (open_of b key). start \<le> fst e"
    and "start + US_MINUTE + bb_grace b \<le> now"
  shows "builder_step now b (fst (emit_one key start q b), [snd (emit_one key start q b)])"
proof -
  have k: "key_inv b k" for k using assms(1) by (simp add: builder_inv_def)
  have q: "after (until_of b key) (start + US_MINUTE)" "bar_ok q" using k [of key] assms(2) by (auto simp: key_inv_def)
  note f = emit_one_facts [OF q assms(4)]
  have "key_inv (fst (emit_one key start q b)) k'" for k'
  proof (cases "k' = key")
    case True
    have "distinct (map fst (dict_pop start (open_of b key)))"
      using k [of key] by (simp add: key_inv_def dict_pop_def distinct_map_filter)
    moreover have "after (Some (start + US_MINUTE)) (fst e + US_MINUTE) \<and> bar_ok (snd e)" if "e \<in> set (dict_pop start (open_of b key))" for e
      using that assms(3) k [of key] by (auto simp: dict_pop_def after_def key_inv_def order_less_le)
    ultimately show ?thesis by (simp add: key_inv_def f(1,2) True)
  next
    case False
    then show ?thesis using k [of k'] by (simp add: key_inv_def f(1,2))
  qed
  then show ?thesis
    using f q(1) by (auto simp: builder_step_def builder_inv_def ends_of_def after_def split: option.splits)
qed

lemma emit_starts_step:
  "builder_inv b \<Longrightarrow> set xs = set (open_of b key) \<Longrightarrow> sorted_wrt (\<lambda>x y. fst x < fst y) xs \<Longrightarrow>
     builder_step now b (emit_starts now key xs b)"
proof (induction xs arbitrary: b)
  case Nil
  then show ?case by (simp add: step_none)
next
  case (Cons x xs)
  obtain start q where x: "x = (start, q)" by fastforce
  show ?case
  proof (cases "now < start + US_MINUTE + bb_grace b")
    case True
    then show ?thesis using Cons.prems by (simp add: x step_none)
  next
    case False
    let ?e = "emit_one key start q b"
    have in_open: "(start, q) \<in> set (open_of b key)" using Cons.prems(2) by (simp add: x flip: Cons.prems(2))
    have least: "\<forall>e \<in> set (open_of b key). start \<le> fst e"
      using Cons.prems(3) by (auto simp: x less_imp_le simp flip: Cons.prems(2))
    have step: "builder_step now b (fst ?e, [snd ?e])"
      by (rule emit_one_inv [OF Cons.prems(1) in_open least]) (use False in simp)
    have "after (until_of b key) (start + US_MINUTE)" "bar_ok q"
      using builder_invD [OF Cons.prems(1) in_open] by simp_all
    then have o: "open_of (fst ?e) key = dict_pop start (open_of b key)"
      using emit_one_facts(1) [of b key start q now key] False by simp
    have "set xs = set (open_of (fst ?e) key)"
      using Cons.prems(2,3) by (auto simp: o dict_pop_def x simp flip: Cons.prems(2))
    then have "builder_step now (fst ?e) (emit_starts now key xs (fst ?e))"
      by (intro Cons.IH) (use step_inv [OF step] Cons.prems(3) in simp_all)
    then show ?thesis using step_trans [OF step, of "fst (emit_starts now key xs (fst ?e))" "snd (emit_starts now key xs (fst ?e))"] False
      by (simp add: x case_prod_beta Let_def)
  qed
qed

lemma close_key_step: "builder_inv b \<Longrightarrow> builder_step now b (close_key now key b)"
proof -
  assume i: "builder_inv b"
  let ?xs = "sort_key fst (open_of b key)"
  have d: "distinct (map fst ?xs)" using i by (simp add: builder_inv_def key_inv_def distinct_map)
  then have "sorted_wrt (\<lambda>x y. fst x < fst y) ?xs"
    using sorted_sort_key [of fst "open_of b key"] strict_sorted_iff [of "map fst ?xs"] by (simp add: sorted_wrt_map)
  then have s: "builder_step now b (emit_starts now key ?xs b)" using i by (intro emit_starts_step) simp_all
  let ?e = "emit_starts now key ?xs b"
  have pop: "builder_step now b ((fst ?e)\<lparr>bb_open := dict_pop key (bb_open (fst ?e))\<rparr>, snd ?e)" if "open_of (fst ?e) key = []"
  proof -
    have "key_inv ((fst ?e)\<lparr>bb_open := dict_pop key (bb_open (fst ?e))\<rparr>) k = key_inv (fst ?e) k" for k
      using that by (simp add: key_inv_def open_of_pop until_of_def)
    then show ?thesis using s by (simp add: builder_step_def builder_inv_def until_of_def)
  qed
  show ?thesis using s pop i by (simp add: close_key_def case_prod_beta Let_def step_none)
qed

lemma close_keys_step: "builder_inv b \<Longrightarrow> builder_step now b (close_keys now ks b)"
proof (induction ks arbitrary: b)
  case (Cons k ks)
  let ?c = "close_key now k b"
  have s: "builder_step now b (fst ?c, snd ?c)" using close_key_step [OF Cons.prems] by simp
  have "builder_step now (fst ?c) (close_keys now ks (fst ?c))" by (rule Cons.IH) (use step_inv [OF s] in simp)
  then show ?case using step_trans [OF s] by (simp add: case_prod_beta Let_def)
qed (simp add: step_none)

lemma merge_ok: "0 < p \<Longrightarrow> (case bar of None \<Rightarrow> True | Some q \<Rightarrow> bar_ok q) \<Longrightarrow> bar_ok (merge_tick p vol bar)"
  by (cases bar) (auto simp: bar_ok_def merge_tick_def le_max_iff_disj min_le_iff_disj)

lemma add_tick_inv: "builder_inv b \<Longrightarrow> builder_inv (add_tick key start price now vol b)"
proof -
  assume i: "builder_inv b"
  have stats: "builder_inv (b\<lparr>bb_stats := x\<rparr>)" for x
    using i by (simp add: builder_inv_def key_inv_def open_of_def until_of_def)
  have add: "builder_inv (b\<lparr>bb_open := dict_set key (dict_set start (merge_tick p vol (dict_get (open_of b key) start)) (open_of b key)) (bb_open b)\<rparr>)"
    if p: "0 < p" "\<not> late_minute b key start now" for p
  proof -
    let ?q = "merge_tick p vol (dict_get (open_of b key) start)"
    have k: "key_inv b k" for k using i by (simp add: builder_inv_def)
    have old: "bar_ok y" if "dict_get (open_of b key) start = Some y" for y
      using k [of key] that by (auto simp: key_inv_def dict_get_def dest: map_of_SomeD)
    have q: "bar_ok ?q" using old p(1) by (intro merge_ok) (auto split: option.split)
    have sub: "set (dict_set a v d) \<subseteq> insert (a, v) (set d)" for a v and d :: "(int, open_bar) dict"
      by (induction a v d rule: dict_set.induct) auto
    have "distinct (map fst (dict_set start ?q (open_of b key)))"
      using k [of key] distinct_dict_set [of "open_of b key" start ?q] by (simp add: key_inv_def dict_keys_def)
    moreover have "after (until_of b key) (fst e + US_MINUTE) \<and> bar_ok (snd e)" if "e \<in> set (dict_set start ?q (open_of b key))" for e
      using that sub [of start ?q "open_of b key"] k [of key] q p(2)
      by (force simp: key_inv_def late_minute_def until_of_def after_def split: option.splits)
    ultimately have "key_inv (b\<lparr>bb_open := dict_set key (dict_set start ?q (open_of b key)) (bb_open b)\<rparr>) k'" for k'
      using k [of k'] by (simp add: key_inv_def open_of_set until_of_def)
    then show ?thesis by (simp add: builder_inv_def)
  qed
  show ?thesis using stats add i by (simp add: add_tick_def split: option.split)
qed

lemma add_tick_same: "bb_grace (add_tick key start price now vol b) = bb_grace b"
  "until_of (add_tick key start price now vol b) k = until_of b k"
  by (simp_all add: add_tick_def until_of_def split: option.split)

lemma feed_step: "builder_inv b \<Longrightarrow> builder_step now b (feed key ts price now vol b)"
proof -
  assume i: "builder_inv b"
  let ?b0 = "b\<lparr>bb_stats := (bb_stats b)\<lparr>st_ticks := st_ticks (bb_stats b) + 1\<rparr>\<rparr>"
  have "builder_inv ?b0" using i by (simp add: builder_inv_def key_inv_def open_of_def until_of_def)
  then have s: "builder_step now ?b0 (close_due now (Some [key]) ?b0)" unfolding close_due_def by (rule close_keys_step)
  obtain b1 xs where c: "close_due now (Some [key]) ?b0 = (b1, xs)" by fastforce
  have "builder_step now b (b1, xs)" using s unfolding c by (simp add: builder_step_def until_of_def)
  then have "builder_step now b (add_tick key (minute_start ts) price now vol b1, xs)"
    using add_tick_inv [of b1] by (simp add: builder_step_def add_tick_same)
  then show ?thesis unfolding feed_def Let_def c by simp
qed

lemma suppress_key_inv: "builder_inv b \<Longrightarrow> builder_inv (suppress_key start stop key b)"
proof -
  assume i: "builder_inv b"
  have o: "open_of (suppress_key start stop key b) k =
      (if k = key then filter (\<lambda>e. \<not> (start \<le> fst e \<and> fst e < stop)) (open_of b key) else open_of b k)" for k
    by (simp add: suppress_key_def open_of_def dict_get_or_def Let_def split: option.split)
  have u: "until_of (suppress_key start stop key b) k = until_of b k" for k by (simp add: suppress_key_def until_of_def Let_def)
  have "key_inv (suppress_key start stop key b) k" for k
  proof -
    have "distinct (map fst (open_of b k))" using i by (simp add: builder_inv_def key_inv_def)
    then have d: "distinct (map fst (open_of (suppress_key start stop key b) k))" by (auto simp: o distinct_map_filter)
    have "set (open_of (suppress_key start stop key b) k) \<subseteq> set (open_of b k)" unfolding o by simp
    then show ?thesis unfolding key_inv_def u using d builder_invD [OF i] by blast
  qed
  then show ?thesis by (simp add: builder_inv_def)
qed

lemma suppress_same: "bb_grace (suppress keys start stop b) = bb_grace b" "bb_emitted_until (suppress keys start stop b) = bb_emitted_until b"
proof -
  have "bb_grace (fold (suppress_key s stop) keys b) = bb_grace b \<and> bb_emitted_until (fold (suppress_key s stop) keys b) = bb_emitted_until b" for s
    by (induction keys arbitrary: b) (simp_all add: suppress_key_def Let_def)
  then show "bb_grace (suppress keys start stop b) = bb_grace b" "bb_emitted_until (suppress keys start stop b) = bb_emitted_until b"
    by (simp_all add: suppress_def)
qed

lemma suppress_inv: "builder_inv b \<Longrightarrow> builder_inv (suppress keys start stop b)"
proof -
  have "builder_inv b \<Longrightarrow> builder_inv (fold (suppress_key s stop) keys b)" for s
    by (induction keys arbitrary: b) (simp_all add: suppress_key_inv)
  then show "builder_inv b \<Longrightarrow> builder_inv (suppress keys start stop b)" by (simp add: suppress_def)
qed

lemma forget_inv: "builder_inv b \<Longrightarrow> builder_inv (forget keys b)"
proof -
  assume i: "builder_inv b"
  have g: "dict_get (fold dict_pop keys d) k = (if k \<in> set keys then None else dict_get d k)" for k and d :: "(string, (int, open_bar) dict) dict"
    by (induction keys arbitrary: d) (auto simp: dict_get_pop)
  have "open_of (forget keys b) k = (if k \<in> set keys then [] else open_of b k)" for k
    by (simp add: open_of_def forget_def dict_get_or_def g)
  then show ?thesis using i by (simp add: builder_inv_def key_inv_def until_of_def forget_def)
qed

section \<open>Whole runs\<close>

datatype bar_op =
    FeedOp string int "pyfloat option" int "int option"
  | FlushOp int
  | SuppressOp "string list" int int
  | ForgetOp "string list"

fun bar_step :: "bar_op \<Rightarrow> builder \<Rightarrow> builder \<times> feed_bar list" where
  "bar_step (FeedOp key ts price now vol) b = feed key ts price now vol b"
| "bar_step (FlushOp now) b = close_due now None b"
| "bar_step (SuppressOp keys start stop) b = (suppress keys start stop b, [])"
| "bar_step (ForgetOp keys) b = (forget keys b, [])"

fun clock_of :: "bar_op \<Rightarrow> int" where
  "clock_of (FeedOp _ _ _ now _) = now"
| "clock_of (FlushOp now) = now"
| "clock_of _ = 0"

text \<open>Every bar handed out, with the clock reading of the operation that handed it out.\<close>

fun bar_run :: "bar_op list \<Rightarrow> builder \<Rightarrow> builder \<times> (int \<times> feed_bar) list" where
  "bar_run [] b = (b, [])"
| "bar_run (x # ops) b =
     (let (b1, xs) = bar_step x b; (b2, ys) = bar_run ops b1 in (b2, map (Pair (clock_of x)) xs @ ys))"

lemma bar_step_ok: "builder_inv b \<Longrightarrow> builder_step (clock_of x) b (bar_step x b)"
proof (cases x)
  case (SuppressOp keys start stop)
  assume "builder_inv b"
  then show ?thesis unfolding SuppressOp bar_step.simps by (intro step_none suppress_inv) (simp_all add: suppress_same)
next
  case (ForgetOp keys)
  assume "builder_inv b"
  then show ?thesis unfolding ForgetOp bar_step.simps by (intro step_none forget_inv) (simp_all add: forget_def)
qed (simp_all add: feed_step close_due_def close_keys_step)

definition run_ends :: "string \<Rightarrow> (int \<times> feed_bar) list \<Rightarrow> int list" where
  "run_ends key out = ends_of key (map snd out)"

lemma bar_run_ok:
  "builder_inv b \<Longrightarrow> rises (until_of b key) (run_ends key (snd (bar_run ops b))) \<and>
     (\<forall>x \<in> set (snd (bar_run ops b)). bar_sound (fst x) (bb_grace b) (snd x))"
proof (induction ops arbitrary: b)
  case (Cons x ops)
  obtain b1 xs where s: "bar_step x b = (b1, xs)" by fastforce
  have st: "builder_step (clock_of x) b (b1, xs)" using bar_step_ok [OF Cons.prems, of x] s by simp
  then have IH: "rises (until_of b1 key) (run_ends key (snd (bar_run ops b1)))"
    "\<forall>y \<in> set (snd (bar_run ops b1)). bar_sound (fst y) (bb_grace b) (snd y)"
    using Cons.IH [of b1] by (simp_all add: builder_step_def)
  have m: "map snd (map (Pair c) l) = l" for c and l :: "feed_bar list" by (induction l) simp_all
  have "run_ends key (snd (bar_run (x # ops) b)) = ends_of key xs @ run_ends key (snd (bar_run ops b1))"
    by (simp add: s run_ends_def case_prod_beta Let_def ends_of_def m comp_def)
  then show ?case using st IH by (auto simp: builder_step_def rises_append list_all_iff s case_prod_beta Let_def)
qed (simp add: run_ends_def ends_of_def)

text \<open>
  C25. The feed never repaints and never looks ahead: over any sequence of ticks, flushes, gaps and
  departures, at any clock readings (also ones that jump back), the bars handed out for an instrument
  have strictly increasing ENDs, so no minute is handed out twice or after a later one; each is handed
  out only at or after its END plus the grace window, with low, open, close and high in order and
  a volume that is not negative.
\<close>

theorem feed_never_repaints:
  "sorted_wrt (<) (run_ends key (snd (bar_run ops (new_builder grace)))) \<and>
   (\<forall>x \<in> set (snd (bar_run ops (new_builder grace))). bar_sound (fst x) grace (snd x))"
proof -
  have i: "builder_inv (new_builder grace)"
    by (simp add: builder_inv_def key_inv_def open_of_def dict_get_or_def new_builder_def)
  have g: "bb_grace (new_builder grace) = grace" by (simp add: new_builder_def)
  show ?thesis using bar_run_ok [OF i, of key ops] rises_sorted unfolding g by blast
qed

section \<open>What the resampler hands out\<close>

definition ohlc_ok :: "feed_bar \<Rightarrow> bool" where
  "ohlc_ok x = (fb_low x \<le> fb_open x \<and> fb_low x \<le> fb_close x \<and> fb_open x \<le> fb_high x \<and> fb_close x \<le> fb_high x)"

lemma fold_max_ge: "m \<le> fold (\<lambda>x m. max m (f x)) xs m \<and> (\<forall>x \<in> set xs. f x \<le> fold (\<lambda>x m. max m (f x)) xs (m :: pyfloat))"
proof (induction xs arbitrary: m)
  case (Cons x xs)
  show ?case using Cons.IH [of "max m (f x)"] by auto
qed simp

lemma fold_min_le: "fold (\<lambda>x m. min m (f x)) xs m \<le> m \<and> (\<forall>x \<in> set xs. fold (\<lambda>x m. min m (f x)) xs (m :: pyfloat) \<le> f x)"
proof (induction xs arbitrary: m)
  case (Cons x xs)
  show ?case using Cons.IH [of "min m (f x)"] by auto
qed simp

lemma combine_ok:
  assumes "grp \<noteq> []" "\<forall>x \<in> set grp. ohlc_ok x"
  shows "ohlc_ok (combine_bars minutes e grp)"
proof -
  obtain g gs where g: "grp = g # gs" using assms(1) by (cases grp) auto
  have l: "last grp \<in> set grp" using assms(1) by simp
  have hi: "x \<in> set grp \<Longrightarrow> fb_high x \<le> fb_high (combine_bars minutes e grp)" for x
    using fold_max_ge [of "fb_high g" fb_high gs] by (auto simp: combine_bars_def g)
  have lo: "x \<in> set grp \<Longrightarrow> fb_low (combine_bars minutes e grp) \<le> fb_low x" for x
    using fold_min_le [of fb_low gs "fb_low g"] by (auto simp: combine_bars_def g)
  have "fb_open (combine_bars minutes e grp) = fb_open g" "fb_close (combine_bars minutes e grp) = fb_close (last grp)"
    by (simp_all add: combine_bars_def g)
  then show ?thesis
    using hi [of g] hi [OF l] lo [of g] lo [OF l] assms(2) l by (auto simp: ohlc_ok_def g intro: order_trans)
qed

lemma resample_facts:
  assumes "x \<in> set (resample ex minutes bars)" "\<forall>y \<in> set bars. ohlc_ok y \<and> fb_key y = key"
  shows "ohlc_ok x \<and> fb_key x = key"
proof (cases "minutes = 1")
  case True
  then show ?thesis using assms by (simp add: resample_def)
next
  case False
  let ?f = "\<lambda>y. bucket_end_at ex minutes (fb_ts y - US_MINUTE)"
  let ?grp = "\<lambda>e. filter (\<lambda>y. ?f y = e) (sort_key fb_ts bars)"
  obtain e where e: "x = combine_bars minutes e (?grp e)" "e \<in> ?f ` set bars"
    using assms(1) False by (auto simp: resample_def Let_def)
  have sub: "set (?grp e) \<subseteq> set bars" and ne: "?grp e \<noteq> []" using e(2) by (auto simp: filter_empty_conv)
  have "ohlc_ok x" unfolding e(1) using sub assms(2) by (intro combine_ok [OF ne]) auto
  moreover have "hd (?grp e) \<in> set bars" using sub ne hd_in_set by blast
  ultimately show ?thesis using assms(2) by (simp add: e(1) combine_bars_def)
qed

definition bucket_ok :: "resampler \<Rightarrow> string \<Rightarrow> bucket \<Rightarrow> bool" where
  "bucket_ok r key k = ((\<forall>y \<in> set (bu_bars k). ohlc_ok y \<and> fb_key y = key) \<and> (overlaps_gap r key (bu_end k) \<longrightarrow> bu_tainted k))"

definition resampler_inv :: "resampler \<Rightarrow> bool" where
  "resampler_inv r = (distinct (map fst (rs_buckets r)) \<and> (\<forall>e \<in> set (rs_buckets r). bucket_ok r (fst e) (snd e)))"

lemma emit_bucket_ok:
  assumes "bucket_ok r key k" "x \<in> set (emit_bucket r key k)"
  shows "ohlc_ok x \<and> fb_key x = key \<and> \<not> overlaps_gap r key (fb_ts x)"
proof -
  obtain y where y: "y \<in> set (resample (exchange_of key) (rs_minutes r) (bu_bars k))"
    "x = y\<lparr>fb_volume_known := list_all fb_volume_known (bu_bars k)\<rparr>" "fb_ts x = bu_end k" "\<not> bu_tainted k"
    using assms(2) by (auto simp: emit_bucket_def split: if_splits)
  then show ?thesis using resample_facts [OF y(1), of key] assms(1) by (auto simp: bucket_ok_def ohlc_ok_def)
qed

lemma overlaps_cong [simp]: "overlaps_gap (r\<lparr>rs_buckets := bs\<rparr>) key e = overlaps_gap r key e"
  by (simp add: overlaps_gap_def)

lemma bucket_ok_cong [simp]: "bucket_ok (r\<lparr>rs_buckets := bs\<rparr>) key k = bucket_ok r key k"
  by (simp add: bucket_ok_def)

lemma set_dict_set: "set (dict_set a v d) \<subseteq> insert (a, v) (set d)"
  by (induction a v d rule: dict_set.induct) auto

lemma inv_set:
  assumes "resampler_inv r" "bucket_ok r key k" "set d \<subseteq> set (rs_buckets r)" "distinct (map fst d)"
  shows "resampler_inv (r\<lparr>rs_buckets := dict_set key k d\<rparr>)"
proof -
  have "bucket_ok r (fst e) (snd e)" if "e \<in> set (dict_set key k d)" for e
  proof (cases "e = (key, k)")
    case False
    then have "e \<in> set (rs_buckets r)" using that assms(3) set_dict_set [of key k d] by blast
    then show ?thesis using assms(1) by (simp add: resampler_inv_def)
  qed (use assms(2) in simp)
  then show ?thesis using assms(4) distinct_dict_set [of d key k] by (simp add: resampler_inv_def dict_keys_def)
qed

datatype resample_op = AddOp feed_bar | TaintOp string int int | CloseOp int | DropOp "string list"

fun resample_step :: "resample_op \<Rightarrow> resampler \<Rightarrow> resampler \<times> feed_bar list" where
  "resample_step (AddOp bar) r = add_minute bar r"
| "resample_step (TaintOp key start stop) r = (taint key start stop r, [])"
| "resample_step (CloseOp now) r = close_buckets now r"
| "resample_step (DropOp keys) r = (forget_buckets keys r, [])"

definition op_ok :: "resample_op \<Rightarrow> bool" where
  "op_ok x = (case x of AddOp bar \<Rightarrow> ohlc_ok bar | _ \<Rightarrow> True)"

lemma get_in: "dict_get d k = Some v \<Longrightarrow> (k, v) \<in> set d"
  by (simp add: dict_get_def map_of_SomeD)

lemma add_minute_ok:
  assumes "resampler_inv r" "ohlc_ok bar"
  shows "resampler_inv (fst (add_minute bar r)) \<and>
    (\<forall>x \<in> set (snd (add_minute bar r)). ohlc_ok x \<and> \<not> overlaps_gap r (fb_key x) (fb_ts x))"
proof -
  let ?key = "fb_key bar" let ?e = "bucket_end (rs_minutes r) bar"
  let ?fresh = "\<lparr>bu_end = ?e, bu_bars = [bar], bu_tainted = overlaps_gap r ?key ?e\<rparr>"
  have fresh: "bucket_ok r ?key ?fresh" using assms(2) by (simp add: bucket_ok_def)
  have sub: "set (dict_pop ?key (rs_buckets r)) \<subseteq> set (rs_buckets r)" by (auto simp: dict_pop_def)
  have d: "distinct (map fst (rs_buckets r))" "distinct (map fst (dict_pop ?key (rs_buckets r)))"
    using assms(1) by (simp_all add: resampler_inv_def dict_pop_def distinct_map_filter)
  have old: "bucket_ok r ?key k" if "dict_get (rs_buckets r) ?key = Some k" for k
    using assms(1) get_in [OF that] by (auto simp: resampler_inv_def)
  show ?thesis
  proof (cases "is_post_close ?key bar")
    case True
    then show ?thesis using assms(1) by (simp add: add_minute_def Let_def)
  next
    case False
    show ?thesis
    proof (cases "dict_get (rs_buckets r) ?key")
      case None
      show ?thesis using inv_set [OF assms(1) fresh order_refl d(1)] False by (simp add: add_minute_def Let_def None)
    next
      case (Some k)
      have app: "bucket_ok r ?key (k\<lparr>bu_bars := bu_bars k @ [bar]\<rparr>)" using old [OF Some] assms(2) by (auto simp: bucket_ok_def)
      have i: "resampler_inv (r\<lparr>rs_buckets := dict_set ?key ?fresh (dict_pop ?key (rs_buckets r))\<rparr>)"
        "resampler_inv (r\<lparr>rs_buckets := dict_set ?key (k\<lparr>bu_bars := bu_bars k @ [bar]\<rparr>) (rs_buckets r)\<rparr>)"
        by (rule inv_set [OF assms(1) fresh sub d(2)], rule inv_set [OF assms(1) app order_refl d(1)])
      have out: "\<forall>x \<in> set (emit_bucket r ?key k). ohlc_ok x \<and> \<not> overlaps_gap r (fb_key x) (fb_ts x)"
        using emit_bucket_ok [OF old [OF Some]] by simp
      show ?thesis using i out assms(1) False by (simp add: add_minute_def Let_def Some)
    qed
  qed
qed

lemma overlaps_other: "key' \<noteq> key \<Longrightarrow> overlaps_gap (r\<lparr>rs_gaps := dict_set key ws (rs_gaps r)\<rparr>) key' e = overlaps_gap r key' e"
  by (simp add: overlaps_gap_def dict_get_or_def)

lemma dict_set_keys_same: "dict_get d k \<noteq> None \<Longrightarrow> map fst (dict_set k v d) = map fst d"
  by (induction k v d rule: dict_set.induct) (auto simp: dict_get_def split: if_splits)

lemma set_dict_set_same:
  "distinct (map fst d) \<Longrightarrow> e \<in> set (dict_set k v d) \<Longrightarrow> e = (k, v) \<or> e \<in> set d \<and> fst e \<noteq> k"
proof (induction k v d rule: dict_set.induct)
  case (2 k v k' v' d)
  then show ?case by (auto split: if_splits)
qed simp

lemma taint_ok:
  assumes "resampler_inv r"
  shows "resampler_inv (taint key start stop r)"
proof -
  let ?ws = "add_window (minute_start start) stop (dict_get_or (rs_gaps r) key [])"
  let ?r = "r\<lparr>rs_gaps := dict_set key ?ws (rs_gaps r)\<rparr>"
  have b: "rs_buckets ?r = rs_buckets r" by simp
  have d: "distinct (map fst (rs_buckets r))" using assms by (simp add: resampler_inv_def)
  have old: "bucket_ok r (fst e) (snd e)" if "e \<in> set (rs_buckets r)" for e using assms that by (simp add: resampler_inv_def)
  have other: "bucket_ok ?r (fst e) (snd e)" if "e \<in> set (rs_buckets r)" "fst e \<noteq> key" for e
    using old [OF that(1)] that(2) by (simp add: bucket_ok_def overlaps_other)
  show ?thesis
  proof (cases "dict_get (rs_buckets r) key")
    case None
    then have "fst e \<noteq> key" if "e \<in> set (rs_buckets r)" for e
      using that by (auto simp: dict_get_def map_of_eq_None_iff)
    then show ?thesis using other d None by (simp add: taint_def resampler_inv_def)
  next
    case (Some k)
    have key: "e = (key, k)" if "e \<in> set (rs_buckets r)" "fst e = key" for e
      using map_of_is_SomeI [OF d, of "fst e" "snd e"] that Some by (metis dict_get_def option.sel prod.collapse)
    have k: "bucket_ok r key k" using old [OF get_in [OF Some]] by simp
    show ?thesis
    proof (cases "overlaps_gap ?r key (bu_end k)")
      case True
      let ?k = "k\<lparr>bu_tainted := True\<rparr>"
      have "bucket_ok ?r key ?k" using k by (simp add: bucket_ok_def)
      then have "bucket_ok ?r (fst e) (snd e)" if "e \<in> set (dict_set key ?k (rs_buckets r))" for e
        using set_dict_set_same [OF d that] other by auto
      moreover have "distinct (map fst (dict_set key ?k (rs_buckets r)))" using d distinct_dict_set [of "rs_buckets r"] by (simp add: dict_keys_def)
      ultimately show ?thesis using Some True by (simp add: taint_def resampler_inv_def)
    next
      case False
      then have "bucket_ok ?r key k" using k by (simp add: bucket_ok_def)
      then have "bucket_ok ?r (fst e) (snd e)" if "e \<in> set (rs_buckets r)" for e
        using other [OF that] key [OF that] by (cases "fst e = key") auto
      then show ?thesis using Some False d by (simp add: taint_def resampler_inv_def)
    qed
  qed
qed

lemma inv_subset:
  "resampler_inv r \<Longrightarrow> set bs \<subseteq> set (rs_buckets r) \<Longrightarrow> distinct (map fst bs) \<Longrightarrow> resampler_inv (r\<lparr>rs_buckets := bs\<rparr>)"
  by (auto simp: resampler_inv_def)

lemma close_buckets_ok:
  assumes "resampler_inv r"
  shows "resampler_inv (fst (close_buckets now r)) \<and>
    (\<forall>x \<in> set (snd (close_buckets now r)). ohlc_ok x \<and> \<not> overlaps_gap r (fb_key x) (fb_ts x))"
proof -
  have i: "resampler_inv (fst (close_buckets now r))"
    unfolding close_buckets_def Let_def fst_conv
    by (rule inv_subset [OF assms]) (use assms in \<open>auto simp: resampler_inv_def distinct_map_filter\<close>)
  have "ohlc_ok x \<and> \<not> overlaps_gap r (fb_key x) (fb_ts x)" if x: "x \<in> set (snd (close_buckets now r))" for x
  proof -
    obtain key k where k: "(key, k) \<in> set (rs_buckets r)" "x \<in> set (emit_bucket r key k)"
      using x by (auto simp: close_buckets_def Let_def)
    have "bucket_ok r key k" using assms k(1) by (auto simp: resampler_inv_def)
    then show ?thesis using emit_bucket_ok [OF _ k(2)] by auto
  qed
  then show ?thesis using i by blast
qed

lemma forget_buckets_ok: "resampler_inv r \<Longrightarrow> resampler_inv (forget_buckets keys r)"
proof -
  assume i: "resampler_inv r"
  have "set (fold dict_pop keys d) \<subseteq> set d \<and> (distinct (map fst d) \<longrightarrow> distinct (map fst (fold dict_pop keys d)))" for d :: "(string, bucket) dict"
  proof (induction keys arbitrary: d)
    case (Cons k keys)
    have "set (dict_pop k d) \<subseteq> set d" "distinct (map fst d) \<Longrightarrow> distinct (map fst (dict_pop k d))"
      by (auto simp: dict_pop_def distinct_map_filter)
    then show ?case using Cons [of "dict_pop k d"] by auto
  qed simp
  then show ?thesis unfolding forget_buckets_def using i by (intro inv_subset) (auto simp: resampler_inv_def)
qed

lemma resample_step_ok:
  assumes "resampler_inv r" "op_ok x"
  shows "resampler_inv (fst (resample_step x r)) \<and>
    (\<forall>y \<in> set (snd (resample_step x r)). ohlc_ok y \<and> \<not> overlaps_gap r (fb_key y) (fb_ts y))"
proof (cases x)
  case (AddOp bar)
  then show ?thesis using add_minute_ok [OF assms(1), of bar] assms(2) by (simp add: op_ok_def)
next
  case (CloseOp now)
  then show ?thesis using close_buckets_ok [OF assms(1), of now] by simp
qed (simp_all add: taint_ok forget_buckets_ok assms(1))

fun resample_run :: "resample_op list \<Rightarrow> resampler \<Rightarrow> resampler" where
  "resample_run [] r = r"
| "resample_run (x # xs) r = resample_run xs (fst (resample_step x r))"

lemma resample_run_inv: "resampler_inv r \<Longrightarrow> list_all op_ok xs \<Longrightarrow> resampler_inv (resample_run xs r)"
proof (induction xs arbitrary: r)
  case (Cons x xs)
  then show ?case using resample_step_ok [OF Cons.prems(1), of x] by simp
qed simp

text \<open>
  C26. A gap is never papered over: after any sequence of minutes, gaps, flushes and departures, a
  resampled bar is handed out only if its bucket holds no minute of a gap recorded for that
  instrument at that moment, and with low, open, close and high in order when its minutes have them.
\<close>

theorem gaps_never_resampled:
  assumes "r = resample_run xs \<lparr>rs_minutes = m, rs_grace = g, rs_buckets = [], rs_gaps = []\<rparr>" "list_all op_ok xs" "op_ok x"
    and "y \<in> set (snd (resample_step x r))"
  shows "ohlc_ok y \<and> \<not> overlaps_gap r (fb_key y) (fb_ts y)"
proof -
  have "resampler_inv r" unfolding assms(1) by (rule resample_run_inv [OF _ assms(2)]) (simp add: resampler_inv_def)
  then show ?thesis using resample_step_ok [OF _ assms(3)] assms(4) by blast
qed

section \<open>Witnesses\<close>

definition demo_minute :: "int \<Rightarrow> feed_bar" where
  "demo_minute t = \<lparr>fb_key = ''NSE:INFY'', fb_minutes = 1, fb_ts = t, fb_open = 10, fb_high = 12, fb_low = 9, fb_close = 11,
     fb_volume = 5, fb_volume_known = True\<rparr>"

theorem gaps_never_resampled_witness:
  "let r = resample_run [AddOp (demo_minute (hms 4 0 0))] \<lparr>rs_minutes = 5, rs_grace = 0, rs_buckets = [], rs_gaps = []\<rparr>;
       y = hd (snd (resample_step (CloseOp (hms 4 0 0)) r))
   in snd (resample_step (CloseOp (hms 4 0 0)) r) \<noteq> [] \<and> \<not> overlaps_gap r (fb_key y) (fb_ts y)"
proof -
  let ?r = "resample_run [AddOp (demo_minute (hms 4 0 0))] \<lparr>rs_minutes = 5, rs_grace = 0, rs_buckets = [], rs_gaps = []\<rparr>"
  let ?out = "snd (resample_step (CloseOp (hms 4 0 0)) ?r)"
  have ne: "?out \<noteq> []" by code_simp
  have a: "list_all op_ok [AddOp (demo_minute (hms 4 0 0))]" "op_ok (CloseOp (hms 4 0 0))"
    by (simp_all add: op_ok_def ohlc_ok_def demo_minute_def)
  have "hd ?out \<in> set ?out" using ne by (rule hd_in_set)
  then show ?thesis using ne gaps_never_resampled [OF refl a, of "hd ?out" 5 0] by (simp add: Let_def)
qed

theorem feed_never_repaints_witness:
  "list_all (\<lambda>x. bar_sound (fst x) 0 (snd x))
     (snd (bar_run [FeedOp ''NSE:INFY'' (hms 4 0 1) (Some 10) (hms 4 0 1) None, FlushOp (hms 4 1 0)] (new_builder 0))) \<and>
   snd (bar_run [FeedOp ''NSE:INFY'' (hms 4 0 1) (Some 10) (hms 4 0 1) None, FlushOp (hms 4 1 0)] (new_builder 0)) \<noteq> []"
proof -
  let ?ops = "[FeedOp ''NSE:INFY'' (hms 4 0 1) (Some 10) (hms 4 0 1) None, FlushOp (hms 4 1 0)]"
  have "snd (bar_run ?ops (new_builder 0)) \<noteq> []" by code_simp
  then show ?thesis using feed_never_repaints [of "''NSE:INFY''" ?ops 0] by (simp only: list_all_iff) simp
qed

end
