(* ===== verification/AccountPlan.thy ===== *)
theory AccountPlan
  imports Pyfloat "HOL-Library.Multiset" "HOL-Library.Product_Lexorder"
begin

text \<open>
  Which of a user's accounts an order goes to and how much each one gets:
  \<open>app/accounts/fanout_plan.py\<close> (routing matrix, sizing, the plan of legs and skips),
  \<open>app/accounts/routing.py\<close> (the account of a LIVE deployment), the slices below the exchange's
  freeze quantity (\<open>slice_units\<close> of \<open>app/execution/smart_execution.py\<close>, \<open>max_slice_units\<close> of
  \<open>app/instruments/freeze_limits.py\<close>) and the user's own position size
  (\<open>app/execution/position_size.py\<close>). A reason shown to the user is a constructor that carries
  the values the text is built from.
\<close>

section \<open>Slices below the freeze quantity\<close>

text \<open>\<open>not freeze_qty\<close> holds for \<open>None\<close> and for zero. Python's \<open>//\<close> rounds towards minus infinity, as \<open>div\<close> does.\<close>

definition max_slice_units :: "int option \<Rightarrow> int \<Rightarrow> int option" where
  "max_slice_units freeze_qty lot_size =
     (case freeze_qty of
        None \<Rightarrow> None
      | Some f \<Rightarrow> if f = 0 \<or> lot_size \<le> 0 then None else Some (max lot_size ((f - 1) div lot_size * lot_size)))"

definition slice_units :: "int \<Rightarrow> int \<Rightarrow> int option \<Rightarrow> int list" where
  "slice_units units lot_size freeze_qty =
     (let lot = max 1 lot_size in
      if units \<le> 0 then []
      else case max_slice_units freeze_qty lot of
        None \<Rightarrow> [units]
      | Some biggest \<Rightarrow>
          if units \<le> biggest then [units]
          else replicate (nat (units div biggest)) biggest
                 @ (if units mod biggest \<noteq> 0 then [units mod biggest] else []))"

definition is_buy :: "string \<Rightarrow> bool" where
  "is_buy s = (py_upper s = ''BUY'')"

definition indexes_where :: "(string \<Rightarrow> bool) \<Rightarrow> string list \<Rightarrow> nat list" where
  "indexes_where P sides = map fst (filter (\<lambda>(i, s). P s) (enumerate 0 sides))"

definition entry_sequence :: "string list \<Rightarrow> nat list" where
  "entry_sequence sides = indexes_where is_buy sides @ indexes_where (\<lambda>s. \<not> is_buy s) sides"

definition exit_sequence :: "string list \<Rightarrow> nat list" where
  "exit_sequence sides = indexes_where (\<lambda>s. \<not> is_buy s) sides @ indexes_where is_buy sides"

section \<open>The fan-out plan: routing\<close>

definition PRIMARY :: string where "PRIMARY = ''PRIMARY''"
definition SECONDARY :: string where "SECONDARY = ''SECONDARY''"
definition ENTRY :: string where "ENTRY = ''ENTRY''"
definition ADJUSTMENT :: string where "ADJUSTMENT = ''ADJUSTMENT''"
definition EXIT_CLASSES :: "string list" where
  "EXIT_CLASSES = [''EXIT'', ''COMBINED_EXIT'', ''STOP_TARGET'']"
definition ORDER_CLASSES :: "string list" where
  "ORDER_CLASSES = [ENTRY, ADJUSTMENT] @ EXIT_CLASSES"
definition FOLLOW_POSITIONS :: string where "FOLLOW_POSITIONS = ''FOLLOW_POSITIONS''"

text \<open>A row of the matrix is a text or a collection of columns.\<close>

datatype matrix_row = RowText string | RowColumns "string list"

type_synonym matrix = "(string, matrix_row) dict"

definition DEFAULT_MATRIX :: matrix where
  "DEFAULT_MATRIX = [(ENTRY, RowColumns [PRIMARY]), (ADJUSTMENT, RowText FOLLOW_POSITIONS)]"

record account =
  ac_id :: int
  ac_role :: "string option"
  ac_group :: "string option"
  ac_enabled :: bool
  ac_capital :: "pyfloat option"

record sizing =
  sz_mode :: "string option"
  sz_value :: "pyfloat option"

definition no_sizing :: sizing where
  "no_sizing = \<lparr>sz_mode = None, sz_value = None\<rparr>"

datatype skip_reason =
    SwitchedOff
  | NeedsSizing
  | UnknownSizingMode string
  | SizingNotPositive
  | NoCapital
  | NoMargin
  | UnderOneLot

datatype route_why = ExitsToHolders | FollowsHolders | ByOverride string | ByMatrix

record plan_route =
  rt_accounts :: "account list"
  rt_skipped :: "(int \<times> skip_reason) list"
  rt_why :: route_why

record leg =
  lg_account :: int
  lg_lots :: int
  lg_slices :: "int list"

record sized_plan =
  sp_legs :: "leg list"
  sp_skipped :: "(int \<times> skip_reason) list"

datatype plan_error = BadOverride | UnknownOrderClass string

definition starts_with :: "string \<Rightarrow> string \<Rightarrow> bool" where
  "starts_with p s = (take (length p) s = p)"

definition all_digits :: "string \<Rightarrow> bool" where
  "all_digits s = (s \<noteq> [] \<and> list_all is_digit s)"

definition override_columns :: "string \<Rightarrow> plan_error + matrix_row" where
  "override_columns override =
     (let t = py_strip override in
      if py_upper t = ''ALL'' then Inr (RowColumns [''ALL''])
      else if py_upper t = PRIMARY then Inr (RowColumns [PRIMARY])
      else if starts_with (PRIMARY @ ''+'') (py_upper t)
        then Inr (RowColumns [PRIMARY, py_strip (drop (length PRIMARY + 1) t)])
      else if starts_with ''ACCOUNT:'' (py_upper t) \<and> all_digits (py_strip (drop 8 t))
        then Inr (RowColumns [''ID:'' @ py_strip (drop 8 t)])
      else Inl BadOverride)"

definition matrix_columns :: "string \<Rightarrow> matrix \<Rightarrow> string option \<Rightarrow> plan_error + matrix_row" where
  "matrix_columns cls m override =
     (if truthy override then override_columns (the override)
      else Inr (case dict_get m cls of
          Some row \<Rightarrow> row
        | None \<Rightarrow> (case dict_get DEFAULT_MATRIX cls of Some row \<Rightarrow> row | None \<Rightarrow> RowColumns [PRIMARY])))"

definition merge_matrix :: "matrix option \<Rightarrow> matrix" where
  "merge_matrix m = fold (\<lambda>(k, v) d. dict_set k v d) (case m of None \<Rightarrow> [] | Some d \<Rightarrow> d) DEFAULT_MATRIX"

definition wanted_columns :: "matrix_row \<Rightarrow> string list" where
  "wanted_columns row = (case row of RowColumns cs \<Rightarrow> cs | RowText s \<Rightarrow> [s])"

definition in_play :: "account \<Rightarrow> bool" where
  "in_play a = (ac_role a = Some PRIMARY \<or> ac_role a = Some SECONDARY)"

definition column_takes :: "string list \<Rightarrow> account \<Rightarrow> bool" where
  "column_takes wanted a =
     (''ALL'' \<in> set wanted \<or> (''ID:'' @ show_int (ac_id a)) \<in> set wanted
      \<or> (ac_role a = Some PRIMARY \<and> PRIMARY \<in> set wanted)
      \<or> (ac_role a = Some SECONDARY \<and> (case ac_group a of None \<Rightarrow> False | Some g \<Rightarrow> g \<in> set wanted)))"

definition split_enabled :: "account list \<Rightarrow> route_why \<Rightarrow> plan_route" where
  "split_enabled chosen why =
     \<lparr>rt_accounts = filter ac_enabled chosen,
      rt_skipped = map (\<lambda>a. (ac_id a, SwitchedOff)) (filter (\<lambda>a. \<not> ac_enabled a) chosen),
      rt_why = why\<rparr>"

definition resolve ::
  "string \<Rightarrow> account list \<Rightarrow> matrix option \<Rightarrow> string option \<Rightarrow> int list \<Rightarrow> plan_error + plan_route" where
  "resolve cls accounts m override holding =
     (if cls \<notin> set ORDER_CLASSES then Inl (UnknownOrderClass cls)
      else if cls \<in> set EXIT_CLASSES
        then Inr \<lparr>rt_accounts = filter (\<lambda>a. ac_id a \<in> set holding) accounts, rt_skipped = [], rt_why = ExitsToHolders\<rparr>
      else case matrix_columns cls (merge_matrix m) override of
        Inl e \<Rightarrow> Inl e
      | Inr row \<Rightarrow>
          if row = RowText FOLLOW_POSITIONS
          then Inr (split_enabled (filter (\<lambda>a. in_play a \<and> ac_id a \<in> set holding) accounts) FollowsHolders)
          else Inr (split_enabled (filter (\<lambda>a. in_play a \<and> column_takes (wanted_columns row) a) accounts)
                      (if truthy override then ByOverride (the override) else ByMatrix)))"

section \<open>The fan-out plan: sizing\<close>

definition FIXED :: string where "FIXED = ''FIXED''"
definition MULTIPLIER :: string where "MULTIPLIER = ''MULTIPLIER''"
definition PCT_CAPITAL :: string where "PCT_CAPITAL = ''PCT_CAPITAL''"
definition SIZING_MODES :: "string list" where
  "SIZING_MODES = [FIXED, MULTIPLIER, PCT_CAPITAL]"

definition EPS9 :: pyfloat where "EPS9 = flit 1 1000000000"

text \<open>\<open>not x or x <= 0\<close> of an optional float.\<close>

definition not_above_zero :: "pyfloat option \<Rightarrow> bool" where
  "not_above_zero x = (case x of None \<Rightarrow> True | Some v \<Rightarrow> v \<le> 0)"

definition whole_lots :: "int \<Rightarrow> skip_reason + int" where
  "whole_lots n = (if n < 1 then Inl UnderOneLot else Inr n)"

definition lots_for :: "account \<Rightarrow> sizing \<Rightarrow> int \<Rightarrow> pyfloat option \<Rightarrow> skip_reason + int" where
  "lots_for a s primary_lots margin_per_lot =
     (case (sz_mode s, sz_value s) of
        (Some m, Some v) \<Rightarrow>
          if m \<notin> set SIZING_MODES then Inl (UnknownSizingMode m)
          else if v \<le> 0 then Inl SizingNotPositive
          else if m = FIXED then whole_lots \<lfloor>v\<rfloor>
          else if m = MULTIPLIER then whole_lots \<lfloor>fadd (fmul (fl (of_int primary_lots)) v) EPS9\<rfloor>
          else if not_above_zero (ac_capital a) then Inl NoCapital
          else if not_above_zero margin_per_lot then Inl NoMargin
          else whole_lots \<lfloor>fadd (fdiv (fdiv (fmul (the (ac_capital a)) v) 100) (the margin_per_lot)) EPS9\<rfloor>
      | _ \<Rightarrow> if ac_role a = Some PRIMARY then Inr primary_lots else Inl NeedsSizing)"

definition size_account ::
  "(int, sizing) dict \<Rightarrow> int \<Rightarrow> int \<Rightarrow> int option \<Rightarrow> pyfloat option \<Rightarrow> account \<Rightarrow> sized_plan \<Rightarrow> sized_plan" where
  "size_account sizings primary_lots lot_size freeze_qty margin_per_lot a plan =
     (case lots_for a (case dict_get sizings (ac_id a) of None \<Rightarrow> no_sizing | Some s \<Rightarrow> s) primary_lots margin_per_lot of
        Inl reason \<Rightarrow> plan\<lparr>sp_skipped := sp_skipped plan @ [(ac_id a, reason)]\<rparr>
      | Inr lots \<Rightarrow> plan\<lparr>sp_legs := sp_legs plan @
            [\<lparr>lg_account = ac_id a, lg_lots = lots, lg_slices = slice_units (lots * lot_size) lot_size freeze_qty\<rparr>]\<rparr>)"

definition size_plan ::
  "plan_route \<Rightarrow> (int, sizing) dict \<Rightarrow> int \<Rightarrow> int \<Rightarrow> int option \<Rightarrow> pyfloat option \<Rightarrow> sized_plan" where
  "size_plan r sizings primary_lots lot_size freeze_qty margin_per_lot =
     fold (size_account sizings primary_lots lot_size freeze_qty margin_per_lot) (rt_accounts r)
       \<lparr>sp_legs = [], sp_skipped = rt_skipped r\<rparr>"

definition exit_quantities :: "(int, int) dict \<Rightarrow> (int, int) dict" where
  "exit_quantities held = filter (\<lambda>e. snd e \<noteq> 0) held"

section \<open>The account of a LIVE deployment\<close>

datatype routing_policy = EXPLICIT | MOST_MARGIN | LEAST_UTILISED | FEWEST_POSITIONS

definition ROUTING_MAX_SYNC_AGE_SECONDS :: int where "ROUTING_MAX_SYNC_AGE_SECONDS = 15 * 60"

record broker_account =
  ba_id :: int
  ba_status :: string
  ba_available :: "pyfloat option"
  ba_used :: "pyfloat option"
  ba_last_sync :: "pydt option"
  ba_label :: string

datatype route_note =
    NoBrokerAccount
  | ByPolicy int routing_policy
  | OnlyActive int routing_policy
  | NoneFresh int routing_policy int
  | ByMargin int pyfloat
  | ByUtilisation int pyfloat
  | ByPositions int int

record route_choice =
  rc_account :: "broker_account option"
  rc_note :: route_note
  rc_policy :: routing_policy
  rc_fell_back :: bool

definition choice_label :: "route_choice \<Rightarrow> string" where
  "choice_label c = (case rc_account c of None \<Rightarrow> ''primary'' | Some a \<Rightarrow> ba_label a)"

text \<open>\<open>float(x or 0.0)\<close>: a missing number counts as zero.\<close>

definition float_or0 :: "pyfloat option \<Rightarrow> pyfloat" where
  "float_or0 x = (case x of None \<Rightarrow> 0 | Some v \<Rightarrow> v)"

definition balance_is_fresh :: "broker_account \<Rightarrow> int \<Rightarrow> int \<Rightarrow> bool" where
  "balance_is_fresh a now max_age =
     (case ba_last_sync a of
        None \<Rightarrow> False
      | Some t \<Rightarrow> ba_available a \<noteq> None \<and> now - utc_instant t \<le> max_age * US_SECOND)"

definition utilisation :: "broker_account \<Rightarrow> pyfloat" where
  "utilisation a =
     (let used = float_or0 (ba_used a); total = fadd used (float_or0 (ba_available a)) in
      if 0 < total then fdiv used total else 1)"

text \<open>Python's \<open>min\<close> and \<open>max\<close> with a key: the first element with the extreme key.\<close>

fun min_by :: "('a \<Rightarrow> 'k :: linorder) \<Rightarrow> 'a \<Rightarrow> 'a list \<Rightarrow> 'a" where
  "min_by k b [] = b"
| "min_by k b (x # xs) = min_by k (if k x < k b then x else b) xs"

fun max_by :: "('a \<Rightarrow> 'k :: linorder) \<Rightarrow> 'a \<Rightarrow> 'a list \<Rightarrow> 'a" where
  "max_by k b [] = b"
| "max_by k b (x # xs) = max_by k (if k b < k x then x else b) xs"

definition open_count :: "(int, int) dict \<Rightarrow> broker_account \<Rightarrow> int" where
  "open_count counts a = (case dict_get counts (ba_id a) of None \<Rightarrow> 0 | Some n \<Rightarrow> n)"

definition margin_key :: "broker_account \<Rightarrow> pyfloat \<times> int" where
  "margin_key a = (float_or0 (ba_available a), - ba_id a)"

definition utilisation_key :: "broker_account \<Rightarrow> pyfloat \<times> int" where
  "utilisation_key a = (utilisation a, ba_id a)"

definition positions_key :: "(int, int) dict \<Rightarrow> broker_account \<Rightarrow> int \<times> pyfloat \<times> int" where
  "positions_key counts a = (open_count counts a, - float_or0 (ba_available a), ba_id a)"

definition by_capital :: "broker_account list \<Rightarrow> routing_policy \<Rightarrow> broker_account \<Rightarrow> int \<Rightarrow> route_choice" where
  "by_capital fresh policy target max_age =
     (case fresh of
        [] \<Rightarrow> \<lparr>rc_account = Some target, rc_note = NoneFresh (ba_id target) policy (max_age div 60),
               rc_policy = policy, rc_fell_back = True\<rparr>
      | a # rest \<Rightarrow>
          if policy = MOST_MARGIN
          then (let best = max_by margin_key a rest in
                \<lparr>rc_account = Some best, rc_note = ByMargin (ba_id best) (float_or0 (ba_available best)),
                 rc_policy = policy, rc_fell_back = False\<rparr>)
          else (let best = min_by utilisation_key a rest in
                \<lparr>rc_account = Some best, rc_note = ByUtilisation (ba_id best) (utilisation best),
                 rc_policy = policy, rc_fell_back = False\<rparr>))"

definition first_of :: "'a option \<Rightarrow> 'a option \<Rightarrow> 'a option" where
  "first_of x y = (case x of None \<Rightarrow> y | Some a \<Rightarrow> Some a)"

definition choose_account ::
  "broker_account list \<Rightarrow> routing_policy \<Rightarrow> int \<Rightarrow> (int, int) dict \<Rightarrow> broker_account option
   \<Rightarrow> broker_account option \<Rightarrow> int \<Rightarrow> route_choice" where
  "choose_account candidates policy now counts explicit dflt max_age =
     (let active = filter (\<lambda>a. ba_status a = ''ACTIVE'') candidates;
          fallback = first_of explicit (first_of dflt (case active of [] \<Rightarrow> None | a # _ \<Rightarrow> Some a)) in
      if policy = EXPLICIT \<or> active = [] then
        \<lparr>rc_account = fallback,
         rc_note = (case fallback of None \<Rightarrow> NoBrokerAccount | Some a \<Rightarrow> ByPolicy (ba_id a) policy),
         rc_policy = policy, rc_fell_back = False\<rparr>
      else if length active = 1 then
        \<lparr>rc_account = Some (hd active), rc_note = OnlyActive (ba_id (hd active)) policy,
         rc_policy = policy, rc_fell_back = False\<rparr>
      else if policy = MOST_MARGIN \<or> policy = LEAST_UTILISED then
        by_capital (filter (\<lambda>a. balance_is_fresh a now max_age) active) policy
          (case fallback of None \<Rightarrow> hd active | Some a \<Rightarrow> a) max_age
      else
        (let best = min_by (positions_key counts) (hd active) (tl active) in
         \<lparr>rc_account = Some best, rc_note = ByPositions (ba_id best) (open_count counts best),
          rc_policy = policy, rc_fell_back = False\<rparr>))"

definition routing_policy_of :: "string \<Rightarrow> routing_policy option" where
  "routing_policy_of s =
     (if s = ''EXPLICIT'' then Some EXPLICIT
      else if s = ''MOST_MARGIN'' then Some MOST_MARGIN
      else if s = ''LEAST_UTILISED'' then Some LEAST_UTILISED
      else if s = ''FEWEST_POSITIONS'' then Some FEWEST_POSITIONS else None)"

definition policy_for :: "string option \<Rightarrow> string option \<Rightarrow> routing_policy" where
  "policy_for deployment_policy tenant_default =
     (case first_of (Option.bind deployment_policy routing_policy_of) (Option.bind tenant_default routing_policy_of) of
        None \<Rightarrow> EXPLICIT | Some p \<Rightarrow> p)"

section \<open>The user's position size\<close>

datatype size_mode = FIXED_LOTS | FIXED_QUANTITY | PCT_OF_CAPITAL | RISK_BASED

record position_size =
  ps_mode :: "size_mode option"
  ps_lots :: "int option"
  ps_quantity :: "int option"
  ps_capital_pct :: "pyfloat option"
  ps_fanout_mode :: "string option"
  ps_fanout_value :: "pyfloat option"

datatype size_reason =
    NeedsLots
  | NeedsRiskPerTrade
  | NeedsField string
  | QuantityUnderLot int pyfloat
  | CapitalUnknown
  | NoSinglePrice
  | ShareUnderLot pyfloat pyfloat pyfloat pyfloat

text \<open>
  Reading the saved settings: a value of the JSON store is checked for its type before it counts
  (a \<open>bool\<close> is not a whole number, although Python's \<open>bool\<close> is an \<open>int\<close>).
\<close>

datatype setting = SNull | SBool bool | SInt int | SFloat pyfloat | SText string

definition BIG :: pyfloat where "BIG = 10 ^ 9"

definition setting_whole :: "setting \<Rightarrow> int option" where
  "setting_whole v = (case v of SInt n \<Rightarrow> if 1 \<le> n then Some n else None | _ \<Rightarrow> None)"

definition in_range :: "pyfloat \<Rightarrow> pyfloat \<Rightarrow> pyfloat option" where
  "in_range high v = (if 0 < v \<and> v \<le> high then Some v else None)"

definition setting_positive :: "setting \<Rightarrow> pyfloat \<Rightarrow> pyfloat option" where
  "setting_positive v high = (case v of SInt n \<Rightarrow> in_range high (fl (of_int n)) | SFloat x \<Rightarrow> in_range high x | _ \<Rightarrow> None)"

definition setting_choice :: "setting \<Rightarrow> string list \<Rightarrow> string option" where
  "setting_choice v allowed = (case v of SText s \<Rightarrow> if s \<in> set allowed then Some s else None | _ \<Rightarrow> None)"

definition SIZE_MODES :: "(string \<times> size_mode) list" where
  "SIZE_MODES = [(''FIXED_LOTS'', FIXED_LOTS), (''FIXED_QUANTITY'', FIXED_QUANTITY), (''PCT_CAPITAL'', PCT_OF_CAPITAL),
     (''RISK_BASED'', RISK_BASED)]"

definition FANOUT_MODES :: "string list" where
  "FANOUT_MODES = [''MULTIPLIER'', ''FIXED'', ''PCT_CAPITAL'']"

definition own_setting :: "(string, setting) dict \<Rightarrow> string \<Rightarrow> setting" where
  "own_setting d name = (case dict_get d name of None \<Rightarrow> SNull | Some v \<Rightarrow> v)"

definition load_position_size :: "bool \<Rightarrow> (string, setting) dict \<Rightarrow> (string, setting) dict \<Rightarrow> position_size" where
  "load_position_size has_user vals older =
     (let own = (\<lambda>name. own_setting vals (''position_size.'' @ name)) in
      if \<not> has_user then \<lparr>ps_mode = None, ps_lots = None, ps_quantity = None, ps_capital_pct = None,
                         ps_fanout_mode = None, ps_fanout_value = None\<rparr>
      else \<lparr>ps_mode = Option.bind (setting_choice (own ''mode'') (map fst SIZE_MODES)) (map_of SIZE_MODES),
            ps_lots = first_of (setting_whole (own ''lots'')) (setting_whole (own_setting older ''max_lots'')),
            ps_quantity = setting_whole (own ''quantity''),
            ps_capital_pct = setting_positive (own ''capital_pct'') 100,
            ps_fanout_mode = setting_choice (own ''fanout_mode'') FANOUT_MODES,
            ps_fanout_value = setting_positive (own ''fanout_value'') BIG\<rparr>)"

definition CASH_UNIT :: pyfloat where "CASH_UNIT = 1"

definition effective_mode :: "position_size \<Rightarrow> size_mode option" where
  "effective_mode ps =
     (case ps_mode ps of
        Some m \<Rightarrow> Some m
      | None \<Rightarrow> if ps_lots ps \<noteq> None then Some FIXED_LOTS
                else if ps_quantity ps \<noteq> None then Some FIXED_QUANTITY
                else if ps_capital_pct ps \<noteq> None then Some PCT_OF_CAPITAL else None)"

datatype sized = Sized pyfloat | RiskSizes | Unsized size_reason

definition size_by_quantity :: "int option \<Rightarrow> pyfloat \<Rightarrow> sized" where
  "size_by_quantity quantity lot =
     (case quantity of
        None \<Rightarrow> Unsized (NeedsField ''quantity'')
      | Some q \<Rightarrow>
          (let whole = \<lfloor>fadd (fdiv (fl (of_int q)) lot) EPS9\<rfloor> in
           if whole < 1 then Unsized (QuantityUnderLot q lot) else Sized (fmul (fl (of_int whole)) lot)))"

definition size_by_capital :: "pyfloat option \<Rightarrow> pyfloat option \<Rightarrow> pyfloat option \<Rightarrow> pyfloat \<Rightarrow> sized" where
  "size_by_capital pct capital entry lot =
     (case pct of
        None \<Rightarrow> Unsized (NeedsField ''capital_pct'')
      | Some p \<Rightarrow>
          if not_above_zero capital then Unsized CapitalUnknown
          else if not_above_zero entry then Unsized NoSinglePrice
          else (let v = fdiv (fmul (the capital) p) 100;
                    whole = \<lfloor>fadd (fdiv v (fmul (the entry) lot)) EPS9\<rfloor> in
                if whole < 1 then Unsized (ShareUnderLot p v lot (the entry))
                else Sized (fmul (fl (of_int whole)) lot)))"

definition quantity_for ::
  "position_size \<Rightarrow> pyfloat option \<Rightarrow> pyfloat option \<Rightarrow> pyfloat option \<Rightarrow> bool \<Rightarrow> sized" where
  "quantity_for ps unit entry capital risk_set =
     (let lot = (if not_above_zero unit then CASH_UNIT else the unit) in
      case effective_mode ps of
        None \<Rightarrow> if risk_set then RiskSizes else Unsized NeedsLots
      | Some RISK_BASED \<Rightarrow> if risk_set then RiskSizes else Unsized NeedsRiskPerTrade
      | Some FIXED_LOTS \<Rightarrow> (case ps_lots ps of None \<Rightarrow> Unsized (NeedsField ''lots'') | Some n \<Rightarrow> Sized (fmul (fl (of_int n)) lot))
      | Some FIXED_QUANTITY \<Rightarrow> size_by_quantity (ps_quantity ps) lot
      | Some PCT_OF_CAPITAL \<Rightarrow> size_by_capital (ps_capital_pct ps) capital entry lot)"

definition fanout_sizing :: "position_size \<Rightarrow> string option \<Rightarrow> pyfloat option \<Rightarrow> sizing" where
  "fanout_sizing ps m v =
     (if truthy m \<and> \<not> not_above_zero v then \<lparr>sz_mode = m, sz_value = v\<rparr>
      else if truthy (ps_fanout_mode ps) \<and> ps_fanout_value ps \<noteq> None
        then \<lparr>sz_mode = ps_fanout_mode ps, sz_value = ps_fanout_value ps\<rparr>
      else no_sizing)"

section \<open>Slices\<close>

lemma sum_list_replicate_int: "sum_list (replicate n (b :: int)) = int n * b"
  by (induction n) (auto simp: algebra_simps)

lemma max_slice_units_props:
  assumes "max_slice_units freeze_qty lot = Some b" "1 \<le> lot"
  shows "lot \<le> b" "lot dvd b" "\<And>f. freeze_qty = Some f \<Longrightarrow> lot < f \<Longrightarrow> b < f"
proof -
  from assms obtain f where f: "freeze_qty = Some f" and b: "b = max lot ((f - 1) div lot * lot)"
    by (auto simp: max_slice_units_def split: option.splits if_splits)
  show "lot \<le> b" "lot dvd b" unfolding b by (auto simp: max_def)
  have "(f - 1) div lot * lot \<le> f - 1" using assms(2) by (intro int_div_bounds(1)) simp
  then show "b < f'" if "freeze_qty = Some f'" "lot < f'" for f' using that f b by auto
qed

lemma sum_slice_units: "0 \<le> units \<Longrightarrow> 1 \<le> lot \<Longrightarrow> sum_list (slice_units units lot freeze_qty) = units"
proof (cases "max_slice_units freeze_qty lot")
  case (Some b)
  assume a: "0 \<le> units" "1 \<le> lot"
  then have b: "0 < b" using max_slice_units_props(1) [OF Some] by simp
  then have "0 \<le> units div b" using a by (simp add: pos_imp_zdiv_nonneg_iff)
  then show ?thesis using a b
    by (auto simp: slice_units_def Some Let_def sum_list_replicate_int max_def)
qed (auto simp: slice_units_def Let_def max_def)

lemma slice_units_whole:
  assumes "lot dvd units" "1 \<le> lot" "s \<in> set (slice_units units lot freeze_qty)"
  shows "lot dvd s \<and> 0 < s \<and> (\<forall>f. freeze_qty = Some f \<longrightarrow> lot < f \<longrightarrow> s < f)"
proof -
  from assms have pos: "0 < units" by (auto simp: slice_units_def Let_def split: if_splits)
  have m: "max 1 lot = lot" using assms(2) by simp
  show ?thesis
  proof (cases "max_slice_units freeze_qty lot")
    case None
    then have "s = units" using assms pos by (simp add: slice_units_def m)
    moreover have "\<not> (freeze_qty = Some f \<and> lot < f)" for f
      using None assms(2) by (auto simp: max_slice_units_def)
    ultimately show ?thesis using assms pos by auto
  next
    case (Some b)
    note bp = max_slice_units_props [OF Some assms(2)]
    have b: "0 < b" using bp(1) assms(2) by simp
    have sb: "s \<le> b \<and> 0 < s \<and> lot dvd s"
    proof (cases "units \<le> b")
      case True
      then show ?thesis using assms pos by (simp add: slice_units_def m Some)
    next
      case False
      then have "s = b \<or> (s = units mod b \<and> units mod b \<noteq> 0)"
        using assms(3) pos by (auto simp: slice_units_def m Some split: if_splits)
      moreover have "lot dvd units mod b" using assms(1) bp(2) by (simp add: dvd_mod)
      moreover have "0 \<le> units mod b \<and> units mod b < b" using b by simp
      moreover have "b \<le> b \<and> 0 < b \<and> lot dvd b" using b bp(2) by simp
      ultimately show ?thesis using order_le_less by (metis less_imp_le)
    qed
    then show ?thesis using bp(3) by fastforce
  qed
qed

section \<open>Every routed account is a leg or a skip\<close>

definition leg_ok :: "int \<Rightarrow> int option \<Rightarrow> leg \<Rightarrow> bool" where
  "leg_ok lot_size freeze_qty l =
     (1 \<le> lg_lots l \<and> sum_list (lg_slices l) = lg_lots l * lot_size
      \<and> (\<forall>s \<in> set (lg_slices l). lot_size dvd s \<and> 0 < s \<and> (\<forall>f. freeze_qty = Some f \<longrightarrow> lot_size < f \<longrightarrow> s < f)))"

lemma whole_lots_ge [simp]: "whole_lots n = Inr k \<Longrightarrow> 1 \<le> k"
  by (auto simp: whole_lots_def split: if_splits)

lemma lots_for_ge: "lots_for a s primary_lots mpl = Inr k \<Longrightarrow> 1 \<le> primary_lots \<Longrightarrow> 1 \<le> k"
  by (auto simp: lots_for_def dest!: whole_lots_ge split: option.splits if_splits)

definition plan_ids :: "sized_plan \<Rightarrow> int list" where
  "plan_ids p = map lg_account (sp_legs p) @ map fst (sp_skipped p)"

lemma size_account_step:
  assumes "1 \<le> lot_size" "1 \<le> primary_lots" "list_all (leg_ok lot_size freeze_qty) (sp_legs p)"
  shows "list_all (leg_ok lot_size freeze_qty) (sp_legs (size_account zs primary_lots lot_size freeze_qty mpl a p))"
    and "mset (plan_ids (size_account zs primary_lots lot_size freeze_qty mpl a p)) = add_mset (ac_id a) (mset (plan_ids p))"
proof -
  let ?s = "case dict_get zs (ac_id a) of None \<Rightarrow> no_sizing | Some s \<Rightarrow> s"
  have ok: "leg_ok lot_size freeze_qty
      \<lparr>lg_account = ac_id a, lg_lots = k, lg_slices = slice_units (k * lot_size) lot_size freeze_qty\<rparr>"
    if k: "lots_for a ?s primary_lots mpl = Inr k" for k
  proof -
    have k1: "1 \<le> k" using lots_for_ge [OF k assms(2)] .
    then have "sum_list (slice_units (k * lot_size) lot_size freeze_qty) = k * lot_size"
      using assms(1) by (intro sum_slice_units) auto
    moreover have "\<forall>s \<in> set (slice_units (k * lot_size) lot_size freeze_qty).
        lot_size dvd s \<and> 0 < s \<and> (\<forall>f. freeze_qty = Some f \<longrightarrow> lot_size < f \<longrightarrow> s < f)"
      by (intro ballI slice_units_whole [of lot_size "k * lot_size"]) (use assms(1) in simp_all)
    ultimately show ?thesis using k1 unfolding leg_ok_def leg.simps by blast
  qed
  show "list_all (leg_ok lot_size freeze_qty) (sp_legs (size_account zs primary_lots lot_size freeze_qty mpl a p))"
    using assms(3) ok by (cases "lots_for a ?s primary_lots mpl") (simp_all add: size_account_def)
  show "mset (plan_ids (size_account zs primary_lots lot_size freeze_qty mpl a p)) = add_mset (ac_id a) (mset (plan_ids p))"
    by (cases "lots_for a ?s primary_lots mpl") (simp_all add: size_account_def plan_ids_def)
qed

lemma size_accounts_fold:
  assumes "1 \<le> lot_size" "1 \<le> primary_lots" "list_all (leg_ok lot_size freeze_qty) (sp_legs p)"
  shows "list_all (leg_ok lot_size freeze_qty) (sp_legs (fold (size_account zs primary_lots lot_size freeze_qty mpl) as p))
    \<and> mset (plan_ids (fold (size_account zs primary_lots lot_size freeze_qty mpl) as p))
       = mset (map ac_id as) + mset (plan_ids p)"
  using assms(3)
proof (induction as arbitrary: p)
  case (Cons a as)
  note st = size_account_step [OF assms(1,2) Cons.prems, of zs mpl a]
  show ?case using Cons.IH [OF st(1)] st(2) by simp
qed simp

text \<open>
  C27. A sized plan loses no account and no unit: the accounts of the legs and of the skips together
  are exactly the accounts routed and skipped by the resolver; every leg has at least one lot, its
  slices add up to its lots times the lot size, each slice is a whole number of lots and, where the
  freeze quantity is above one lot, strictly below it.
\<close>
theorem sized_plan_exact:
  assumes "1 \<le> lot_size" "1 \<le> primary_lots" and plan: "plan = size_plan r zs primary_lots lot_size freeze_qty mpl"
  shows "mset (map lg_account (sp_legs plan) @ map fst (sp_skipped plan))
           = mset (map ac_id (rt_accounts r) @ map fst (rt_skipped r))
         \<and> list_all (leg_ok lot_size freeze_qty) (sp_legs plan)"
  using size_accounts_fold [OF assms(1,2), of freeze_qty "\<lparr>sp_legs = [], sp_skipped = rt_skipped r\<rparr>" zs mpl "rt_accounts r"]
  by (simp add: plan size_plan_def plan_ids_def)

definition demo_accounts :: "account list" where
  "demo_accounts =
     [\<lparr>ac_id = 1, ac_role = Some PRIMARY, ac_group = None, ac_enabled = True, ac_capital = None\<rparr>,
      \<lparr>ac_id = 2, ac_role = Some SECONDARY, ac_group = Some ''family'', ac_enabled = True, ac_capital = None\<rparr>,
      \<lparr>ac_id = 3, ac_role = Some SECONDARY, ac_group = Some ''family'', ac_enabled = False, ac_capital = None\<rparr>]"

definition demo_route :: plan_route where
  "demo_route = (case resolve ENTRY demo_accounts None (Some ''all'') [] of Inr r \<Rightarrow> r | Inl _ \<Rightarrow> split_enabled [] ByMatrix)"

theorem sized_plan_exact_witness:
  "list_all (leg_ok 75 (Some 1801)) (sp_legs (size_plan demo_route [(2, \<lparr>sz_mode = Some FIXED, sz_value = Some 2\<rparr>)] 30 75 (Some 1801) None))
   \<and> size_plan demo_route [(2, \<lparr>sz_mode = Some FIXED, sz_value = Some 2\<rparr>)] 30 75 (Some 1801) None =
     \<lparr>sp_legs = [\<lparr>lg_account = 1, lg_lots = 30, lg_slices = [1800, 450]\<rparr>, \<lparr>lg_account = 2, lg_lots = 2, lg_slices = [150]\<rparr>],
      sp_skipped = [(3, SwitchedOff)]\<rparr>"
proof -
  have "size_plan demo_route [(2, \<lparr>sz_mode = Some FIXED, sz_value = Some 2\<rparr>)] 30 75 (Some 1801) None =
     \<lparr>sp_legs = [\<lparr>lg_account = 1, lg_lots = 30, lg_slices = [1800, 450]\<rparr>, \<lparr>lg_account = 2, lg_lots = 2, lg_slices = [150]\<rparr>],
      sp_skipped = [(3, SwitchedOff)]\<rparr>" by code_simp
  then show ?thesis
    using sized_plan_exact [of 75 30 _ demo_route "[(2, \<lparr>sz_mode = Some FIXED, sz_value = Some 2\<rparr>)]" "Some 1801" None]
    by simp
qed

section \<open>Overrides\<close>

lemma is_digit_digit_char [simp]: "n < 10 \<Longrightarrow> is_digit (digit_char n)"
  by (simp add: is_digit_def digit_char_def of_char_of)

lemma show_nat_digits: "list_all is_digit (show_nat n)"
  by (induction n rule: show_nat.induct) (subst show_nat.simps, simp)

lemma is_digit_not_space: "is_digit c \<Longrightarrow> \<not> is_space c"
  by (auto simp: is_digit_def is_space_def Let_def)

lemma py_strip_digits: "list_all is_digit s \<Longrightarrow> py_strip s = s"
proof -
  have d: "dropWhile is_space t = t" if "list_all is_digit t" for t
    using that by (cases t) (auto simp: is_digit_not_space)
  show "list_all is_digit s \<Longrightarrow> py_strip s = s" by (simp add: py_strip_def d)
qed

lemma py_strip_account: "py_strip (''ACCOUNT:'' @ show_nat n) = ''ACCOUNT:'' @ show_nat n"
proof -
  obtain c cs where r: "rev (show_nat n) = c # cs" by (cases "rev (show_nat n)") simp_all
  then have "is_digit c" using show_nat_digits [of n] by (metis list.set_intros(1) list_all_iff set_rev)
  then have "dropWhile is_space (rev (show_nat n) @ rev ''ACCOUNT:'') = rev (show_nat n) @ rev ''ACCOUNT:''"
    using r by (simp add: is_digit_not_space)
  moreover have "dropWhile is_space (''ACCOUNT:'' @ show_nat n) = ''ACCOUNT:'' @ show_nat n"
    by (simp add: is_space_def)
  ultimately show ?thesis by (simp add: py_strip_def)
qed

lemma upper_account: "py_upper (''ACCOUNT:'' @ s) = ''ACCOUNT:'' @ py_upper s"
proof -
  have "py_upper ''ACCOUNT:'' = ''ACCOUNT:''" by code_simp
  then show ?thesis by (simp del: append_Cons)
qed

lemma override_account:
  assumes "0 \<le> i"
  shows "override_columns (''ACCOUNT:'' @ show_int i) = Inr (RowColumns [''ID:'' @ show_int i])"
proof -
  let ?t = "''ACCOUNT:'' @ show_nat (nat i)"
  have u: "py_upper ?t = ''ACCOUNT:'' @ py_upper (show_nat (nat i))" by (rule upper_account)
  have d: "drop 8 ?t = show_nat (nat i)" by simp
  have s: "py_strip (show_nat (nat i)) = show_nat (nat i)" by (intro py_strip_digits show_nat_digits)
  have "all_digits (show_nat (nat i))" by (simp add: all_digits_def show_nat_digits)
  moreover have "show_int i = show_nat (nat i)" using assms by (simp add: show_int_def)
  moreover have "py_strip ?t = ?t" by (rule py_strip_account)
  moreover have "py_upper ''ACCOUNT:'' = ''ACCOUNT:''" by code_simp
  ultimately show ?thesis
    unfolding override_columns_def Let_def by (simp add: u d s PRIMARY_def starts_with_def del: append_Cons)
qed

text \<open>
  A per-order override narrows new entries and adjustments and never an exit. A retry of one
  account (\<open>ACCOUNT:<id>\<close>) routes an entry or adjustment to exactly that account, if it has a role:
  as a leg when it is switched on and as a visible skip when it is off, whatever the matrix and the
  holdings are. The same override on an exit, or any other text, valid or not, leaves the exit going
  to every account that holds the position, switched off or not, in the order of the list. The
  hypothesis on groups is needed: a group the user named \<open>ID:<id>\<close> shares the column of the account.
\<close>
theorem override_narrows_entries_never_exits:
  assumes "0 \<le> i" "cls \<in> {ENTRY, ADJUSTMENT}" "ex \<in> set EXIT_CLASSES"
    and group: "\<forall>a \<in> set accounts. ac_group a \<noteq> Some (''ID:'' @ show_int i)"
  shows "resolve cls accounts m (Some (''ACCOUNT:'' @ show_int i)) holding
           = Inr \<lparr>rt_accounts = [a \<leftarrow> accounts. in_play a \<and> ac_id a = i \<and> ac_enabled a],
                  rt_skipped = map (\<lambda>a. (i, SwitchedOff)) [a \<leftarrow> accounts. in_play a \<and> ac_id a = i \<and> \<not> ac_enabled a],
                  rt_why = ByOverride (''ACCOUNT:'' @ show_int i)\<rparr>
         \<and> (\<exists>r. resolve ex accounts m override holding = Inr r \<and> rt_skipped r = []
                \<and> rt_accounts r = [a \<leftarrow> accounts. ac_id a \<in> set holding])"
proof
  have t: "(in_play a \<and> column_takes [''ID:'' @ show_int i] a) = (in_play a \<and> ac_id a = i)" if "a \<in> set accounts" for a
    using group that by (auto simp: column_takes_def PRIMARY_def split: option.splits)
  have f: "filter (\<lambda>a. in_play a \<and> column_takes [''ID:'' @ show_int i] a) accounts = filter (\<lambda>a. in_play a \<and> ac_id a = i) accounts"
    by (intro filter_cong) (use t in auto)
  have g: "filter ac_enabled (filter (\<lambda>a. in_play a \<and> ac_id a = i) as) = [a \<leftarrow> as. in_play a \<and> ac_id a = i \<and> ac_enabled a]"
    "map (\<lambda>a. (ac_id a, SwitchedOff)) (filter (\<lambda>a. \<not> ac_enabled a) (filter (\<lambda>a. in_play a \<and> ac_id a = i) as))
      = map (\<lambda>a. (i, SwitchedOff)) [a \<leftarrow> as. in_play a \<and> ac_id a = i \<and> \<not> ac_enabled a]" for as
    by (induction as) auto
  have c: "cls \<in> set ORDER_CLASSES" "cls \<notin> set EXIT_CLASSES"
    using assms(2) by (auto simp: ORDER_CLASSES_def ENTRY_def ADJUSTMENT_def EXIT_CLASSES_def)
  have tr: "truthy (Some (''ACCOUNT:'' @ show_int i))" by (simp add: truthy_def)
  have row: "matrix_columns cls (merge_matrix m) (Some (''ACCOUNT:'' @ show_int i)) = Inr (RowColumns [''ID:'' @ show_int i])"
    using tr override_account [OF assms(1)] by (simp add: matrix_columns_def)
  show "resolve cls accounts m (Some (''ACCOUNT:'' @ show_int i)) holding
           = Inr \<lparr>rt_accounts = [a \<leftarrow> accounts. in_play a \<and> ac_id a = i \<and> ac_enabled a],
                  rt_skipped = map (\<lambda>a. (i, SwitchedOff)) [a \<leftarrow> accounts. in_play a \<and> ac_id a = i \<and> \<not> ac_enabled a],
                  rt_why = ByOverride (''ACCOUNT:'' @ show_int i)\<rparr>"
    unfolding resolve_def row using c tr
    by (simp add: wanted_columns_def f split_enabled_def g del: append_Cons filter_filter)
  show "\<exists>r. resolve ex accounts m override holding = Inr r \<and> rt_skipped r = []
                \<and> rt_accounts r = [a \<leftarrow> accounts. ac_id a \<in> set holding]"
    using assms(3) by (simp add: resolve_def ORDER_CLASSES_def)
qed

theorem override_narrows_entries_never_exits_witness:
  "resolve ENTRY demo_accounts None (Some ''ACCOUNT:3'') [1, 3]
     = Inr \<lparr>rt_accounts = [], rt_skipped = [(3, SwitchedOff)], rt_why = ByOverride ''ACCOUNT:3''\<rparr>
   \<and> (\<exists>r. resolve ''EXIT'' demo_accounts None (Some ''nonsense'') [1, 3] = Inr r \<and> rt_skipped r = []
          \<and> map ac_id (rt_accounts r) = [1, 3])"
proof -
  have g: "\<forall>a \<in> set demo_accounts. ac_group a \<noteq> Some (''ID:'' @ show_int 3)" by code_simp
  have e: "''EXIT'' \<in> set EXIT_CLASSES" by (simp add: EXIT_CLASSES_def)
  have f: "filter (\<lambda>a. in_play a \<and> ac_id a = 3 \<and> ac_enabled a) demo_accounts = []"
    "map (\<lambda>a. (3 :: int, SwitchedOff)) (filter (\<lambda>a. in_play a \<and> ac_id a = 3 \<and> \<not> ac_enabled a) demo_accounts) = [(3, SwitchedOff)]"
    "map ac_id (filter (\<lambda>a. ac_id a \<in> set [1, 3]) demo_accounts) = [1, 3]" "''ACCOUNT:'' @ show_int 3 = ''ACCOUNT:3''"
    by code_simp+
  show ?thesis
    using override_narrows_entries_never_exits [OF _ _ e g, of ENTRY None "[1, 3]" "Some ''nonsense''", unfolded f] f(3)
    by auto
qed

section \<open>The choice of a LIVE account\<close>

lemma min_by_in: "min_by k b xs \<in> set (b # xs)"
  by (induction xs arbitrary: b) (auto split: if_splits)

lemma min_by_le: "x \<in> set (b # xs) \<Longrightarrow> k (min_by k b xs) \<le> k x"
proof (induction xs arbitrary: b x)
  case (Cons y ys)
  let ?b = "if k y < k b then y else b"
  have "k (min_by k ?b ys) \<le> k ?b" by (rule Cons.IH) simp
  moreover have "k ?b \<le> k b" "k ?b \<le> k y" by auto
  moreover have "x \<in> set ys \<Longrightarrow> k (min_by k ?b ys) \<le> k x" by (rule Cons.IH) simp
  ultimately show ?case using Cons.prems by (cases "x \<in> set ys") (auto intro: order_trans)
qed simp

lemma max_by_in: "max_by k b xs \<in> set (b # xs)"
  by (induction xs arbitrary: b) (auto split: if_splits)

lemma max_by_ge: "x \<in> set (b # xs) \<Longrightarrow> k x \<le> k (max_by k b xs)"
proof (induction xs arbitrary: b x)
  case (Cons y ys)
  let ?b = "if k b < k y then y else b"
  have "k ?b \<le> k (max_by k ?b ys)" by (rule Cons.IH) simp
  moreover have "k b \<le> k ?b" "k y \<le> k ?b" by auto
  moreover have "x \<in> set ys \<Longrightarrow> k x \<le> k (max_by k ?b ys)" by (rule Cons.IH) simp
  ultimately show ?case using Cons.prems by (cases "x \<in> set ys") (auto intro: order_trans)
qed simp

text \<open>
  With at least two ACTIVE candidates a routing policy decides among those alone and on fresh
  numbers alone: FEWEST_POSITIONS picks an ACTIVE candidate with the fewest open positions; a
  capital policy picks, among the ACTIVE candidates with a balance synced recently enough, one with
  the most margin or the least utilisation, and falls back to the default account exactly when no
  candidate has a fresh balance.
\<close>
theorem routing_on_fresh_numbers:
  assumes "policy \<noteq> EXPLICIT" and active: "active = [a \<leftarrow> candidates. ba_status a = ''ACTIVE'']" "2 \<le> length active"
    and fresh: "fresh = [a \<leftarrow> active. balance_is_fresh a now max_age]"
    and choice: "choice = choose_account candidates policy now counts explicit dflt max_age"
  shows "\<exists>a. rc_account choice = Some a
    \<and> rc_fell_back choice = (policy \<noteq> FEWEST_POSITIONS \<and> fresh = [])
    \<and> (policy = FEWEST_POSITIONS \<longrightarrow> a \<in> set active \<and> (\<forall>b \<in> set active. open_count counts a \<le> open_count counts b))
    \<and> (policy = MOST_MARGIN \<longrightarrow> fresh \<noteq> [] \<longrightarrow>
         a \<in> set fresh \<and> (\<forall>b \<in> set fresh. float_or0 (ba_available b) \<le> float_or0 (ba_available a)))
    \<and> (policy = LEAST_UTILISED \<longrightarrow> fresh \<noteq> [] \<longrightarrow>
         a \<in> set fresh \<and> (\<forall>b \<in> set fresh. utilisation a \<le> utilisation b))"
proof -
  obtain x xs where "active = x # xs" using active(2) by (cases active) auto
  then have act: "active = x # xs" "length active \<noteq> 1" using active(2) by auto
  have fp: "open_count counts (min_by (positions_key counts) x xs) \<le> open_count counts b" if "b \<in> set (x # xs)" for b
    using min_by_le [OF that, of "positions_key counts"] by (auto simp: positions_key_def less_eq_prod_def)
  have mm: "float_or0 (ba_available b) \<le> float_or0 (ba_available (max_by margin_key y ys))" if "b \<in> set (y # ys)" for b y ys
    using max_by_ge [OF that, of margin_key] by (auto simp: margin_key_def less_eq_prod_def)
  have lu: "utilisation (min_by utilisation_key y ys) \<le> utilisation b" if "b \<in> set (y # ys)" for b y ys
    using min_by_le [OF that, of utilisation_key] by (auto simp: utilisation_key_def less_eq_prod_def)
  have c: "choice = (if policy = FEWEST_POSITIONS
      then (let best = min_by (positions_key counts) x xs in
         \<lparr>rc_account = Some best, rc_note = ByPositions (ba_id best) (open_count counts best),
          rc_policy = policy, rc_fell_back = False\<rparr>)
      else by_capital fresh policy (case first_of explicit (first_of dflt (Some x)) of None \<Rightarrow> x | Some a \<Rightarrow> a) max_age)"
    using assms(1) act(2)
    by (cases policy) (simp_all add: choice choose_account_def fresh active(1) [symmetric] act(1) split: option.split)
  show ?thesis
  proof (cases policy)
    case FEWEST_POSITIONS
    then show ?thesis using fp min_by_in [of "positions_key counts" x xs] by (auto simp: c act(1) Let_def)
  next
    case MOST_MARGIN
    then show ?thesis
      using mm [of _ "hd fresh" "tl fresh"] max_by_in [of margin_key "hd fresh" "tl fresh"]
      by (cases fresh) (auto simp: c by_capital_def Let_def)
  next
    case LEAST_UTILISED
    then show ?thesis
      using lu [of _ "hd fresh" "tl fresh"] min_by_in [of utilisation_key "hd fresh" "tl fresh"]
      by (cases fresh) (auto simp: c by_capital_def Let_def)
  qed (use assms(1) in simp)
qed

definition demo_broker :: "int \<Rightarrow> string \<Rightarrow> pyfloat \<Rightarrow> int \<Rightarrow> broker_account" where
  "demo_broker i st bal t = \<lparr>ba_id = i, ba_status = st, ba_available = Some bal, ba_used = Some 0,
     ba_last_sync = Some (Aware (t * US_SECOND)), ba_label = ''main''\<rparr>"

definition demo_candidates :: "broker_account list" where
  "demo_candidates = [demo_broker 1 ''ACTIVE'' 500 0, demo_broker 2 ''ACTIVE'' 200 3000, demo_broker 3 ''DISABLED'' 900 3000,
     demo_broker 4 ''ACTIVE'' 300 3000]"

theorem routing_on_fresh_numbers_witness:
  "\<exists>a. rc_account (choose_account demo_candidates MOST_MARGIN (3600 * US_SECOND) [] None None 900) = Some a
     \<and> ba_id a \<in> {2, 4} \<and> 300 \<le> float_or0 (ba_available a)"
proof -
  let ?act = "[a \<leftarrow> demo_candidates. ba_status a = ''ACTIVE'']"
  let ?fresh = "[a \<leftarrow> ?act. balance_is_fresh a (3600 * US_SECOND) 900]"
  have l: "2 \<le> length ?act" by code_simp
  have f: "?fresh = [demo_broker 2 ''ACTIVE'' 200 3000, demo_broker 4 ''ACTIVE'' 300 3000]" by code_simp
  obtain a where "rc_account (choose_account demo_candidates MOST_MARGIN (3600 * US_SECOND) [] None None 900) = Some a"
      "a \<in> set ?fresh" "\<forall>b \<in> set ?fresh. float_or0 (ba_available b) \<le> float_or0 (ba_available a)"
    using routing_on_fresh_numbers [OF _ refl l refl refl, where policy = MOST_MARGIN and now = "3600 * US_SECOND"
        and max_age = 900 and counts = "[]" and explicit = None and dflt = None] f
    by (metis list.distinct(1) routing_policy.distinct(1))
  then show ?thesis unfolding f by (auto simp: demo_broker_def float_or0_def)
qed

section \<open>Rounding down on binary64\<close>

lemma EPS9_bounds: "1 / 2 ^ 30 < EPS9 \<and> EPS9 < 1 / 2 ^ 29"
  by code_simp

text \<open>
  A float close to a quotient of integers, plus 1e-9, has the floor of the exact quotient: the
  epsilon absorbs the rounding of the products and never reaches the next whole number.
\<close>

lemma floor_eps_quotient:
  assumes n: "0 \<le> n" "n \<le> 2 ^ 20 * d" and d: "1 \<le> d" "d \<le> 2 ^ 20"
    and y: "\<bar>y - of_int n / of_int d\<bar> \<le> 1 / 2 ^ 31"
  shows "\<lfloor>fadd y EPS9\<rfloor> = n div d"
proof (rule floor_unique)
  let ?q = "n div d"
  have q0: "0 \<le> ?q" using n d by (simp add: pos_imp_zdiv_nonneg_iff)
  have "?q * d \<le> n" "n < ?q * d + d" using int_div_bounds [of d n] d by auto
  then have qd: "?q * d \<le> n" "n + 1 \<le> (?q + 1) * d" by (auto simp: algebra_simps)
  have dr: "(0 :: rat) < of_int d" "(of_int d :: rat) \<le> 2 ^ 20" using d by (simp_all add: of_int_le_iff [of d "2 ^ 20", simplified])
  have lo: "of_int ?q \<le> (of_int n / of_int d :: rat)"
    using qd(1) dr by (simp add: le_divide_eq of_int_mult [symmetric] del: of_int_mult)
  have "(of_int n + 1) / of_int d \<le> (of_int (?q + 1) :: rat)"
    using dr qd(2) by (simp add: divide_le_eq of_int_mult [symmetric] of_int_add [symmetric] del: of_int_mult of_int_add of_int_1)
  moreover have "1 / 2 ^ 20 \<le> 1 / (of_int d :: rat)" using dr by (intro divide_left_mono) auto
  ultimately have hi: "of_int n / of_int d \<le> (of_int ?q + 1 - 1 / 2 ^ 20 :: rat)" by (simp add: add_divide_distrib)
  have "?q * d \<le> 2 ^ 20 * d" using qd(1) n(2) by simp
  then have q20: "?q \<le> 2 ^ 20" using d by (simp add: mult_le_cancel_right)
  then have q20r: "(of_int ?q :: rat) \<le> 2 ^ 20" by (metis of_int_le_iff of_int_numeral of_int_power)
  have e: "1 / 2 ^ 30 < EPS9" "EPS9 < 1 / 2 ^ 29" using EPS9_bounds by auto
  have s1: "of_int ?q \<le> y + EPS9"
  proof -
    have "of_int ?q - 1 / 2 ^ 31 \<le> y" using lo y by linarith
    moreover have "(1 / 2 ^ 31 :: rat) \<le> 1 / 2 ^ 30" by simp
    ultimately show ?thesis using e(1) by linarith
  qed
  have "fl (of_int ?q) \<le> fadd y EPS9" using s1 by (simp add: fadd_def fl_mono)
  then show "of_int ?q \<le> fadd y EPS9" using q0 q20 by (simp add: fl_of_int)
  have s2: "y + EPS9 \<le> of_int ?q + 1 - 1 / 2 ^ 21"
  proof -
    have "y \<le> of_int ?q + 1 - 1 / 2 ^ 20 + 1 / 2 ^ 31" using hi y by linarith
    moreover have "(1 / 2 ^ 31 :: rat) + 1 / 2 ^ 29 \<le> 1 / 2 ^ 20 - 1 / 2 ^ 21" by simp
    ultimately show ?thesis using e(2) by linarith
  qed
  let ?z = "of_int ?q + 1 - 1 / 2 ^ 21 :: rat"
  have z: "1 / 2 \<le> ?z" using q0 by simp
  have "2 powi (- 1022) \<le> (2 powi (- 1) :: rat)" by (rule powi2_mono) simp
  then have "\<bar>fl ?z - ?z\<bar> \<le> ?z * 2 powi (- 53)" using z by (intro fl_error) (simp add: power_int_minus)
  moreover have "?z * 2 powi (- 53) \<le> 2 ^ 21 * 2 powi (- 53)" using q20r by (intro mult_right_mono) auto
  moreover have "(2 ^ 21 * 2 powi (- 53) :: rat) < 1 / 2 ^ 21" by (simp add: power_int_minus)
  ultimately have "fl ?z < of_int ?q + 1" by linarith
  moreover have "fadd y EPS9 \<le> fl ?z" using s2 by (simp add: fadd_def fl_mono)
  ultimately show "fadd y EPS9 < of_int ?q + 1" by linarith
qed

lemma fl_close:
  assumes "1 / 2 ^ 20 \<le> x" "x \<le> 2 ^ 21"
  shows "\<bar>fl x - x\<bar> \<le> 1 / 2 ^ 32"
proof -
  have "2 powi (- 1022) \<le> (2 powi (- 20) :: rat)" by (rule powi2_mono) simp
  then have "\<bar>fl x - x\<bar> \<le> x * 2 powi (- 53)" using assms(1) by (intro fl_error) (simp add: power_int_minus)
  also have "\<dots> \<le> 2 ^ 21 * 2 powi (- 53)" using assms(2) by (intro mult_right_mono) auto
  also have "(2 ^ 21 * 2 powi (- 53) :: rat) = 1 / 2 ^ 32" by (simp add: power_int_minus)
  finally show ?thesis .
qed

lemma multiplier_close:
  assumes "1 \<le> p" "1 \<le> k" "p * k \<le> 2 ^ 20 * 100"
  shows "\<bar>fmul (fl (of_int p)) (flit k 100) - of_int (p * k) / of_int 100\<bar> \<le> 1 / 2 ^ 31"
proof -
  let ?K = "of_int k / 100 :: rat" and ?P = "of_int p :: rat"
  have pk: "p \<le> p * k" using assms(1,2) by simp
  then have pk: "p \<le> p * k" "1 \<le> p * k" using assms(1) by linarith+
  have "p \<le> 2 ^ 20 * 100" using pk(1) assms(3) by (rule order_trans)
  then have "p \<le> 2 ^ 53" by simp
  then have pf: "fl ?P = ?P" using assms(1) by (intro fl_of_int) simp
  have x: "?P * ?K = of_int (p * k) / of_int 100" by simp
  have pk_r: "1 \<le> (of_int (p * k) :: rat)" "(of_int (p * k) :: rat) \<le> 2 ^ 20 * 100"
    using pk(2) assms(3) by (simp_all only: of_int_1_le_iff) (metis of_int_le_iff of_int_mult of_int_numeral of_int_power)
  then have xb: "1 / 100 \<le> ?P * ?K" "?P * ?K \<le> 2 ^ 20" by (simp_all add: x)
  have "2 powi (- 1022) \<le> (2 powi (- 7) :: rat)" by (rule powi2_mono) simp
  moreover have "(2 powi (- 7) :: rat) \<le> 1 / 100" by (simp add: power_int_minus)
  moreover have "1 / 100 \<le> ?K" using assms(2) by simp
  ultimately have "\<bar>fl ?K - ?K\<bar> \<le> ?K * 2 powi (- 53)" by (intro fl_error) linarith
  then have "?P * \<bar>fl ?K - ?K\<bar> \<le> ?P * (?K * 2 powi (- 53))" using assms(1) by (intro mult_left_mono) auto
  moreover have "?P * \<bar>fl ?K - ?K\<bar> = \<bar>?P * fl ?K - ?P * ?K\<bar>"
    using assms(1) by (simp only: abs_mult right_diff_distrib [symmetric])
  moreover have "?P * (?K * 2 powi (- 53)) \<le> 2 ^ 20 * 2 powi (- 53)"
    using xb(2) by (simp only: mult.assoc [symmetric]) (intro mult_right_mono, auto)
  moreover have "(2 ^ 20 * 2 powi (- 53) :: rat) = 1 / 2 ^ 33" by (simp add: power_int_minus)
  ultimately have w: "\<bar>?P * fl ?K - ?P * ?K\<bar> \<le> 1 / 2 ^ 33" by linarith
  have s: "(1 / 2 ^ 20 :: rat) \<le> 1 / 100 - 1 / 2 ^ 33" "(2 ^ 20 + 1 / 2 ^ 33 :: rat) \<le> 2 ^ 21" "(1 / 2 ^ 32 + 1 / 2 ^ 33 :: rat) \<le> 1 / 2 ^ 31"
    by simp_all
  have "\<bar>fl (?P * fl ?K) - ?P * fl ?K\<bar> \<le> 1 / 2 ^ 32" using w xb s by (intro fl_close) linarith+
  then show ?thesis using w s(3) unfolding x [symmetric] by (simp only: fmul_def flit_def pf of_int_numeral)
qed

text \<open>
  C28. Sizes are rounded down on the floats the code computes with. A multiplier written with two
  decimals gives an extra account exactly \<open>primary lots * k div 100\<close> lots, and a skip below one
  lot; a fixed quantity becomes exactly the whole lots it contains, and a reason below one lot: the
  \<open>1e-9\<close> the code adds before flooring never rounds up. (Up to a million lots per order.)
\<close>
theorem sizes_round_down:
  assumes "1 \<le> p" "1 \<le> k" "p * k \<le> 2 ^ 20 * 100"
    and "1 \<le> lot" "lot \<le> 2 ^ 20" "1 \<le> q" "q \<le> 2 ^ 20 * lot"
    and ps: "effective_mode ps = Some FIXED_QUANTITY" "ps_quantity ps = Some q"
  shows "lots_for a \<lparr>sz_mode = Some MULTIPLIER, sz_value = Some (flit k 100)\<rparr> p mpl
           = (if p * k < 100 then Inl UnderOneLot else Inr (p * k div 100))
       \<and> quantity_for ps (Some (of_int lot)) entry capital risk_set
           = (if q < lot then Unsized (QuantityUnderLot q (of_int lot)) else Sized (of_int (q div lot * lot)))"
proof
  have "\<lfloor>fadd (fmul (fl (of_int p)) (flit k 100)) EPS9\<rfloor> = p * k div 100"
    using assms(1-3) by (intro floor_eps_quotient multiplier_close) auto
  moreover have "0 < flit k 100"
  proof -
    have "flit 1 100 \<le> flit k 100" using assms(2) by (simp add: flit_def fl_mono divide_right_mono)
    moreover have "0 < flit 1 100" by code_simp
    ultimately show ?thesis by linarith
  qed
  ultimately show "lots_for a \<lparr>sz_mode = Some MULTIPLIER, sz_value = Some (flit k 100)\<rparr> p mpl
           = (if p * k < 100 then Inl UnderOneLot else Inr (p * k div 100))"
    by (auto simp: lots_for_def SIZING_MODES_def FIXED_def MULTIPLIER_def whole_lots_def)
  show "quantity_for ps (Some (of_int lot)) entry capital risk_set
           = (if q < lot then Unsized (QuantityUnderLot q (of_int lot)) else Sized (of_int (q div lot * lot)))"
  proof -
    have q0: "1 \<le> (of_int q :: rat)" "(of_int q :: rat) \<le> 2 ^ 20 * of_int lot" "1 \<le> (of_int lot :: rat)" "(of_int lot :: rat) \<le> 2 ^ 20"
      using assms(4-7) by (simp_all only: of_int_1_le_iff) (metis of_int_le_iff of_int_mult of_int_numeral of_int_power)+
    have b: "q \<le> 2 ^ 40" using assms(5,7) by simp
    have lf: "fl (of_int q) = of_int q" using assms(6) b by (intro fl_of_int) simp
    have "1 / (2 ^ 20) \<le> of_int q / (of_int lot :: rat)" using q0 by (intro frac_le) auto
    moreover have "of_int q / (of_int lot :: rat) \<le> 2 ^ 21" using q0 by (simp add: divide_le_eq)
    ultimately have "\<bar>fdiv (fl (of_int q)) (of_int lot) - of_int q / of_int lot\<bar> \<le> 1 / 2 ^ 32"
      unfolding fdiv_def lf by (rule fl_close)
    then have "\<lfloor>fadd (fdiv (fl (of_int q)) (of_int lot)) EPS9\<rfloor> = q div lot"
      using assms(4-7) by (intro floor_eps_quotient) auto
    moreover have "q div lot < 1 \<longleftrightarrow> q < lot" using pos_imp_zdiv_pos_iff [of lot q] assms(4) by linarith
    moreover have "fmul (fl (of_int (q div lot))) (of_int lot) = of_int (q div lot * lot)"
    proof -
      have m: "q div lot * lot \<le> q" "0 \<le> q div lot"
        using int_div_bounds(1) [of lot q] assms(4,6) by (simp_all add: pos_imp_zdiv_nonneg_iff)
      moreover have "q div lot * 1 \<le> q div lot * lot" using m(2) assms(4) by (intro mult_left_mono) auto
      ultimately have "fl (of_int (q div lot)) = of_int (q div lot)" using b by (intro fl_of_int) simp
      moreover have "fl (of_int (q div lot * lot)) = of_int (q div lot * lot)"
        using b m assms(4) by (intro fl_of_int) simp
      ultimately show ?thesis by (simp only: fmul_def of_int_mult)
    qed
    moreover have "\<not> not_above_zero (Some (of_int lot))" using assms(4) by (simp add: not_above_zero_def)
    ultimately show ?thesis by (simp add: quantity_for_def ps size_by_quantity_def Let_def del: floor_less_one)
  qed
qed

theorem sizes_round_down_witness:
  "lots_for (demo_accounts ! 1) \<lparr>sz_mode = Some MULTIPLIER, sz_value = Some (flit 10 100)\<rparr> 30 None = Inr 3
   \<and> quantity_for \<lparr>ps_mode = None, ps_lots = None, ps_quantity = Some 200, ps_capital_pct = None, ps_fanout_mode = None,
        ps_fanout_value = None\<rparr> (Some (of_int 75)) None None True = Sized (of_int 150)"
  using sizes_round_down [of 30 10 75 200 "\<lparr>ps_mode = None, ps_lots = None, ps_quantity = Some 200, ps_capital_pct = None,
      ps_fanout_mode = None, ps_fanout_value = None\<rparr>" "demo_accounts ! 1" None None None True]
  by (simp add: effective_mode_def)

end
