(* ===== verification/PyRepr.thy ===== *)
theory PyRepr
  imports Pyfloat
begin

text \<open>
  Decimal text of floats: \<open>float(text)\<close> of a number token, and \<open>repr(x)\<close>, the shortest decimal that
  reads back as \<open>x\<close>. Besides the finite numbers a Python float is an infinity or NaN; the type
  \<open>pynum\<close> has them, so that a literal too large for binary64 becomes an infinity as in the code.
  The main lemma is that the text \<open>repr\<close> gives for a finite number reads back as that number.
\<close>

section \<open>Decimal exponent\<close>

lemma powi10_mono: "i \<le> j \<Longrightarrow> (10 powi i :: rat) \<le> 10 powi j"
  by (rule power_int_increasing) simp_all

lemma powi10_add: "(10 powi (i + j) :: rat) = 10 powi i * 10 powi j"
  by (simp add: power_int_add)

lemma powi10_nat: "0 \<le> k \<Longrightarrow> (10 powi k :: rat) = of_int (10 ^ nat k)"
  by (simp add: power_int_def)

function declen :: "int \<Rightarrow> int" where
  "declen p = (if p < 10 then 1 else 1 + declen (p div 10))"
  by pat_completeness auto
termination by (relation "measure nat") auto

declare declen.simps [simp del]

definition flog10 :: "rat \<Rightarrow> int" where
  "flog10 x = (case quotient_of x of (p, q) \<Rightarrow>
     let e = declen p - declen q in if 10 powi e \<le> x then e else e - 1)"

lemma declen_ge: "1 \<le> declen p"
  by (induction p rule: declen.induct) (subst declen.simps, auto)

lemma declen_bounds: "0 < p \<Longrightarrow> 10 ^ nat (declen p - 1) \<le> p \<and> p < 10 ^ nat (declen p)"
proof (induction p rule: declen.induct)
  case (1 p)
  show ?case
  proof (cases "p < 10")
    case True
    then show ?thesis using 1 by (simp add: declen.simps [of p])
  next
    case False
    let ?d = "declen (p div 10)"
    have d: "1 \<le> ?d" by (rule declen_ge)
    have ih: "10 ^ nat (?d - 1) \<le> p div 10" "p div 10 < 10 ^ nat ?d" using 1(1) False by auto
    have s: "nat ?d = Suc (nat (?d - 1))" "nat (1 + ?d) = Suc (nat ?d)" using d by simp_all
    have "10 * 10 ^ nat (?d - 1) \<le> p" "p < 10 * 10 ^ nat ?d" using ih by linarith+
    then show ?thesis using False s by (simp add: declen.simps [of p])
  qed
qed

lemma powi10_declen: "0 < p \<Longrightarrow> 10 powi (declen p - 1) \<le> (of_int p :: rat) \<and> of_int p < (10 powi declen p :: rat)"
proof -
  assume p: "0 < p"
  have d: "1 \<le> declen p" by (rule declen_ge)
  have "(of_int (10 ^ nat (declen p - 1)) :: rat) \<le> of_int p" "(of_int p :: rat) < of_int (10 ^ nat (declen p))"
    using declen_bounds [OF p] by (simp_all only: of_int_le_iff of_int_less_iff)
  then show ?thesis using d by (simp add: powi10_nat)
qed

lemma flog10_bounds: "0 < x \<Longrightarrow> 10 powi flog10 x \<le> x \<and> x < 10 powi (flog10 x + 1)"
proof -
  assume x: "0 < x"
  obtain p q where pq: "quotient_of x = (p, q)" by fastforce
  then have q: "0 < q" by (rule quotient_of_denom_pos)
  have xpq: "x = of_int p / of_int q" using pq by (rule quotient_of_div)
  with x q have p: "0 < p" by (simp add: zero_less_divide_iff)
  let ?e = "declen p - declen q"
  have P: "10 powi (declen p - 1) \<le> (of_int p :: rat)" "of_int p < (10 powi declen p :: rat)"
    and Q: "10 powi (declen q - 1) \<le> (of_int q :: rat)" "of_int q < (10 powi declen q :: rat)"
    using powi10_declen [OF p] powi10_declen [OF q] by auto
  have pos: "0 < (of_int q :: rat)" using q by simp
  have hi: "x < 10 powi (?e + 1)"
  proof -
    have "(10 powi (?e + 1) :: rat) * 10 powi (declen q - 1) = 10 powi declen p"
      by (simp add: powi10_add [symmetric])
    moreover have "(10 powi (?e + 1) :: rat) * 10 powi (declen q - 1) \<le> 10 powi (?e + 1) * of_int q"
      using Q(1) by (intro mult_left_mono) auto
    ultimately have "of_int p < 10 powi (?e + 1) * (of_int q :: rat)" using P(2) by linarith
    then show ?thesis using pos by (simp add: xpq divide_less_eq)
  qed
  have lo: "10 powi (?e - 1) \<le> x"
  proof -
    have "(10 powi (?e - 1) :: rat) * of_int q \<le> 10 powi (?e - 1) * 10 powi declen q"
      using Q(2) by (intro mult_left_mono) auto
    also have "\<dots> = 10 powi (declen p - 1)" by (simp add: powi10_add [symmetric])
    finally have "10 powi (?e - 1) * of_int q \<le> (of_int p :: rat)" using P(1) by linarith
    then show ?thesis using pos by (simp add: xpq le_divide_eq)
  qed
  show ?thesis using hi lo by (auto simp: flog10_def pq Let_def)
qed

section \<open>A decimal close enough to a float reads back as that float\<close>

lemma fl_onto:
  assumes "0 < c" "v = of_int n * 2 powi ulp_exp c" "\<bar>c - v\<bar> < 2 powi ulp_exp c / 2"
  shows "fl c = v"
proof -
  let ?u = "2 powi ulp_exp c :: rat"
  have u: "0 < ?u" by simp
  have "of_int n - c / ?u = (v - c) / ?u" using u by (simp add: assms(2) diff_divide_distrib)
  then have "\<bar>of_int n - c / ?u\<bar> = \<bar>v - c\<bar> / ?u" by (simp add: abs_divide)
  also have "\<dots> < 1/2" using assms(3) u by (simp add: divide_less_eq abs_minus_commute mult.commute)
  finally have "rhe (c / ?u) = n" by (rule rhe_unique)
  then show ?thesis using assms(1,2) by (simp add: fl_def Let_def)
qed

lemma is64_scaled:
  assumes "is64 v" "0 < v"
  obtains n :: int where "v = of_int n * 2 powi ulp_exp v" "ulp_exp v \<le> flog2 v" "0 < n"
proof -
  let ?n = "rhe (v / 2 powi ulp_exp v)"
  have v: "v = of_int ?n * 2 powi ulp_exp v" using assms by (simp add: is64_def fl_def Let_def)
  have "0 < of_int ?n * (2 powi ulp_exp v :: rat)" using v assms(2) by linarith
  then have n: "0 < ?n" using zero_less_mult_pos2 [of "of_int ?n" "2 powi ulp_exp v :: rat"] by simp
  then have "(1 :: rat) \<le> of_int ?n" by simp
  then have "1 * 2 powi ulp_exp v \<le> of_int ?n * (2 powi ulp_exp v :: rat)" by (intro mult_right_mono) auto
  then have "2 powi ulp_exp v \<le> v" using v by linarith
  then have "2 powi ulp_exp v < (2 powi (flog2 v + 1) :: rat)" using flog2_bounds [OF assms(2)] by linarith
  then have "ulp_exp v \<le> flog2 v" using powi2_less_imp by fastforce
  with v n that show ?thesis by blast
qed

text \<open>Two multiples of a step that differ are at least a step apart.\<close>

lemma step_apart:
  fixes u :: rat
  assumes "0 < u" "of_int m * u < of_int n * u"
  shows "of_int m * u + u \<le> of_int n * u"
proof -
  have "(of_int m :: rat) < of_int n" using assms by simp
  then have "m + 1 \<le> n" by simp
  then have "(of_int (m + 1) :: rat) \<le> of_int n" by (simp only: of_int_le_iff)
  then have "of_int (m + 1) * u \<le> of_int n * u" using assms(1) by (intro mult_right_mono) auto
  then show ?thesis by (simp add: distrib_right)
qed

lemma powi2_multiple: "e \<le> k \<Longrightarrow> (2 powi k :: rat) = of_int (2 ^ nat (k - e)) * 2 powi e"
proof -
  assume "e \<le> k"
  then have "(2 powi k :: rat) = 2 powi (int (nat (k - e)) + e)" by simp
  also have "\<dots> = 2 ^ nat (k - e) * 2 powi e" by (simp only: powi2_add power_int_of_nat)
  finally show ?thesis by simp
qed

lemma fl_near:
  assumes v: "is64 v" "0 < v" and c: "\<bar>c - v\<bar> < v * 2 powi (- 54)"
  shows "fl c = v"
proof -
  obtain n :: int where n: "v = of_int n * 2 powi ulp_exp v" "ulp_exp v \<le> flog2 v" using is64_scaled [OF v] by blast
  let ?e = "ulp_exp v" and ?k = "flog2 v"
  let ?u = "2 powi ?e :: rat"
  have u: "0 < ?u" by simp
  have vb: "2 powi ?k \<le> v" "v < 2 powi (?k + 1)" using flog2_bounds [OF v(2)] by auto
  have "v * 2 powi (- 54) < 2 powi (?k + 1) * 2 powi (- 54)" using vb(2) by (intro mult_strict_right_mono) auto
  also have "(2 powi (?k + 1) * 2 powi (- 54) :: rat) = 2 powi (?k - 53)" by (simp only: powi2_add [symmetric]) simp
  finally have d: "\<bar>c - v\<bar> < 2 powi (?k - 53)" using c by linarith
  have "?k - 53 \<le> ?e - 1" using v(2) by (simp add: ulp_exp_def)
  then have "(2 powi (?k - 53) :: rat) \<le> 2 powi (?e - 1)" by (rule powi2_mono)
  also have half: "(2 powi (i - 1) :: rat) = 2 powi i / 2" for i by (simp add: power_int_diff)
  finally have d2: "\<bar>c - v\<bar> < ?u / 2" using d by linarith
  have "v * 2 powi (- 54) < v * 1" using v(2) by (intro mult_strict_left_mono) (simp_all add: power_int_minus)
  then have c0: "0 < c" using c by linarith
  have cb: "2 powi flog2 c \<le> c" "c < 2 powi (flog2 c + 1)" using flog2_bounds [OF c0] by auto
  consider "flog2 c = ?k" | "?k < flog2 c" | "flog2 c < ?k" by linarith
  then show ?thesis
  proof cases
    case 1
    then have "ulp_exp c = ?e" using c0 v(2) by (simp add: ulp_exp_def)
    then show ?thesis using n(1) d2 by (intro fl_onto [OF c0, of v n]) simp_all
  next
    case 2
    then have "(2 powi (?k + 1) :: rat) \<le> 2 powi flog2 c" by (intro powi2_mono) simp
    then have vc: "2 powi (?k + 1) \<le> c" using cb(1) by linarith
    have m: "(2 powi (?k + 1) :: rat) = of_int (2 ^ nat (?k + 1 - ?e)) * ?u" using n(2) by (intro powi2_multiple) simp
    have "v + ?u \<le> 2 powi (?k + 1)"
      using step_apart [OF u, of n "2 ^ nat (?k + 1 - ?e)"] vb(2) n(1) m by simp
    then show ?thesis using vc d2 u by linarith
  next
    case 3
    then have "(2 powi (flog2 c + 1) :: rat) \<le> 2 powi ?k" by (intro powi2_mono) simp
    then have ck: "c < 2 powi ?k" using cb(2) by linarith
    have m: "(2 powi ?k :: rat) = of_int (2 ^ nat (?k - ?e)) * ?u" using n(2) by (rule powi2_multiple)
    have "\<not> 2 powi ?k < v"
      using step_apart [OF u, of "2 ^ nat (?k - ?e)" n] n(1) m ck d2 u by (intro notI) simp
    then have vk: "v = 2 powi ?k" using vb(1) by simp
    have "(2 powi ?k :: rat) * 2 powi (- 54) = 2 powi (?k - 54)" by (simp only: powi2_add [symmetric]) simp
    then have d3: "\<bar>c - v\<bar> < 2 powi (?k - 54)" using c vk by simp
    have "(2 powi (?k - 54) :: rat) \<le> 2 powi (?k - 1)" by (rule powi2_mono) simp
    moreover have "(2 powi (?k - 1) :: rat) = v / 2" using vk half [of ?k] by simp
    ultimately have "2 powi (?k - 1) < c + c" using d3 v(2) by linarith
    moreover have "c + c < 2 powi (flog2 c + 2)" using cb(2) by (simp add: powi2_add)
    ultimately have "?k - 1 < flog2 c + 2" using powi2_less_imp by force
    moreover have "\<not> flog2 c = ?k - 2"
    proof
      assume "flog2 c = ?k - 2"
      then have "c < 2 powi (?k - 1)" using cb(2) by simp
      moreover have "(2 powi (?k - 54) :: rat) \<le> 2 powi (?k - 1)" by (rule powi2_mono) simp
      ultimately show False using d3 \<open>2 powi (?k - 1) = v / 2\<close> by linarith
    qed
    ultimately have fc: "flog2 c = ?k - 1" using 3 by linarith
    let ?e' = "ulp_exp c"
    have e': "?k - 53 \<le> ?e'" "?e' \<le> ?k" using fc c0 v(2) n(2) by (auto simp: ulp_exp_def)
    have "(2 powi (?k - 54) :: rat) \<le> 2 powi (?e' - 1)" using e'(1) by (intro powi2_mono) simp
    then have "\<bar>c - v\<bar> < 2 powi ?e' / 2" using d3 half [of ?e'] by linarith
    then show ?thesis using vk powi2_multiple [OF e'(2)] by (intro fl_onto [OF c0, of v "2 ^ nat (?k - ?e')"]) simp_all
  qed
qed

section \<open>Numbers as text\<close>

datatype pynum = Fin pyfloat | PInf | NInf | NaN

fun pynum_neg :: "pynum \<Rightarrow> pynum" where
  "pynum_neg (Fin x) = Fin (- x)"
| "pynum_neg PInf = NInf"
| "pynum_neg NInf = PInf"
| "pynum_neg NaN = NaN"

text \<open>Rounding a decimal to a float: a value that rounds to \<open>2 ^ 1024\<close> or more is an infinity.\<close>

definition pynum_of :: "rat \<Rightarrow> pynum" where
  "pynum_of x = (if 2 ^ 1024 \<le> fl x then PInf else if fl x \<le> - (2 ^ 1024) then NInf else Fin (fl x))"

definition digits_int :: "string \<Rightarrow> int" where
  "digits_int s = foldl (\<lambda>a c. 10 * a + (int (of_char c) - 48)) 0 s"

text \<open>
  The parts of a number token \<open>digits [. digits] [e [sign] digits]\<close> at the front of a text, each
  optional part only taken when it is complete, and what follows: the digits before the point, the
  digits after it, the exponent and the rest.
\<close>

definition frac_part :: "string \<Rightarrow> string \<times> string" where
  "frac_part s = (case s of
      c # d # cs \<Rightarrow> if c = CHR ''.'' \<and> is_digit d then (takeWhile is_digit (d # cs), dropWhile is_digit (d # cs)) else ([], s)
    | _ \<Rightarrow> ([], s))"

definition signed_digits :: "string \<Rightarrow> (int \<times> string) option" where
  "signed_digits s =
     (let sign = (case s of c # _ \<Rightarrow> c = CHR ''+'' \<or> c = CHR ''-'' | [] \<Rightarrow> False);
          body = (if sign then tl s else s);
          n = digits_int (takeWhile is_digit body) in
      if body \<noteq> [] \<and> is_digit (hd body)
      then Some (if sign \<and> hd s = CHR ''-'' then - n else n, dropWhile is_digit body) else None)"

definition exp_part :: "string \<Rightarrow> int \<times> string" where
  "exp_part s = (case s of
      c # cs \<Rightarrow> if c = CHR ''e'' \<or> c = CHR ''E''
                then (case signed_digits cs of Some r \<Rightarrow> r | None \<Rightarrow> (0, s)) else (0, s)
    | [] \<Rightarrow> (0, s))"

definition num_parts :: "string \<Rightarrow> string \<times> string \<times> int \<times> string" where
  "num_parts s =
     (let i = takeWhile is_digit s; (f, r1) = frac_part (dropWhile is_digit s); (e, r2) = exp_part r1 in (i, f, e, r2))"

definition num_value :: "string \<Rightarrow> string \<Rightarrow> int \<Rightarrow> rat" where
  "num_value i f e = of_int (digits_int (i @ f)) * 10 powi (e - int (length f))"

definition float_of_text :: "string \<Rightarrow> pynum" where
  "float_of_text s = (case num_parts s of (i, f, e, _) \<Rightarrow> pynum_of (num_value i f e))"

section \<open>repr of a float\<close>

definition dec_candidates :: "rat \<Rightarrow> nat \<Rightarrow> (int \<times> int) list" where
  "dec_candidates v n =
     (let k = flog10 v - int n + 1; x = v / 10 powi k in [(rhe x, k), (\<lfloor>x\<rfloor>, k), (\<lfloor>x\<rfloor> + 1, k)])"

definition reads_back :: "rat \<Rightarrow> int \<times> int \<Rightarrow> bool" where
  "reads_back v mk = (0 < fst mk \<and> fl (of_int (fst mk) * 10 powi snd mk) = v)"

definition shortest :: "rat \<Rightarrow> int \<times> int" where
  "shortest v = (case find (reads_back v) (concat (map (dec_candidates v) [1..<18])) of Some mk \<Rightarrow> mk | None \<Rightarrow> (1, 0))"

function int_digits :: "int \<Rightarrow> string" where
  "int_digits n = (if n < 10 then [digit_char (nat n)] else int_digits (n div 10) @ [digit_char (nat (n mod 10))])"
  by pat_completeness auto
termination by (relation "measure nat") auto

declare int_digits.simps [simp del]

function strip_zeros :: "int \<Rightarrow> int \<Rightarrow> int \<times> int" where
  "strip_zeros m k = (if 0 < m \<and> m mod 10 = 0 then strip_zeros (m div 10) (k + 1) else (m, k))"
  by pat_completeness auto
termination by (relation "measure (nat \<circ> fst)") auto

declare strip_zeros.simps [simp del]

definition num_text :: "string \<Rightarrow> string \<Rightarrow> int option \<Rightarrow> string" where
  "num_text i f e = i @ (if f = [] then [] else CHR ''.'' # f)
     @ (case e of None \<Rightarrow> [] | Some x \<Rightarrow> CHR ''e'' # (if x < 0 then CHR ''-'' else CHR ''+'')
          # (if \<bar>x\<bar> < 10 then CHR ''0'' # int_digits \<bar>x\<bar> else int_digits \<bar>x\<bar>))"

definition zeros :: "int \<Rightarrow> string" where
  "zeros k = replicate (nat k) CHR ''0''"

definition repr_digits :: "int \<Rightarrow> int \<Rightarrow> string" where
  "repr_digits m k =
     (let d = int_digits m; l = int (length d); decpt = l + k in
      if - 4 < decpt \<and> decpt \<le> 16 then
        (if decpt \<le> 0 then num_text ''0'' (zeros (- decpt) @ d) None
         else if decpt < l then num_text (take (nat decpt) d) (drop (nat decpt) d) None
         else num_text (d @ zeros (decpt - l)) ''0'' None)
      else num_text [hd d] (tl d) (Some (decpt - 1)))"

definition repr_pos :: "rat \<Rightarrow> string" where
  "repr_pos v = (case shortest v of (m, k) \<Rightarrow> case strip_zeros m k of (m', k') \<Rightarrow> repr_digits m' k')"

definition py_repr :: "pynum \<Rightarrow> string" where
  "py_repr v = (case v of
      Fin x \<Rightarrow> if x = 0 then ''0.0'' else if x < 0 then CHR ''-'' # repr_pos (- x) else repr_pos x
    | PInf \<Rightarrow> ''inf'' | NInf \<Rightarrow> ''-inf'' | NaN \<Rightarrow> ''nan'')"

section \<open>Reading back what repr writes\<close>

lemma shortest_reads_back:
  assumes "is64 v" "0 < v"
  shows "reads_back v (shortest v)"
proof -
  let ?k = "flog10 v - 16" let ?m = "rhe (v / 10 powi ?k)"
  have b: "10 powi flog10 v \<le> v" using flog10_bounds [OF assms(2)] by simp
  have p: "0 < (10 powi ?k :: rat)" by simp
  have k16: "(10 powi flog10 v :: rat) = 10 powi ?k * 10 ^ 16"
    using powi10_add [of ?k 16] by (simp add: power_int_def)
  have "of_int ?m * 10 powi ?k - v = (of_int ?m - v / 10 powi ?k) * 10 powi ?k" using p by (simp add: left_diff_distrib)
  then have "\<bar>of_int ?m * 10 powi ?k - v\<bar> = \<bar>of_int ?m - v / 10 powi ?k\<bar> * 10 powi ?k" using p by (simp add: abs_mult)
  also have "\<dots> \<le> 1/2 * 10 powi ?k" by (intro mult_right_mono rhe_near) auto
  also have "\<dots> < 10 powi flog10 v * 2 powi (- 54)" using p k16 by (simp add: power_int_minus field_simps)
  also have "\<dots> \<le> v * 2 powi (- 54)" using b by (intro mult_right_mono) auto
  finally have f: "fl (of_int ?m * 10 powi ?k) = v" by (intro fl_near assms)
  have "?m \<noteq> 0" using f assms(2) by (intro notI) simp
  moreover have "rhe (of_int 0) \<le> ?m" using assms(2) p by (intro rhe_mono) simp
  moreover have "rhe 0 = 0" using rhe_of_int [of 0] by simp
  ultimately have "reads_back v (?m, ?k)" using f by (simp add: reads_back_def)
  moreover have "(?m, ?k) \<in> set (dec_candidates v 17)" by (simp add: dec_candidates_def Let_def)
  ultimately have "\<exists>mk \<in> set (concat (map (dec_candidates v) [1..<18])). reads_back v mk"
    by (intro bexI [of _ "(?m, ?k)"]) (auto intro!: bexI [of _ 17])
  then obtain mk where mk: "find (reads_back v) (concat (map (dec_candidates v) [1..<18])) = Some mk"
    by (metis find_None_iff option.exhaust)
  then have "reads_back v mk" by (metis find_Some_iff)
  then show ?thesis unfolding shortest_def mk by simp
qed

lemma digits_foldl:
  "foldl (\<lambda>a c. 10 * a + (int (of_char c) - 48)) x t
     = x * 10 ^ length t + foldl (\<lambda>a c. 10 * a + (int (of_char c) - 48)) 0 t"
proof (induction t arbitrary: x)
  case (Cons c t)
  show ?case using Cons [of "10 * x + (int (of_char c) - 48)"] Cons [of "int (of_char c) - 48"] by (simp add: algebra_simps)
qed simp

lemma digits_int_append: "digits_int (s @ t) = digits_int s * 10 ^ length t + digits_int t"
  unfolding digits_int_def foldl_append by (rule digits_foldl)

lemma digits_int_digit: "n < 10 \<Longrightarrow> digits_int [digit_char n] = int n"
  by (simp add: digits_int_def digit_char_def of_char_of)

lemma digits_int_digits: "0 \<le> n \<Longrightarrow> digits_int (int_digits n) = n"
proof (induction n rule: int_digits.induct)
  case (1 n)
  show ?case
  proof (cases "n < 10")
    case True
    then show ?thesis using 1 digits_int_digit [of "nat n"] by (simp add: int_digits.simps [of n])
  next
    case False
    then have "digits_int (int_digits (n div 10)) = n div 10" using 1 by simp
    moreover have "digits_int [digit_char (nat (n mod 10))] = n mod 10" by (subst digits_int_digit) auto
    ultimately show ?thesis using False by (subst int_digits.simps) (simp add: digits_int_append)
  qed
qed

lemma is_digit_char [simp]: "n < 10 \<Longrightarrow> is_digit (digit_char n)"
  by (simp add: is_digit_def digit_char_def of_char_of)

lemma int_digits_digits [simp]: "0 \<le> n \<Longrightarrow> list_all is_digit (int_digits n)"
proof (induction n rule: int_digits.induct)
  case (1 n)
  have "n mod 10 < 10" by simp
  then have "nat (n mod 10) < 10" by linarith
  then show ?case using 1 by (subst int_digits.simps) auto
qed

lemma int_digits_nonempty [simp]: "int_digits n \<noteq> []"
  by (subst int_digits.simps) simp

lemma digits_int_zeros [simp]: "digits_int (zeros k) = 0"
proof -
  have "digits_int (replicate n CHR ''0'') = 0" for n
    by (induction n) (simp_all add: digits_int_def)
  then show ?thesis by (simp add: zeros_def)
qed

lemma zeros_digits [simp]: "list_all is_digit (zeros k)"
  by (simp add: zeros_def list_all_iff is_digit_def)

lemma length_zeros [simp]: "length (zeros k) = nat k"
  by (simp add: zeros_def)

text \<open>A text that may follow a number without becoming part of it.\<close>

definition num_stop :: "string \<Rightarrow> bool" where
  "num_stop rest = (case rest of [] \<Rightarrow> True | c # _ \<Rightarrow> \<not> is_digit c \<and> c \<noteq> CHR ''.'' \<and> c \<noteq> CHR ''e'' \<and> c \<noteq> CHR ''E'')"

lemma takeWhile_digits:
  assumes "list_all is_digit s" "t = [] \<or> \<not> is_digit (hd t)"
  shows "takeWhile is_digit (s @ t) = s" "dropWhile is_digit (s @ t) = t"
proof -
  have "takeWhile is_digit t = []" "dropWhile is_digit t = t" using assms(2) by (cases t; simp)+
  then show "takeWhile is_digit (s @ t) = s" "dropWhile is_digit (s @ t) = t"
    using assms(1) by (simp_all add: list_all_iff takeWhile_append2 dropWhile_append2)
qed

lemma num_stop_hd: "num_stop rest \<Longrightarrow> rest = [] \<or> \<not> is_digit (hd rest)"
  by (cases rest) (auto simp: num_stop_def)

lemma exp_part_stop: "num_stop rest \<Longrightarrow> exp_part rest = (0, rest)"
  by (cases rest) (auto simp: num_stop_def exp_part_def)

lemma exp_part_text:
  assumes "num_stop rest"
  shows "exp_part (CHR ''e'' # (if x < 0 then CHR ''-'' else CHR ''+'')
          # (if \<bar>x\<bar> < 10 then CHR ''0'' # int_digits \<bar>x\<bar> else int_digits \<bar>x\<bar>) @ rest) = (x, rest)"
proof -
  let ?d = "if \<bar>x\<bar> < 10 then CHR ''0'' # int_digits \<bar>x\<bar> else int_digits \<bar>x\<bar>"
  have z: "digits_int (CHR ''0'' # s) = digits_int s" for s by (simp add: digits_int_def)
  have d: "list_all is_digit ?d" "?d \<noteq> []" "digits_int ?d = \<bar>x\<bar>"
    by (auto simp: is_digit_def z digits_int_digits)
  then have h: "is_digit (hd (?d @ rest))" by (cases ?d) (auto simp: list_all_iff)
  have t: "takeWhile is_digit (?d @ rest) = ?d" "dropWhile is_digit (?d @ rest) = rest"
    using takeWhile_digits [OF d(1) num_stop_hd [OF assms]] by auto
  let ?c = "if x < 0 then CHR ''-'' else CHR ''+''"
  have "signed_digits (?c # ?d @ rest) = Some (x, rest)"
    using d h t by (simp add: signed_digits_def Let_def del: if_splits)
  then show ?thesis by (simp add: exp_part_def)
qed

lemma num_parts_text:
  assumes "list_all is_digit i" "list_all is_digit f" "num_stop rest"
  shows "num_parts (num_text i f e @ rest) = (i, f, case e of None \<Rightarrow> 0 | Some x \<Rightarrow> x, rest)"
proof -
  let ?ex = "case e of None \<Rightarrow> [] | Some x \<Rightarrow> CHR ''e'' # (if x < 0 then CHR ''-'' else CHR ''+'')
          # (if \<bar>x\<bar> < 10 then CHR ''0'' # int_digits \<bar>x\<bar> else int_digits \<bar>x\<bar>)"
  have ex: "exp_part (?ex @ rest) = (case e of None \<Rightarrow> 0 | Some x \<Rightarrow> x, rest)"
    using exp_part_stop [OF assms(3)] exp_part_text [OF assms(3)] by (cases e) simp_all
  have nd: "?ex @ rest = [] \<or> \<not> is_digit (hd (?ex @ rest))"
    using num_stop_hd [OF assms(3)] by (cases e) (auto simp: is_digit_def)
  have nf: "frac_part (?ex @ rest) = ([], ?ex @ rest)"
    using assms(3) by (cases e) (auto simp: frac_part_def num_stop_def split: list.split)
  show ?thesis
  proof (cases "f = []")
    case True
    then show ?thesis using takeWhile_digits [OF assms(1) nd] ex nf by (simp add: num_parts_def num_text_def)
  next
    case False
    let ?t = "CHR ''.'' # f @ ?ex @ rest"
    have "frac_part ?t = (f, ?ex @ rest)"
      using False assms(2) takeWhile_digits [OF assms(2) nd]
      by (cases f) (auto simp: frac_part_def)
    moreover have "takeWhile is_digit (i @ ?t) = i" "dropWhile is_digit (i @ ?t) = ?t"
      using takeWhile_digits [OF assms(1), of ?t] by (auto simp: is_digit_def)
    ultimately show ?thesis using False ex by (simp add: num_parts_def num_text_def)
  qed
qed

lemma strip_zeros_value:
  "0 < m \<Longrightarrow> strip_zeros m k = (m', k') \<Longrightarrow> 0 < m' \<and> of_int m' * (10 powi k' :: rat) = of_int m * 10 powi k"
proof (induction m k rule: strip_zeros.induct)
  case (1 m k)
  show ?case
  proof (cases "m mod 10 = 0")
    case True
    then have m: "m = 10 * (m div 10)" by presburger
    then have d: "0 < m div 10" using 1(2) by linarith
    have "strip_zeros (m div 10) (k + 1) = (m', k')" using 1(2,3) True by (simp add: strip_zeros.simps [of m k])
    then have "0 < m' \<and> of_int m' * (10 powi k' :: rat) = of_int (m div 10) * 10 powi (k + 1)"
      using 1(1,2) True d by simp
    moreover have "of_int (m div 10) * (10 powi (k + 1) :: rat) = of_int (10 * (m div 10)) * 10 powi k"
      by (simp add: powi10_add)
    ultimately show ?thesis using m by simp
  next
    case False
    then show ?thesis using 1(2,3) by (simp add: strip_zeros.simps [of m k])
  qed
qed

definition decimal_text :: "string \<Rightarrow> rat \<Rightarrow> bool" where
  "decimal_text t x = (\<exists>i f e. t = num_text i f e \<and> i \<noteq> [] \<and> list_all is_digit i \<and> list_all is_digit f
     \<and> num_value i f (case e of None \<Rightarrow> 0 | Some n \<Rightarrow> n) = x)"

lemma repr_digits_text:
  assumes m: "0 < m"
  shows "decimal_text (repr_digits m k) (of_int m * 10 powi k)"
proof -
  let ?d = "int_digits m"
  let ?l = "int (length ?d)" let ?p = "?l + k"
  have d: "list_all is_digit ?d" "?d \<noteq> []" "digits_int ?d = m" using m by (simp_all add: digits_int_digits)
  have z: "digits_int ''0'' = 0" "is_digit CHR ''0''" by (simp_all add: digits_int_def is_digit_def)
  have z1: "digits_int (CHR ''0'' # s) = digits_int s" for s by (simp add: digits_int_def)
  have sub: "list_all is_digit (take n ?d)" "list_all is_digit (drop n ?d)" for n
    using d(1) by (auto simp: list_all_iff dest: in_set_takeD in_set_dropD)
  consider (small) "- 4 < ?p" "?p \<le> 0" | (mid) "0 < ?p" "?p \<le> 16" "?p < ?l" | (whole) "0 < ?p" "?p \<le> 16" "?l \<le> ?p"
    | (exp) "\<not> (- 4 < ?p \<and> ?p \<le> 16)" by linarith
  then show ?thesis
  proof cases
    case small
    then have "repr_digits m k = num_text ''0'' (zeros (- ?p) @ ?d) None" by (simp add: repr_digits_def Let_def)
    moreover have "num_value ''0'' (zeros (- ?p) @ ?d) 0 = of_int m * 10 powi k"
      using small z d(3) by (simp add: num_value_def digits_int_append z1)
    ultimately show ?thesis using z d unfolding decimal_text_def
      by (intro exI [of _ "''0''"] exI [of _ "zeros (- ?p) @ ?d"] exI [of _ None]) simp
  next
    case mid
    then have "repr_digits m k = num_text (take (nat ?p) ?d) (drop (nat ?p) ?d) None" by (simp add: repr_digits_def Let_def)
    moreover have "num_value (take (nat ?p) ?d) (drop (nat ?p) ?d) 0 = of_int m * 10 powi k"
      using mid d(3) by (simp add: num_value_def of_nat_diff)
    moreover have "take (nat ?p) ?d \<noteq> []" using mid d(2) by simp
    ultimately show ?thesis using sub unfolding decimal_text_def
      by (intro exI [of _ "take (nat ?p) ?d"] exI [of _ "drop (nat ?p) ?d"] exI [of _ None]) simp
  next
    case whole
    then have k: "0 \<le> k" by simp
    have "repr_digits m k = num_text (?d @ zeros k) ''0'' None" using whole by (simp add: repr_digits_def Let_def)
    moreover have "num_value (?d @ zeros k) ''0'' 0 = of_int m * 10 powi k"
    proof -
      have "digits_int ((?d @ zeros k) @ ''0'') = m * 10 ^ nat k * 10" using d(3) z by (simp only: digits_int_append) simp
      moreover have "(10 powi k :: rat) = 10 ^ nat k" using k by (simp add: power_int_def)
      ultimately show ?thesis by (simp add: num_value_def power_int_minus)
    qed
    ultimately show ?thesis using z d unfolding decimal_text_def
      by (intro exI [of _ "?d @ zeros k"] exI [of _ "''0''"] exI [of _ None]) simp
  next
    case exp
    then have "repr_digits m k = num_text [hd ?d] (tl ?d) (Some (?p - 1))"
      unfolding repr_digits_def Let_def by (simp only: if_False)
    moreover have "num_value [hd ?d] (tl ?d) (?p - 1) = of_int m * 10 powi k"
      using d(2,3) by (simp add: num_value_def of_nat_diff Suc_le_eq)
    moreover have "is_digit (hd ?d)" "list_all is_digit (tl ?d)" using d by (cases ?d; simp)+
    ultimately show ?thesis unfolding decimal_text_def
      by (intro exI [of _ "[hd ?d]"] exI [of _ "tl ?d"] exI [of _ "Some (?p - 1)"]) simp
  qed
qed

lemma repr_pos_text:
  assumes "is64 v" "0 < v"
  obtains x where "decimal_text (repr_pos v) x" "fl x = v"
proof -
  obtain m k where mk: "shortest v = (m, k)" by fastforce
  then have r: "0 < m" "fl (of_int m * 10 powi k) = v" using shortest_reads_back [OF assms] by (simp_all add: reads_back_def)
  obtain m' k' where z: "strip_zeros m k = (m', k')" by fastforce
  note sv = strip_zeros_value [OF r(1) z]
  then have "decimal_text (repr_digits m' k') (of_int m' * 10 powi k')" by (intro repr_digits_text) simp
  then have "decimal_text (repr_pos v) (of_int m * 10 powi k)" using sv by (simp add: repr_pos_def mk z)
  with r(2) that show ?thesis by blast
qed

lemma decimal_text_read:
  assumes "decimal_text t x" "fl x = v" "v < 2 ^ 1024" "0 < v"
  shows "float_of_text t = Fin v"
proof -
  from assms(1) obtain i f e where t: "t = num_text i f e" "list_all is_digit i" "list_all is_digit f"
    "num_value i f (case e of None \<Rightarrow> 0 | Some n \<Rightarrow> n) = x" unfolding decimal_text_def by blast
  have "num_parts (num_text i f e @ []) = (i, f, case e of None \<Rightarrow> 0 | Some n \<Rightarrow> n, [])"
    using t by (intro num_parts_text) (simp_all add: num_stop_def)
  then show ?thesis using assms(2-4) t by (simp add: float_of_text_def pynum_of_def)
qed

text \<open>\<open>float(repr(x)) == x\<close> for every finite positive float.\<close>

lemma repr_pos_reads_back:
  assumes "is64 v" "0 < v" "v < 2 ^ 1024"
  shows "float_of_text (repr_pos v) = Fin v"
  using repr_pos_text [OF assms(1,2)] decimal_text_read [OF _ _ assms(3,2)] by metis

end
