(* ===== verification/ScreenNodes.thy ===== *)
theory ScreenNodes
  imports PyRepr
begin

text \<open>
  The syntax tree of the screening language ScreenQL, \<open>app/screener/nodes.py\<close>: the node types, the
  JSON form the visual builder sends (\<open>to_json\<close>, \<open>from_json\<close>), the canonical text (\<open>to_text\<close>) and
  the walk over a tree. The position of a node is left out: the source excludes it from equality.
  JSON values are the Python values \<open>json.loads\<close> gives. A timeframe is kept as the JSON value it
  was given as, because \<open>from_json\<close> stores it unchecked.
\<close>

section \<open>JSON values\<close>

datatype json =
    JNull
  | JBool bool
  | JInt int
  | JFloat pynum
  | JStr string
  | JList "json list"
  | JObj "(string \<times> json) list"

fun json_truthy :: "json \<Rightarrow> bool" where
  "json_truthy JNull = False"
| "json_truthy (JBool b) = b"
| "json_truthy (JInt n) = (n \<noteq> 0)"
| "json_truthy (JFloat x) = (x \<noteq> Fin 0)"
| "json_truthy (JStr s) = (s \<noteq> [])"
| "json_truthy (JList xs) = (xs \<noteq> [])"
| "json_truthy (JObj kv) = (kv \<noteq> [])"

fun join :: "string \<Rightarrow> string list \<Rightarrow> string" where
  "join sep [] = []"
| "join sep [s] = s"
| "join sep (s # t # ss) = s @ sep @ join sep (t # ss)"

text \<open>\<open>repr\<close> of an ASCII text: single quotes unless the text has one and no double quote.\<close>

definition hex_digit :: "nat \<Rightarrow> char" where
  "hex_digit n = (if n < 10 then char_of (48 + n) else char_of (87 + n))"

definition escape_char :: "char \<Rightarrow> char \<Rightarrow> string" where
  "escape_char q c = (let n = (of_char c :: nat) in
     if c = q \<or> n = 92 then [CHR 0x5C, c]
     else if n = 10 then [CHR 0x5C, CHR ''n''] else if n = 13 then [CHR 0x5C, CHR ''r'']
     else if n = 9 then [CHR 0x5C, CHR ''t'']
     else if n < 32 \<or> n = 127 then [CHR 0x5C, CHR ''x'', hex_digit (n div 16), hex_digit (n mod 16)] else [c])"

definition repr_str :: "string \<Rightarrow> string" where
  "repr_str s = (let q = (if CHR 0x27 \<in> set s \<and> CHR 0x22 \<notin> set s then CHR 0x22 else CHR 0x27) in
     q # concat (map (escape_char q) s) @ [q])"

fun repr_json :: "json \<Rightarrow> string" where
  "repr_json JNull = ''None''"
| "repr_json (JBool b) = (if b then ''True'' else ''False'')"
| "repr_json (JInt n) = show_int n"
| "repr_json (JFloat x) = py_repr x"
| "repr_json (JStr s) = repr_str s"
| "repr_json (JList xs) = ''['' @ join '', '' (map repr_json xs) @ '']''"
| "repr_json (JObj kv) = ''{'' @ join '', '' (map (\<lambda>(k, v). repr_str k @ '': '' @ repr_json v) kv) @ ''}''"

definition py_str :: "json \<Rightarrow> string" where
  "py_str j = (case j of JStr s \<Rightarrow> s | _ \<Rightarrow> repr_json j)"

section \<open>The nodes\<close>

datatype node =
    NNum pynum
  | NStr string
  | NBool bool
  | NParam string
  | NField string int json
  | NCall string "node list" "(string \<times> node) list" int json
  | NUnary string node
  | NBinary string node node
  | NCompare string node node
  | NBetween node node node
  | NIn node "node list"
  | NLogic string "node list"
  | NNot node

definition TIMEFRAMES :: "string list" where
  "TIMEFRAMES = [''1m'', ''3m'', ''5m'', ''15m'', ''30m'', ''1h'', ''1d'', ''1w'', ''1M'']"

definition TF_MINUTES :: "(string \<times> int) list" where
  "TF_MINUTES = [(''1m'', 1), (''3m'', 3), (''5m'', 5), (''15m'', 15), (''30m'', 30), (''1h'', 60), (''1d'', 375),
     (''1w'', 375 * 5), (''1M'', 375 * 21)]"

definition COMPARE_OPS :: "string list" where
  "COMPARE_OPS = [''>'', ''>='', ''<'', ''<='', ''=='', ''!='']"

definition ARITH_OPS :: "string list" where
  "ARITH_OPS = [''+'', ''-'', ''*'', ''/'']"

fun children :: "node \<Rightarrow> node list" where
  "children (NCall f args kwargs off tf) = args @ map snd kwargs"
| "children (NUnary op a) = [a]"
| "children (NBinary op a b) = [a, b]"
| "children (NCompare op a b) = [a, b]"
| "children (NBetween v a b) = [v, a, b]"
| "children (NIn v items) = v # items"
| "children (NLogic op items) = items"
| "children (NNot a) = [a]"
| "children n = []"

lemma snd_in_size [termination_simp]: "kv \<in> set kvs \<Longrightarrow> size (snd kv) < Suc (size_list (size_prod (\<lambda>x. 0) size) kvs)"
  by (induction kvs) auto

lemma size_children: "c \<in> set (children n) \<Longrightarrow> size c < size n"
proof (cases n)
  case (NCall f args kwargs off tf)
  assume "c \<in> set (children n)"
  then consider "c \<in> set args" | kv where "kv \<in> set kwargs" "c = snd kv" using NCall by auto
  then show ?thesis
  proof cases
    case 1
    then have "size c \<le> size_list size args" by (induction args) auto
    then show ?thesis using NCall by simp
  next
    case 2
    then show ?thesis using NCall snd_in_size [of kv kwargs] by simp
  qed
qed (auto simp: less_Suc_eq_le intro: size_list_estimation' trans_le_add1)

text \<open>\<open>walk\<close>: every node, depth first, the node itself first.\<close>

function walk :: "node \<Rightarrow> node list" where
  "walk n = n # concat (map walk (children n))"
  by pat_completeness auto
termination by (relation "measure size") (auto simp: size_children)

declare walk.simps [simp del]

section \<open>The JSON form\<close>

fun to_json :: "node \<Rightarrow> json" where
  "to_json (NNum v) = JObj [(''k'', JStr ''Num''), (''v'', JFloat v)]"
| "to_json (NStr s) = JObj [(''k'', JStr ''Str''), (''v'', JStr s)]"
| "to_json (NBool b) = JObj [(''k'', JStr ''Bool''), (''v'', JBool b)]"
| "to_json (NParam s) = JObj [(''k'', JStr ''Param''), (''name'', JStr s)]"
| "to_json (NField s off tf) = JObj [(''k'', JStr ''Field''), (''name'', JStr s), (''offset'', JInt off), (''tf'', tf)]"
| "to_json (NCall s args kwargs off tf) =
     JObj [(''k'', JStr ''Call''), (''name'', JStr s), (''args'', JList (map to_json args)),
           (''kwargs'', JObj (map (\<lambda>kv. (fst kv, to_json (snd kv))) kwargs)), (''offset'', JInt off), (''tf'', tf)]"
| "to_json (NUnary op a) = JObj [(''k'', JStr ''Unary''), (''op'', JStr op), (''operand'', to_json a)]"
| "to_json (NBinary op a b) = JObj [(''k'', JStr ''Binary''), (''op'', JStr op), (''left'', to_json a), (''right'', to_json b)]"
| "to_json (NCompare op a b) = JObj [(''k'', JStr ''Compare''), (''op'', JStr op), (''left'', to_json a), (''right'', to_json b)]"
| "to_json (NBetween v a b) = JObj [(''k'', JStr ''Between''), (''value'', to_json v), (''low'', to_json a), (''high'', to_json b)]"
| "to_json (NIn v items) = JObj [(''k'', JStr ''In''), (''value'', to_json v), (''items'', JList (map to_json items))]"
| "to_json (NLogic op items) = JObj [(''k'', JStr ''Logic''), (''op'', JStr op), (''items'', JList (map to_json items))]"
| "to_json (NNot a) = JObj [(''k'', JStr ''Not''), (''item'', to_json a)]"

text \<open>
  Reading a builder's tree back. The exceptions are values; \<open>KeyError\<close> and \<open>TypeError\<close> inside the
  \<open>try\<close> become \<open>ValueError\<close>, the others pass.
\<close>

datatype py_error = ValueError | TypeError | KeyError | AttributeError | OverflowError | IndexError | StopIteration

definition rbind :: "'e + 'a \<Rightarrow> ('a \<Rightarrow> 'e + 'b) \<Rightarrow> 'e + 'b" where
  "rbind r f = (case r of Inl e \<Rightarrow> Inl e | Inr x \<Rightarrow> f x)"

lemma rbind_simps [simp]: "rbind (Inl e) f = Inl e" "rbind (Inr x) f = f x"
  by (simp_all add: rbind_def)

lemma rbind_cong [fundef_cong]: "r = r' \<Longrightarrow> (\<And>x. r' = Inr x \<Longrightarrow> f x = f' x) \<Longrightarrow> rbind r f = rbind r' f'"
  by (cases r') simp_all

lemma rbind_Inr_iff: "rbind r f = Inr y \<longleftrightarrow> (\<exists>x. r = Inr x \<and> f x = Inr y)"
  by (cases r) simp_all

definition NODE_KINDS :: "string list" where
  "NODE_KINDS = [''Num'', ''Str'', ''Bool'', ''Param'', ''Field'', ''Call'', ''Unary'', ''Binary'', ''Compare'', ''Between'',
     ''In'', ''Logic'', ''Not'']"

definition get_item :: "(string \<times> json) list \<Rightarrow> string \<Rightarrow> py_error + json" where
  "get_item kv key = (case map_of kv key of None \<Rightarrow> Inl KeyError | Some j \<Rightarrow> Inr j)"

definition get_or :: "(string \<times> json) list \<Rightarrow> string \<Rightarrow> json \<Rightarrow> json" where
  "get_or kv key d = (case map_of kv key of None \<Rightarrow> d | Some j \<Rightarrow> j)"

text \<open>\<open>int(x)\<close> and \<open>float(x)\<close> of a JSON value.\<close>

definition trunc :: "rat \<Rightarrow> int" where
  "trunc x = (if 0 \<le> x then \<lfloor>x\<rfloor> else - \<lfloor>- x\<rfloor>)"

fun py_int :: "json \<Rightarrow> py_error + int" where
  "py_int (JInt n) = Inr n"
| "py_int (JBool b) = Inr (if b then 1 else 0)"
| "py_int (JFloat (Fin x)) = Inr (trunc x)"
| "py_int (JFloat NaN) = Inl ValueError"
| "py_int (JFloat _) = Inl OverflowError"
| "py_int (JStr s) = (case py_int_of s of None \<Rightarrow> Inl ValueError | Some n \<Rightarrow> Inr n)"
| "py_int _ = Inl TypeError"

fun num_node :: "json \<Rightarrow> py_error + node" where
  "num_node (JInt n) = (case pynum_of (of_int n) of Fin x \<Rightarrow> Inr (NNum (Fin x)) | _ \<Rightarrow> Inl OverflowError)"
| "num_node (JFloat x) = Inr (NNum x)"
| "num_node _ = Inl ValueError"

text \<open>
  What a list comprehension iterates: the items of a list; a text or an object gives texts, which
  \<open>from_json\<close> refuses at the first one; other values are not iterable.
\<close>

fun iter_items :: "json \<Rightarrow> py_error + json list" where
  "iter_items (JList xs) = Inr xs"
| "iter_items (JStr s) = (if s = [] then Inr [] else Inl ValueError)"
| "iter_items (JObj kv) = (if kv = [] then Inr [] else Inl ValueError)"
| "iter_items _ = Inl TypeError"

fun kwargs_items :: "json \<Rightarrow> py_error + (string \<times> json) list" where
  "kwargs_items (JObj kv) = Inr kv"
| "kwargs_items j = (if json_truthy j then Inl AttributeError else Inr [])"

definition as_value_error :: "py_error + 'a \<Rightarrow> py_error + 'a" where
  "as_value_error r = (case r of Inl KeyError \<Rightarrow> Inl ValueError | Inl TypeError \<Rightarrow> Inl ValueError | _ \<Rightarrow> r)"

lemma get_item_size: "get_item kv key = Inr j \<Longrightarrow> size j < Suc (size_list (size_prod (\<lambda>x. 0) size) kv)"
  using snd_in_size [of "(key, j)" kv] by (auto simp: get_item_def split: option.splits dest: map_of_SomeD)

lemma get_or_size:
  "iter_items (get_or kv key (JList [])) = Inr js \<Longrightarrow> size_list size js \<le> size_list (size_prod (\<lambda>x. 0) size) kv"
  "kwargs_items (get_or kv key JNull) = Inr ks \<Longrightarrow> size_list (size_prod (\<lambda>x. 0) size) ks \<le> size_list (size_prod (\<lambda>x. 0) size) kv"
proof -
  have s: "size j < Suc (size_list (size_prod (\<lambda>x. 0) size) kv)" if "map_of kv key = Some j" for j
    using snd_in_size [of "(key, j)" kv] that by (auto dest: map_of_SomeD)
  show "iter_items (get_or kv key (JList [])) = Inr js \<Longrightarrow> size_list size js \<le> size_list (size_prod (\<lambda>x. 0) size) kv"
    using s by (cases "map_of kv key") (auto simp: get_or_def elim!: iter_items.elims split: if_splits)
  show "kwargs_items (get_or kv key JNull) = Inr ks \<Longrightarrow> size_list (size_prod (\<lambda>x. 0) size) ks \<le> size_list (size_prod (\<lambda>x. 0) size) kv"
    using s by (cases "map_of kv key") (auto simp: get_or_def elim!: kwargs_items.elims split: if_splits)
qed

lemma iter_items_size: "iter_items j = Inr js \<Longrightarrow> size_list size js < Suc (size j)"
  by (cases j) (auto split: if_splits)

function from_json :: "json \<Rightarrow> py_error + node"
  and from_body :: "string \<Rightarrow> (string \<times> json) list \<Rightarrow> py_error + node"
  and from_field :: "(string \<times> json) list \<Rightarrow> string \<Rightarrow> py_error + node"
  and from_items :: "json list \<Rightarrow> py_error + node list"
  and from_kwargs :: "(string \<times> json) list \<Rightarrow> py_error + (string \<times> node) list" where
  "from_json j = (case j of
      JObj kv \<Rightarrow> (case get_or kv ''k'' JNull of
          JStr k \<Rightarrow> if k \<in> set NODE_KINDS then as_value_error (from_body k kv) else Inl ValueError
        | JList _ \<Rightarrow> Inl TypeError
        | JObj _ \<Rightarrow> Inl TypeError
        | _ \<Rightarrow> Inl ValueError)
    | _ \<Rightarrow> Inl ValueError)"
| "from_body k kv =
     (if k = ''Num'' then rbind (get_item kv ''v'') num_node
      else if k = ''Str'' then rbind (get_item kv ''v'') (\<lambda>v. Inr (NStr (py_str v)))
      else if k = ''Bool'' then rbind (get_item kv ''v'') (\<lambda>v. Inr (NBool (json_truthy v)))
      else if k = ''Param'' then rbind (get_item kv ''name'') (\<lambda>v. Inr (NParam (py_str v)))
      else if k = ''Field'' then
        rbind (get_item kv ''name'') (\<lambda>v. rbind (py_int (get_or kv ''offset'' (JInt 0))) (\<lambda>off.
          Inr (NField (py_str v) off (get_or kv ''tf'' JNull))))
      else if k = ''Call'' then
        rbind (get_item kv ''name'') (\<lambda>v.
        rbind (rbind (iter_items (get_or kv ''args'' (JList []))) from_items) (\<lambda>args.
        rbind (rbind (kwargs_items (get_or kv ''kwargs'' JNull)) from_kwargs) (\<lambda>kwargs.
        rbind (py_int (get_or kv ''offset'' (JInt 0))) (\<lambda>off.
          Inr (NCall (py_str v) args kwargs off (get_or kv ''tf'' JNull))))))
      else if k = ''Unary'' then
        rbind (get_item kv ''op'') (\<lambda>op. rbind (from_field kv ''operand'') (\<lambda>a. Inr (NUnary (py_str op) a)))
      else if k = ''Binary'' then
        rbind (get_item kv ''op'') (\<lambda>op. rbind (from_field kv ''left'') (\<lambda>a. rbind (from_field kv ''right'') (\<lambda>b.
          Inr (NBinary (py_str op) a b))))
      else if k = ''Compare'' then
        rbind (get_item kv ''op'') (\<lambda>op. rbind (from_field kv ''left'') (\<lambda>a. rbind (from_field kv ''right'') (\<lambda>b.
          Inr (NCompare (py_str op) a b))))
      else if k = ''Between'' then
        rbind (from_field kv ''value'') (\<lambda>v. rbind (from_field kv ''low'') (\<lambda>a. rbind (from_field kv ''high'') (\<lambda>b.
          Inr (NBetween v a b))))
      else if k = ''In'' then
        rbind (from_field kv ''value'') (\<lambda>v.
        rbind (rbind (rbind (get_item kv ''items'') iter_items) from_items) (\<lambda>items. Inr (NIn v items)))
      else if k = ''Logic'' then
        rbind (get_item kv ''op'') (\<lambda>op.
        rbind (rbind (rbind (get_item kv ''items'') iter_items) from_items) (\<lambda>items. Inr (NLogic (py_str op) items)))
      else rbind (from_field kv ''item'') (\<lambda>a. Inr (NNot a)))"
| "from_field kv key = rbind (get_item kv key) from_json"
| "from_items js = (case js of [] \<Rightarrow> Inr [] | j # js' \<Rightarrow> rbind (from_json j) (\<lambda>a. rbind (from_items js') (\<lambda>as. Inr (a # as))))"
| "from_kwargs kvs = (case kvs of [] \<Rightarrow> Inr []
     | kv # kvs' \<Rightarrow> rbind (from_json (snd kv)) (\<lambda>a. rbind (from_kwargs kvs') (\<lambda>as. Inr ((fst kv, a) # as))))"
  by pat_completeness auto
termination
proof (relation "measure (\<lambda>x. case x of
      Inl (Inl j) \<Rightarrow> 4 * size j
    | Inl (Inr (k, kv)) \<Rightarrow> 4 * size_list (size_prod (\<lambda>x. 0) size) kv + 3
    | Inr (Inl (kv, key)) \<Rightarrow> 4 * size_list (size_prod (\<lambda>x. 0) size) kv + 2
    | Inr (Inr (Inl js)) \<Rightarrow> 4 * size_list size js + 1
    | Inr (Inr (Inr kvs)) \<Rightarrow> 4 * size_list (size_prod (\<lambda>x. 0) size) kvs + 1)", goal_cases)
qed (auto simp: rbind_Inr_iff less_Suc_eq_le dest: get_item_size get_or_size iter_items_size, (fastforce dest: get_item_size get_or_size iter_items_size)+)

declare from_json.simps [simp del] from_body.simps [simp del] from_field.simps [simp del]
  from_items.simps [simp del] from_kwargs.simps [simp del]

section \<open>The canonical text\<close>

text \<open>
  \<open>_PREC\<close>: the binding strength of an operator; 8 is an atom. An operator outside the table raises
  \<open>KeyError\<close> in \<open>to_text\<close>; in \<open>node_text\<close> it has strength 0.
\<close>

definition PREC :: "(string \<times> nat) list" where
  "PREC = [(''OR'', 1), (''AND'', 2), (''NOT'', 3), (''CMP'', 4), (''+'', 5), (''-'', 5), (''*'', 6), (''/'', 6), (''NEG'', 7),
     (''ATOM'', 8)]"

definition op_prec :: "string \<Rightarrow> nat" where
  "op_prec op = (case map_of PREC op of None \<Rightarrow> 0 | Some p \<Rightarrow> p)"

fun prec :: "node \<Rightarrow> nat" where
  "prec (NLogic op items) = (if op = ''ANY'' then 1 else 2)"
| "prec (NNot a) = 3"
| "prec (NCompare op a b) = 4"
| "prec (NBetween v a b) = 4"
| "prec (NIn v items) = 4"
| "prec (NBinary op a b) = op_prec op"
| "prec (NUnary op a) = 7"
| "prec n = 8"

definition num_str :: "pynum \<Rightarrow> string" where
  "num_str v = (case v of
      Fin x \<Rightarrow> if x = of_int \<lfloor>x\<rfloor> \<and> \<bar>x\<bar> < 10 ^ 15 then (if x < 0 then CHR ''-'' # int_digits (- \<lfloor>x\<rfloor>) else int_digits \<lfloor>x\<rfloor>)
              else py_repr v
    | _ \<Rightarrow> py_repr v)"

definition suffix_text :: "int \<Rightarrow> json \<Rightarrow> string" where
  "suffix_text off tf = (if off \<noteq> 0 then ''['' @ show_int off @ '']'' else []) @ (if json_truthy tf then ''@'' @ py_str tf else [])"

definition quote_char :: "char \<Rightarrow> string" where
  "quote_char c = (if c = CHR 0x5C then [CHR 0x5C, CHR 0x5C] else if c = CHR 0x22 then [CHR 0x5C, CHR 0x22] else [c])"

definition str_text :: "string \<Rightarrow> string" where
  "str_text s = CHR 0x22 # concat (map quote_char s) @ [CHR 0x22]"

definition wrap :: "nat \<Rightarrow> nat \<Rightarrow> string \<Rightarrow> string" where
  "wrap minimum p t = (if p < minimum then ''('' @ t @ '')'' else t)"

fun node_text :: "node \<Rightarrow> string" where
  "node_text (NNum v) = num_str v"
| "node_text (NStr s) = str_text s"
| "node_text (NBool b) = (if b then ''TRUE'' else ''FALSE'')"
| "node_text (NParam s) = ''$'' @ s"
| "node_text (NField s off tf) = s @ suffix_text off tf"
| "node_text (NCall s args kwargs off tf) =
     s @ ''('' @ join '', '' (map node_text args @ map (\<lambda>kv. fst kv @ ''='' @ node_text (snd kv)) kwargs) @ '')'' @ suffix_text off tf"
| "node_text (NUnary op a) =
     (case a of NNum v \<Rightarrow> ''-('' @ node_text a @ '')'' | _ \<Rightarrow> ''-'' @ wrap 7 (prec a) (node_text a))"
| "node_text (NBinary op a b) =
     wrap (op_prec op) (prec a) (node_text a) @ '' '' @ op @ '' '' @ wrap (op_prec op + 1) (prec b) (node_text b)"
| "node_text (NCompare op a b) = wrap 5 (prec a) (node_text a) @ '' '' @ op @ '' '' @ wrap 5 (prec b) (node_text b)"
| "node_text (NBetween v a b) =
     wrap 5 (prec v) (node_text v) @ '' BETWEEN '' @ wrap 5 (prec a) (node_text a) @ '' AND '' @ wrap 5 (prec b) (node_text b)"
| "node_text (NIn v items) = wrap 5 (prec v) (node_text v) @ '' IN ('' @ join '', '' (map node_text items) @ '')''"
| "node_text (NLogic op items) =
     join (if op = ''ANY'' then '' OR '' else '' AND '')
       (map (\<lambda>i. wrap ((if op = ''ANY'' then 1 else 2) + 1) (prec i) (node_text i)) items)"
| "node_text (NNot a) = ''NOT '' @ wrap 3 (prec a) (node_text a)"

definition ops_known :: "node \<Rightarrow> bool" where
  "ops_known n = list_all (\<lambda>m. case m of NBinary op a b \<Rightarrow> map_of PREC op \<noteq> None | _ \<Rightarrow> True) (walk n)"

definition to_text :: "node \<Rightarrow> py_error + string" where
  "to_text n = (if ops_known n then Inr (node_text n) else Inl KeyError)"

section \<open>The builder's tree survives its JSON form\<close>

lemma as_value_error_Inr [simp]: "as_value_error (Inr x) = Inr x"
  by (simp add: as_value_error_def)

lemma get_item_Cons: "get_item ((k, v) # kv) key = (if k = key then Inr v else get_item kv key)"
  by (simp add: get_item_def)

lemma get_or_Cons: "get_or ((k, v) # kv) key d = (if k = key then v else get_or kv key d)"
  by (simp add: get_or_def)

lemma from_json_kind:
  "k \<in> set NODE_KINDS \<Longrightarrow> from_body k ((''k'', JStr k) # kv) = Inr n \<Longrightarrow> from_json (JObj ((''k'', JStr k) # kv)) = Inr n"
  by (simp add: from_json.simps get_or_Cons)

lemma from_items_map: "(\<And>a. a \<in> set as \<Longrightarrow> from_json (to_json a) = Inr a) \<Longrightarrow> from_items (map to_json as) = Inr as"
  by (induction as) (simp_all add: from_items.simps)

lemma from_kwargs_map:
  "(\<And>kv. kv \<in> set kvs \<Longrightarrow> from_json (to_json (snd kv)) = Inr (snd kv)) \<Longrightarrow>
   from_kwargs (map (\<lambda>kv. (fst kv, to_json (snd kv))) kvs) = Inr kvs"
  by (induction kvs) (simp_all add: from_kwargs.simps)

lemmas from_json_rules = from_body.simps from_field.simps get_item_Cons get_or_Cons NODE_KINDS_def py_str_def

text \<open>
  The JSON form of the builder loses nothing: reading back the JSON of any tree gives the same
  tree, with its names, operators, offsets, timeframes and named arguments.
\<close>
theorem json_roundtrip: "from_json (to_json n) = Inr n"
proof (induction n)
  case (NCall f args kwargs off tf)
  have "from_items (map to_json args) = Inr args" using NCall by (intro from_items_map)
  moreover have "from_kwargs (map (\<lambda>kv. (fst kv, to_json (snd kv))) kwargs) = Inr kwargs"
    using NCall by (intro from_kwargs_map) (auto simp: snds.simps)
  ultimately show ?case unfolding to_json.simps by (intro from_json_kind) (simp_all add: from_json_rules)
qed (unfold to_json.simps, (intro from_json_kind, simp_all add: from_json_rules from_items_map)+)

end
