(* ===== verification/ScreenParser.thy ===== *)
theory ScreenParser
  imports ScreenNodes
begin

text \<open>
  The ScreenQL parser, \<open>app/screener/parser.py\<close>: the tokens, the recursive descent with its depth
  limit, and \<open>parse\<close>. A parser function takes the depth still allowed and the tokens from the current
  one on, and returns the node with the tokens after it. A syntax error carries its kind and how many
  tokens were left at the token it points to; \<open>parse\<close> turns that into the character position.
  Two error kinds are not raised by the code: \<open>NoToken\<close> stands for reading past the end of the token
  list (an \<open>IndexError\<close>) and \<open>OutOfFuel\<close> for a loop that did not end; neither can occur.
\<close>

definition MAX_TEXT :: nat where "MAX_TEXT = 4000"
definition MAX_DEPTH :: nat where "MAX_DEPTH = 60"

definition KEYWORDS :: "string list" where
  "KEYWORDS = [''AND'', ''OR'', ''NOT'', ''BETWEEN'', ''IN'', ''TRUE'', ''FALSE'']"

section \<open>Tokens\<close>

datatype tok_kind = TNum | TStr | TParam | TName | TKw | TTf | TOp | TEof

datatype tok = Tok (tk_kind: tok_kind) (tk_text: string)

definition ident_start :: "char \<Rightarrow> bool" where
  "ident_start c = (is_alpha c \<or> c = CHR ''_'')"

definition ident_char :: "char \<Rightarrow> bool" where
  "ident_char c = (is_alpha c \<or> is_digit c \<or> c = CHR ''_'')"

definition ident_end :: "string \<Rightarrow> string" where
  "ident_end s = dropWhile ident_char s"

text \<open>The body of a quoted text: up to the closing quote, a backslash taking the character after it (not a line feed).\<close>

fun str_body :: "string \<Rightarrow> (string \<times> string) option" where
  "str_body [] = None"
| "str_body (c # cs) =
     (if c = CHR 0x22 then Some ([c], cs)
      else if c = CHR 0x5C then
        (case cs of [] \<Rightarrow> None
         | d # ds \<Rightarrow> if d = CHR 0x0A then None else map_option (\<lambda>(b, r). (c # d # b, r)) (str_body ds))
      else map_option (\<lambda>(b, r). (c # b, r)) (str_body cs))"

definition SINGLE_OPS :: "string" where
  "SINGLE_OPS = ''><+-*/(),[]=''"

definition DOUBLE_OPS :: "string list" where
  "DOUBLE_OPS = [''>='', ''<='', ''=='', ''!='']"

text \<open>One match of the token expression at the front of a text: the token and the rest.\<close>

definition name_tok :: "string \<Rightarrow> tok" where
  "name_tok w = (if py_upper w \<in> set KEYWORDS then Tok TKw (py_upper w) else Tok TName w)"

definition consumed :: "string \<Rightarrow> string \<Rightarrow> string" where
  "consumed s rest = take (length s - length rest) s"

definition lex_one :: "string \<Rightarrow> (tok option \<times> string) option" where
  "lex_one s = (case s of
      [] \<Rightarrow> None
    | c # cs \<Rightarrow>
        if is_space c then Some (None, dropWhile is_space cs)
        else if is_digit c then
          (case num_parts s of (_, _, _, rest) \<Rightarrow> Some (Some (Tok TNum (consumed s rest)), rest))
        else if c = CHR 0x22 then
          (case str_body cs of None \<Rightarrow> None | Some (b, rest) \<Rightarrow> Some (Some (Tok TStr (c # b)), rest))
        else if c = CHR ''$'' then
          (if cs \<noteq> [] \<and> ident_start (hd cs) then Some (Some (Tok TParam (c # takeWhile ident_char cs)), ident_end cs) else None)
        else if ident_start c then Some (Some (name_tok (takeWhile ident_char s)), ident_end s)
        else if c = CHR ''@'' then
          (if takeWhile ident_char cs \<in> set TIMEFRAMES
           then Some (Some (Tok TTf (c # takeWhile ident_char cs)), ident_end cs) else None)
        else if take 2 s \<in> set DOUBLE_OPS then Some (Some (Tok TOp (take 2 s)), drop 2 s)
        else if c \<in> set SINGLE_OPS then Some (Some (Tok TOp [c]), cs)
        else None)"

datatype syntax_error =
    TooLong
  | UnknownTimeframe
  | UnexpectedChar char
  | EmptyScreen
  | Expected string string
  | TooDeep
  | Unexpected string
  | NotALiteral string
  | TimeframeTwice
  | OffsetTwice
  | NegativeOffset
  | BadOffset
  | SuffixOnValue
  | ArgumentTwice string
  | PositionalAfterNamed
  | EmptyGroup string
  | ExpectedValue string
  | NoToken
  | OutOfFuel

lemma num_parts_shorter:
  assumes "is_digit c"
  shows "length (snd (snd (snd (num_parts (c # cs))))) < length (c # cs)"
proof -
  have d: "length (dropWhile is_digit s) \<le> length s" for s by (rule length_dropWhile_le)
  have f: "length (snd (frac_part s)) \<le> length s" for s
    using d by (auto simp: frac_part_def le_Suc_eq split: list.split)
  have g: "length r \<le> length s" if "signed_digits s = Some (n, r)" for s n r
  proof -
    have "r = dropWhile is_digit (tl s) \<or> r = dropWhile is_digit s"
      using that by (auto simp: signed_digits_def Let_def split: if_splits)
    then show ?thesis using d [of s] d [of "tl s"] by (auto simp: le_diff_conv)
  qed
  have e: "length (snd (exp_part s)) \<le> length s" for s
    by (auto simp: exp_part_def le_SucI dest!: g split: list.split option.split)
  have "length (dropWhile is_digit (c # cs)) < length (c # cs)" using assms d [of cs] by (simp add: le_imp_less_Suc)
  moreover have "snd (snd (snd (num_parts (c # cs)))) = snd (exp_part (snd (frac_part (dropWhile is_digit (c # cs)))))"
    by (simp add: num_parts_def Let_def split: prod.split)
  ultimately show ?thesis using e f by (metis le_less_trans order_trans)
qed

lemma str_body_shorter: "str_body s = Some (b, r) \<Longrightarrow> length r < length s"
proof (induction s arbitrary: b r rule: str_body.induct)
  case (2 c cs)
  show ?case
  proof (cases "c = CHR 0x22")
    case False
    show ?thesis
    proof (cases "c = CHR 0x5C")
      case True
      then obtain d ds b' where "cs = d # ds" "d \<noteq> CHR 0x0A" "str_body ds = Some (b', r)"
        using 2(3) by (auto split: list.splits if_splits)
      then show ?thesis using 2(1) [OF False True] by fastforce
    next
      case f2: False
      then obtain b' where "str_body cs = Some (b', r)" using 2(3) False by auto
      then show ?thesis using 2(2) [OF False f2] by fastforce
    qed
  qed (use 2(3) in simp)
qed simp

lemma lex_one_shorter: "lex_one s = Some (t, r) \<Longrightarrow> length r < length s"
proof (cases s)
  case (Cons c cs)
  assume a: "lex_one s = Some (t, r)"
  have d: "length (dropWhile P xs) \<le> length xs" for P and xs :: string by (rule length_dropWhile_le)
  have "length (ident_end s) < length s" if "ident_start c"
    using that d [of ident_char cs] by (auto simp: ident_end_def Cons ident_start_def ident_char_def le_imp_less_Suc)
  then show ?thesis
    using a d [of is_space cs] d [of ident_char cs] num_parts_shorter [of c cs] str_body_shorter [of cs]
    by (auto simp: lex_one_def Cons ident_end_def le_imp_less_Suc split: if_splits prod.splits option.splits)
qed (simp add: lex_one_def)

function lex :: "nat \<Rightarrow> string \<Rightarrow> (syntax_error \<times> nat) + (tok \<times> nat) list" where
  "lex i s =
     (if s = [] then Inr [(Tok TEof [], i)]
      else case lex_one s of
        None \<Rightarrow> Inl (if hd s = CHR ''@'' then UnknownTimeframe else UnexpectedChar (hd s), i)
      | Some (t, rest) \<Rightarrow>
          rbind (lex (i + (length s - length rest)) rest) (\<lambda>ts.
            Inr (case t of None \<Rightarrow> ts | Some tk \<Rightarrow> (tk, i) # ts)))"
  by pat_completeness auto
termination by (relation "measure (length \<circ> snd)") (auto dest: lex_one_shorter)

declare lex.simps [simp del]

definition tokenize :: "string \<Rightarrow> (syntax_error \<times> nat) + (tok \<times> nat) list" where
  "tokenize s = (if MAX_TEXT < length s then Inl (TooLong, MAX_TEXT) else lex 0 s)"

section \<open>The recursive descent\<close>

type_synonym 'a parsed = "(syntax_error \<times> nat) + 'a \<times> tok list"

text \<open>The error \<open>e\<close> at the first of the tokens \<open>ts\<close>.\<close>

definition fail_at :: "tok list \<Rightarrow> syntax_error \<Rightarrow> (syntax_error \<times> nat) + 'a" where
  "fail_at ts e = Inl (e, length ts)"

definition is_tok :: "tok_kind \<Rightarrow> string \<Rightarrow> tok list \<Rightarrow> bool" where
  "is_tok k x ts = (case ts of [] \<Rightarrow> False | t # _ \<Rightarrow> t = Tok k x)"

definition is_kind :: "tok_kind \<Rightarrow> tok list \<Rightarrow> bool" where
  "is_kind k ts = (case ts of [] \<Rightarrow> False | t # _ \<Rightarrow> tk_kind t = k)"

definition found :: "tok list \<Rightarrow> string" where
  "found ts = (case ts of [] \<Rightarrow> [] | t # _ \<Rightarrow> if tk_text t = [] then ''end of screen'' else tk_text t)"

definition cur_text :: "tok list \<Rightarrow> string" where
  "cur_text ts = (case ts of [] \<Rightarrow> [] | t # _ \<Rightarrow> tk_text t)"

definition expect :: "tok_kind \<Rightarrow> string \<Rightarrow> string \<Rightarrow> tok list \<Rightarrow> (syntax_error \<times> nat) + tok list" where
  "expect k x what ts =
     (if ts = [] then fail_at ts NoToken
      else if is_tok k x ts then Inr (tl ts) else fail_at ts (Expected what (found ts)))"

text \<open>
  The loops \<open>while the current token is a separator: take it, parse an item\<close>. The fuel is the number of
  tokens; each round takes one.
\<close>

fun items_loop :: "nat \<Rightarrow> (tok list \<Rightarrow> 'a parsed) \<Rightarrow> (tok list \<Rightarrow> bool) \<Rightarrow> 'a list \<Rightarrow> tok list \<Rightarrow> 'a list parsed" where
  "items_loop n p sep acc ts =
     (if sep ts then
        (case n of 0 \<Rightarrow> fail_at ts OutOfFuel
         | Suc m \<Rightarrow> rbind (p (tl ts)) (\<lambda>(x, r). items_loop m p sep (acc @ [x]) r))
      else Inr (acc, ts))"

declare items_loop.simps [simp del]

fun binary_loop :: "nat \<Rightarrow> (tok list \<Rightarrow> node parsed) \<Rightarrow> string list \<Rightarrow> node \<Rightarrow> tok list \<Rightarrow> node parsed" where
  "binary_loop n p ops a ts =
     (if is_kind TOp ts \<and> cur_text ts \<in> set ops then
        (case n of 0 \<Rightarrow> fail_at ts OutOfFuel
         | Suc m \<Rightarrow> rbind (p (tl ts)) (\<lambda>(b, r). binary_loop m p ops (NBinary (cur_text ts) a b) r))
      else Inr (a, ts))"

declare binary_loop.simps [simp del]

definition items_of :: "(tok list \<Rightarrow> 'a parsed) \<Rightarrow> (tok list \<Rightarrow> bool) \<Rightarrow> tok list \<Rightarrow> 'a list parsed" where
  "items_of p sep ts = rbind (p ts) (\<lambda>(x, r). items_loop (length r) p sep [x] r)"

definition group_of :: "string \<Rightarrow> node list \<Rightarrow> node" where
  "group_of op items = (case items of [a] \<Rightarrow> a | _ \<Rightarrow> NLogic op items)"

definition map_fst_res :: "('a \<Rightarrow> 'b) \<Rightarrow> 'a parsed \<Rightarrow> 'b parsed" where
  "map_fst_res f r = rbind r (\<lambda>(x, ts). Inr (f x, ts))"

fun unescape :: "string \<Rightarrow> string" where
  "unescape [] = []"
| "unescape [c] = [c]"
| "unescape (c # d # cs) = (if c = CHR 0x5C \<and> d \<noteq> CHR 0x0A then d # unescape cs else c # unescape (d # cs))"

definition with_offset :: "int \<Rightarrow> node \<Rightarrow> node" where
  "with_offset off n = (case n of NField s _ tf \<Rightarrow> NField s off tf | NCall s a k _ tf \<Rightarrow> NCall s a k off tf | _ \<Rightarrow> n)"

definition with_tf :: "string \<Rightarrow> node \<Rightarrow> node" where
  "with_tf tf n = (case n of NField s off _ \<Rightarrow> NField s off (JStr tf) | NCall s a k off _ \<Rightarrow> NCall s a k off (JStr tf) | _ \<Rightarrow> n)"

definition is_series :: "node \<Rightarrow> bool" where
  "is_series n = (case n of NField _ _ _ \<Rightarrow> True | NCall _ _ _ _ _ \<Rightarrow> True | _ \<Rightarrow> False)"

text \<open>\<open>[n]\<close> after the opening bracket at the front of \<open>ts\<close>.\<close>

definition offset_suffix :: "bool \<Rightarrow> tok list \<Rightarrow> int parsed" where
  "offset_suffix seen ts =
     (let r = tl ts in
      if seen then fail_at ts OffsetTwice
      else if is_tok TOp ''-'' r then fail_at ts NegativeOffset
      else if r = [] then fail_at r NoToken
      else if \<not> is_kind TNum r then fail_at r (Expected ''a whole number of bars back'' (found r))
      else if \<not> list_all is_digit (cur_text r) \<or> 4 < length (cur_text r) then fail_at r BadOffset
      else rbind (expect TOp '']'' '']'' (tl r)) (\<lambda>r'. Inr (digits_int (cur_text r), r')))"

fun suffixes :: "nat \<Rightarrow> bool \<Rightarrow> bool \<Rightarrow> node \<Rightarrow> tok list \<Rightarrow> node parsed" where
  "suffixes n seen_offset seen_tf a ts =
     (if is_kind TTf ts then
        (if seen_tf then fail_at ts TimeframeTwice
         else case n of 0 \<Rightarrow> fail_at ts OutOfFuel
           | Suc m \<Rightarrow> suffixes m seen_offset True (with_tf (tl (cur_text ts)) a) (tl ts))
      else if is_tok TOp ''['' ts then
        (case n of 0 \<Rightarrow> fail_at ts OutOfFuel
         | Suc m \<Rightarrow> rbind (offset_suffix seen_offset ts) (\<lambda>(off, r). suffixes m True seen_tf (with_offset off a) r))
      else Inr (a, ts))"

declare suffixes.simps [simp del]

definition neg_num_ahead :: "tok list \<Rightarrow> bool" where
  "neg_num_ahead ts = (is_tok TOp ''-'' ts \<and> is_kind TNum (tl ts))"

definition neg_num :: "tok list \<Rightarrow> node parsed" where
  "neg_num ts = Inr (NNum (pynum_neg (float_of_text (cur_text (tl ts)))), tl (tl ts))"

definition kwarg_ahead :: "tok list \<Rightarrow> bool" where
  "kwarg_ahead ts = (is_kind TName ts \<and> is_tok TOp ''='' (tl ts))"

text \<open>The arguments of a call, from the one at the front of \<open>ts\<close>; \<open>nm\<close> are the tokens at the call's name.\<close>

fun args_loop :: "nat \<Rightarrow> (tok list \<Rightarrow> node parsed) \<Rightarrow> tok list \<Rightarrow> node list \<Rightarrow> (string \<times> node) list \<Rightarrow> tok list
    \<Rightarrow> (node list \<times> (string \<times> node) list) parsed" where
  "args_loop n p nm args kwargs ts =
     (case n of 0 \<Rightarrow> fail_at ts OutOfFuel
      | Suc m \<Rightarrow>
         rbind
           (if kwarg_ahead ts then
              (if cur_text ts \<in> set (map fst kwargs) then fail_at nm (ArgumentTwice (cur_text ts))
               else rbind (p (tl (tl ts))) (\<lambda>(v, r). Inr ((args, kwargs @ [(cur_text ts, v)]), r)))
            else if kwargs \<noteq> [] then fail_at ts PositionalAfterNamed
            else rbind (p ts) (\<lambda>(v, r). Inr ((args @ [v], kwargs), r)))
           (\<lambda>((args', kwargs'), r).
              if is_tok TOp '','' r then args_loop m p nm args' kwargs' (tl r) else Inr ((args', kwargs'), r)))"

declare args_loop.simps [simp del]

definition call_node :: "tok list \<Rightarrow> string \<Rightarrow> node list \<Rightarrow> (string \<times> node) list \<Rightarrow> (syntax_error \<times> nat) + node" where
  "call_node nm f args kwargs =
     (if py_upper f \<in> {''ALL'', ''ANY''} \<and> kwargs = [] then
        (if args = [] then fail_at nm (EmptyGroup (py_upper f)) else Inr (group_of (py_upper f) args))
      else Inr (NCall f args kwargs 0 JNull))"

definition atom_node :: "tok \<Rightarrow> node option" where
  "atom_node t =
     (case tk_kind t of
        TNum \<Rightarrow> Some (NNum (float_of_text (tk_text t)))
      | TStr \<Rightarrow> Some (NStr (unescape (butlast (tl (tk_text t)))))
      | TKw \<Rightarrow> if tk_text t = ''TRUE'' then Some (NBool True) else if tk_text t = ''FALSE'' then Some (NBool False) else None
      | TParam \<Rightarrow> Some (NParam (tl (tk_text t)))
      | _ \<Rightarrow> None)"

definition literal :: "tok list \<Rightarrow> node parsed" where
  "literal ts =
     (if neg_num_ahead ts then neg_num ts
      else case ts of
        [] \<Rightarrow> fail_at ts NoToken
      | t # r \<Rightarrow> (case atom_node t of Some a \<Rightarrow> Inr (a, r) | None \<Rightarrow> fail_at ts (NotALiteral (tk_text t))))"

function or_expr and and_expr and not_expr and comparison and additive and tterm and unary and postfix and primary where
  "or_expr r ts = (case r of
      0 \<Rightarrow> fail_at ts TooDeep
    | Suc d \<Rightarrow> map_fst_res (group_of ''ANY'') (items_of (and_expr d) (is_tok TKw ''OR'') ts))"
| "and_expr d ts = map_fst_res (group_of ''ALL'') (items_of (not_expr d) (is_tok TKw ''AND'') ts)"
| "not_expr d ts =
     (if is_tok TKw ''NOT'' ts then
        (case d of 0 \<Rightarrow> fail_at (tl ts) TooDeep | Suc e \<Rightarrow> map_fst_res NNot (not_expr e (tl ts)))
      else comparison d ts)"
| "comparison d ts =
     rbind (additive d ts) (\<lambda>(a, r).
       if is_kind TOp r \<and> cur_text r \<in> set COMPARE_OPS then map_fst_res (NCompare (cur_text r) a) (additive d (tl r))
       else if is_tok TKw ''BETWEEN'' r then
         rbind (additive d (tl r)) (\<lambda>(lo, r2).
         rbind (expect TKw ''AND'' ''AND (in BETWEEN low AND high)'' r2) (\<lambda>r3. map_fst_res (NBetween a lo) (additive d r3)))
       else if is_tok TKw ''IN'' r then
         rbind (expect TOp ''('' ''('' (tl r)) (\<lambda>r2.
         rbind (items_of literal (is_tok TOp '','') r2) (\<lambda>(items, r3).
         rbind (expect TOp '')'' '')'' r3) (\<lambda>r4. Inr (NIn a items, r4))))
       else Inr (a, r))"
| "additive d ts = rbind (tterm d ts) (\<lambda>(a, r). binary_loop (length r) (tterm d) [''+'', ''-''] a r)"
| "tterm d ts = rbind (unary d ts) (\<lambda>(a, r). binary_loop (length r) (unary d) [''*'', ''/''] a r)"
| "unary d ts =
     (if is_tok TOp ''-'' ts then
        (if is_kind TNum (tl ts) then neg_num ts
         else case d of 0 \<Rightarrow> fail_at (tl ts) TooDeep | Suc e \<Rightarrow> map_fst_res (NUnary ''-'') (unary e (tl ts)))
      else postfix d ts)"
| "postfix d ts =
     rbind (primary d ts) (\<lambda>(a, r).
       if is_series a then suffixes (length r) False False a r
       else if is_tok TOp ''['' r \<or> is_kind TTf r then fail_at r SuffixOnValue
       else Inr (a, r))"
| "primary d ts = (case ts of
      [] \<Rightarrow> fail_at ts NoToken
    | t # r \<Rightarrow>
        (case atom_node t of
           Some a \<Rightarrow> Inr (a, r)
         | None \<Rightarrow>
             if tk_kind t = TName then
               (if \<not> is_tok TOp ''('' r then Inr (NField (tk_text t) 0 JNull, r)
                else case d of
                  0 \<Rightarrow> fail_at (tl r) TooDeep
                | Suc e \<Rightarrow>
                    rbind (if is_tok TOp '')'' (tl r) then Inr (([], []), tl r)
                           else args_loop (Suc (length r)) (or_expr e) ts [] [] (tl r)) (\<lambda>((args, kwargs), r3).
                    rbind (expect TOp '')'' '')'' r3) (\<lambda>r4.
                    rbind (call_node ts (tk_text t) args kwargs) (\<lambda>n. Inr (n, r4)))))
             else if t = Tok TOp ''('' then
               rbind (or_expr d r) (\<lambda>(a, r2). rbind (expect TOp '')'' '')'' r2) (\<lambda>r3. Inr (a, r3)))
             else fail_at ts (ExpectedValue (found ts))))"
  by pat_completeness auto
termination
  by (relation "measure (\<lambda>x. case x of
        Inl (Inl (Inl (d, _))) \<Rightarrow> 9 * d | Inl (Inl (Inr (d, _))) \<Rightarrow> 9 * d + 8
      | Inl (Inr (Inl (d, _))) \<Rightarrow> 9 * d + 7 | Inl (Inr (Inr (d, _))) \<Rightarrow> 9 * d + 6
      | Inr (Inl (Inl (d, _))) \<Rightarrow> 9 * d + 5 | Inr (Inl (Inr (d, _))) \<Rightarrow> 9 * d + 4
      | Inr (Inr (Inl (d, _))) \<Rightarrow> 9 * d + 3 | Inr (Inr (Inr (Inl (d, _)))) \<Rightarrow> 9 * d + 2
      | Inr (Inr (Inr (Inr (d, _)))) \<Rightarrow> 9 * d + 1)") auto

declare or_expr.simps [simp del] and_expr.simps [simp del] not_expr.simps [simp del] comparison.simps [simp del]
  additive.simps [simp del] tterm.simps [simp del] unary.simps [simp del] postfix.simps [simp del] primary.simps [simp del]

definition screen :: "tok list \<Rightarrow> (syntax_error \<times> nat) + node" where
  "screen ts = rbind (or_expr MAX_DEPTH ts) (\<lambda>(a, r). if is_kind TEof r then Inr a else fail_at r (Unexpected (cur_text r)))"

definition parse :: "string \<Rightarrow> (syntax_error \<times> nat) + node" where
  "parse s =
     (if py_strip s = [] then Inl (EmptyScreen, 0)
      else rbind (tokenize s) (\<lambda>tps.
        case screen (map fst tps) of
          Inr a \<Rightarrow> Inr a
        | Inl (e, left) \<Rightarrow> Inl (e, snd (tps ! (length tps - left)))))"

end
