(* ===== verification/ScreenLex.thy ===== *)
theory ScreenLex
  imports ScreenParser
begin

text \<open>
  Well-formed ScreenQL trees (the trees a screen text can denote), the tokens of the canonical text
  of a tree, and the proof that the tokenizer reads the canonical text of a well-formed tree as
  exactly these tokens.
\<close>

section \<open>Well-formed trees\<close>

definition ident :: "string \<Rightarrow> bool" where
  "ident s = (s \<noteq> [] \<and> ident_start (hd s) \<and> list_all ident_char s)"

definition name_ok :: "string \<Rightarrow> bool" where
  "name_ok s = (ident s \<and> py_upper s \<notin> set KEYWORDS)"

definition suffix_ok :: "int \<Rightarrow> json \<Rightarrow> bool" where
  "suffix_ok off tf = (0 \<le> off \<and> off \<le> 9999 \<and> (tf = JNull \<or> tf \<in> JStr ` set TIMEFRAMES))"

definition is_literal :: "node \<Rightarrow> bool" where
  "is_literal n = (case n of NNum _ \<Rightarrow> True | NStr _ \<Rightarrow> True | NBool _ \<Rightarrow> True | NParam _ \<Rightarrow> True | _ \<Rightarrow> False)"

fun wf_node :: "node \<Rightarrow> bool" where
  "wf_node (NNum v) = True"
| "wf_node (NStr s) = True"
| "wf_node (NBool b) = True"
| "wf_node (NParam s) = ident s"
| "wf_node (NField s off tf) = (name_ok s \<and> suffix_ok off tf)"
| "wf_node (NCall s args kwargs off tf) =
     (name_ok s \<and> (py_upper s \<in> {''ALL'', ''ANY''} \<longrightarrow> kwargs \<noteq> []) \<and> list_all wf_node args
      \<and> list_all (\<lambda>kv. name_ok (fst kv) \<and> wf_node (snd kv)) kwargs \<and> distinct (map fst kwargs) \<and> suffix_ok off tf)"
| "wf_node (NUnary op a) = (op = ''-'' \<and> wf_node a)"
| "wf_node (NBinary op a b) = (op \<in> set ARITH_OPS \<and> wf_node a \<and> wf_node b)"
| "wf_node (NCompare op a b) = (op \<in> set COMPARE_OPS \<and> wf_node a \<and> wf_node b)"
| "wf_node (NBetween v a b) = (wf_node v \<and> wf_node a \<and> wf_node b)"
| "wf_node (NIn v items) = (wf_node v \<and> items \<noteq> [] \<and> list_all (\<lambda>i. is_literal i \<and> wf_node i) items)"
| "wf_node (NLogic op items) = (op \<in> {''ALL'', ''ANY''} \<and> 2 \<le> length items \<and> list_all wf_node items)"
| "wf_node (NNot a) = wf_node a"

text \<open>Every number of the tree is a finite float.\<close>

definition finite_num :: "pynum \<Rightarrow> bool" where
  "finite_num v = (case v of Fin x \<Rightarrow> is64 x \<and> \<bar>x\<bar> < 2 ^ 1024 | _ \<Rightarrow> False)"

fun finite_nums :: "node \<Rightarrow> bool" where
  "finite_nums (NNum v) = finite_num v"
| "finite_nums (NCall s args kwargs off tf) = (list_all finite_nums args \<and> list_all (\<lambda>kv. finite_nums (snd kv)) kwargs)"
| "finite_nums (NUnary op a) = finite_nums a"
| "finite_nums (NBinary op a b) = (finite_nums a \<and> finite_nums b)"
| "finite_nums (NCompare op a b) = (finite_nums a \<and> finite_nums b)"
| "finite_nums (NBetween v a b) = (finite_nums v \<and> finite_nums a \<and> finite_nums b)"
| "finite_nums (NIn v items) = (finite_nums v \<and> list_all finite_nums items)"
| "finite_nums (NLogic op items) = list_all finite_nums items"
| "finite_nums (NNot a) = finite_nums a"
| "finite_nums n = True"

section \<open>The tokens of the canonical text\<close>

abbreviation (input) opt :: "string \<Rightarrow> tok" where "opt x \<equiv> Tok TOp x"
abbreviation (input) kwt :: "string \<Rightarrow> tok" where "kwt x \<equiv> Tok TKw x"

fun tjoin :: "tok \<Rightarrow> tok list list \<Rightarrow> tok list" where
  "tjoin sep [] = []"
| "tjoin sep [t] = t"
| "tjoin sep (t # u # ts) = t @ sep # tjoin sep (u # ts)"

definition wtoks :: "nat \<Rightarrow> nat \<Rightarrow> tok list \<Rightarrow> tok list" where
  "wtoks minimum p ts = (if p < minimum then opt ''('' # ts @ [opt '')''] else ts)"

definition num_toks :: "pynum \<Rightarrow> tok list" where
  "num_toks v = (case v of
      Fin x \<Rightarrow> if x < 0 then [opt ''-'', Tok TNum (num_str (Fin (- x)))] else [Tok TNum (num_str v)]
    | _ \<Rightarrow> [])"

definition suffix_toks :: "int \<Rightarrow> json \<Rightarrow> tok list" where
  "suffix_toks off tf = (if off \<noteq> 0 then [opt ''['', Tok TNum (show_int off), opt '']''] else [])
     @ (case tf of JStr t \<Rightarrow> [Tok TTf (CHR ''@'' # t)] | _ \<Rightarrow> [])"

fun ptoks :: "node \<Rightarrow> tok list" where
  "ptoks (NNum v) = num_toks v"
| "ptoks (NStr s) = [Tok TStr (str_text s)]"
| "ptoks (NBool b) = [kwt (if b then ''TRUE'' else ''FALSE'')]"
| "ptoks (NParam s) = [Tok TParam (CHR ''$'' # s)]"
| "ptoks (NField s off tf) = Tok TName s # suffix_toks off tf"
| "ptoks (NCall s args kwargs off tf) =
     Tok TName s # opt ''('' # tjoin (opt '','') (map ptoks args @ map (\<lambda>kv. Tok TName (fst kv) # opt ''='' # ptoks (snd kv)) kwargs)
       @ opt '')'' # suffix_toks off tf"
| "ptoks (NUnary op a) =
     opt ''-'' # (case a of NNum v \<Rightarrow> opt ''('' # ptoks a @ [opt '')''] | _ \<Rightarrow> wtoks 7 (prec a) (ptoks a))"
| "ptoks (NBinary op a b) = wtoks (op_prec op) (prec a) (ptoks a) @ opt op # wtoks (op_prec op + 1) (prec b) (ptoks b)"
| "ptoks (NCompare op a b) = wtoks 5 (prec a) (ptoks a) @ opt op # wtoks 5 (prec b) (ptoks b)"
| "ptoks (NBetween v a b) =
     wtoks 5 (prec v) (ptoks v) @ kwt ''BETWEEN'' # wtoks 5 (prec a) (ptoks a) @ kwt ''AND'' # wtoks 5 (prec b) (ptoks b)"
| "ptoks (NIn v items) = wtoks 5 (prec v) (ptoks v) @ kwt ''IN'' # opt ''('' # tjoin (opt '','') (map ptoks items) @ [opt '')'']"
| "ptoks (NLogic op items) =
     tjoin (kwt (if op = ''ANY'' then ''OR'' else ''AND''))
       (map (\<lambda>i. wtoks ((if op = ''ANY'' then 1 else 2) + 1) (prec i) (ptoks i)) items)"
| "ptoks (NNot a) = kwt ''NOT'' # wtoks 3 (prec a) (ptoks a)"

section \<open>Tokens without positions\<close>

function lexk :: "string \<Rightarrow> tok list option" where
  "lexk s =
     (if s = [] then Some [Tok TEof []]
      else case lex_one s of
        None \<Rightarrow> None
      | Some (t, rest) \<Rightarrow> map_option (case t of None \<Rightarrow> id | Some tk \<Rightarrow> Cons tk) (lexk rest))"
  by pat_completeness auto
termination by (relation "measure length") (auto dest: lex_one_shorter)

declare lexk.simps [simp del]

lemma lexk_Nil [simp]: "lexk [] = Some [Tok TEof []]"
  by (simp add: lexk.simps)

lemma lex_lexk: "lexk s = Some ts \<Longrightarrow> \<exists>tps. lex i s = Inr tps \<and> map fst tps = ts"
proof (induction s arbitrary: i ts rule: lexk.induct)
  case (1 s)
  show ?case
  proof (cases "s = []")
    case False
    then obtain t rest us where l: "lex_one s = Some (t, rest)" "lexk rest = Some us"
      "ts = (case t of None \<Rightarrow> id | Some tk \<Rightarrow> Cons tk) us"
      using 1(2) by (auto simp: lexk.simps [of s] split: option.splits)
    obtain tps where "lex (i + (length s - length rest)) rest = Inr tps" "map fst tps = us"
      using 1(1) [OF False l(1) refl l(2)] by blast
    then show ?thesis using False l by (subst lex.simps) (auto split: option.split)
  qed (use 1(2) in \<open>simp add: lexk.simps lex.simps\<close>)
qed

lemma lexk_step: "s \<noteq> [] \<Longrightarrow> lex_one s = Some (Some tk, rest) \<Longrightarrow> lexk rest = Some us \<Longrightarrow> lexk s = Some (tk # us)"
  by (subst lexk.simps) simp

lemma lexk_space: "lexk rest = Some us \<Longrightarrow> rest \<noteq> [] \<Longrightarrow> \<not> is_space (hd rest) \<Longrightarrow> lexk (CHR '' '' # rest) = Some us"
proof -
  assume a: "lexk rest = Some us" "rest \<noteq> []" "\<not> is_space (hd rest)"
  then have "dropWhile is_space rest = rest" by (cases rest) auto
  then have "lex_one (CHR '' '' # rest) = Some (None, rest)" by (simp add: lex_one_def is_space_def)
  then show ?thesis using a(1) by (subst lexk.simps) simp
qed

section \<open>One token at the front of a text\<close>

text \<open>What may follow a token of the canonical text: the end or one of these characters.\<close>

definition brk :: "string \<Rightarrow> bool" where
  "brk rest = (rest = [] \<or> hd rest \<in> set '' ,()[]@='')"

lemma brk_simps [simp]: "brk []" "brk (CHR '' '' # s)" "brk (CHR '','' # s)" "brk (CHR ''('' # s)" "brk (CHR '')'' # s)"
  "brk (CHR ''['' # s)" "brk (CHR '']'' # s)" "brk (CHR ''@'' # s)" "brk (CHR ''='' # s)"
  by (simp_all add: brk_def)

lemma brk_not_ident: "brk rest \<Longrightarrow> rest = [] \<or> \<not> ident_char (hd rest)"
  by (cases rest) (auto simp: brk_def ident_char_def is_alpha_def is_digit_def)

lemma brk_num_stop: "brk rest \<Longrightarrow> num_stop rest"
  by (cases rest) (auto simp: brk_def num_stop_def is_digit_def)

lemma take_ident:
  assumes "list_all ident_char s" "brk rest"
  shows "takeWhile ident_char (s @ rest) = s" "ident_end (s @ rest) = rest"
proof -
  have "takeWhile ident_char rest = []" "dropWhile ident_char rest = rest" using brk_not_ident [OF assms(2)] by (cases rest; simp)+
  then show "takeWhile ident_char (s @ rest) = s" "ident_end (s @ rest) = rest"
    using assms(1) by (simp_all add: list_all_iff takeWhile_append2 dropWhile_append2 ident_end_def)
qed

lemma ident_start_simps:
  assumes "ident_start c"
  shows "\<not> is_space c" "\<not> is_digit c" "c \<noteq> CHR 0x22" "c \<noteq> CHR ''$'' " "c \<noteq> CHR ''@''" "ident_char c"
proof -
  have "c \<noteq> d" if "\<not> ident_start d" for d using assms that by auto
  then show "c \<noteq> CHR 0x22" "c \<noteq> CHR ''$''" "c \<noteq> CHR ''@''" by (simp_all add: ident_start_def is_alpha_def)
  show "\<not> is_space c" "\<not> is_digit c" "ident_char c"
    using assms by (auto simp: ident_start_def ident_char_def is_alpha_def is_space_def is_digit_def Let_def)
qed

lemma lex_name:
  assumes "name_ok s" "brk rest" "lexk rest = Some us"
  shows "lexk (s @ rest) = Some (Tok TName s # us)"
proof (rule lexk_step [OF _ _ assms(3)])
  obtain c cs where s: "s = c # cs" "ident_start c" "list_all ident_char s"
    using assms(1) by (cases s) (auto simp: name_ok_def ident_def)
  show "s @ rest \<noteq> []" using s by simp
  show "lex_one (s @ rest) = Some (Some (Tok TName s), rest)"
    using ident_start_simps [OF s(2)] take_ident [OF s(3) assms(2)] assms(1) s(1,2)
    by (simp add: lex_one_def name_tok_def name_ok_def)
qed

lemma lex_kw:
  assumes "s \<in> set KEYWORDS" "brk rest" "lexk rest = Some us"
  shows "lexk (s @ rest) = Some (Tok TKw s # us)"
proof (rule lexk_step [OF _ _ assms(3)])
  have u: "py_upper s = s" "s \<noteq> []" "ident_start (hd s)" "list_all ident_char s"
    using assms(1) by (auto simp: KEYWORDS_def py_upper_def char_upper_def ident_start_def ident_char_def is_alpha_def)
  then obtain c cs where s: "s = c # cs" "ident_start c" by (cases s) auto
  show "s @ rest \<noteq> []" using s by simp
  show "lex_one (s @ rest) = Some (Some (Tok TKw s), rest)"
    using ident_start_simps [OF s(2)] take_ident [OF u(4) assms(2)] assms(1) u(1) s
    by (simp add: lex_one_def name_tok_def)
qed

lemma lex_param:
  assumes "ident s" "brk rest" "lexk rest = Some us"
  shows "lexk ((CHR ''$'' # s) @ rest) = Some (Tok TParam (CHR ''$'' # s) # us)"
proof (rule lexk_step [OF _ _ assms(3)])
  have s: "s \<noteq> []" "ident_start (hd s)" "list_all ident_char s" using assms(1) by (auto simp: ident_def)
  show "(CHR ''$'' # s) @ rest \<noteq> []" by simp
  show "lex_one ((CHR ''$'' # s) @ rest) = Some (Some (Tok TParam (CHR ''$'' # s)), rest)"
    using take_ident [OF s(3) assms(2)] s by (simp add: lex_one_def is_space_def is_digit_def)
qed

lemma lex_tf:
  assumes "t \<in> set TIMEFRAMES" "brk rest" "lexk rest = Some us"
  shows "lexk ((CHR ''@'' # t) @ rest) = Some (Tok TTf (CHR ''@'' # t) # us)"
proof (rule lexk_step [OF _ _ assms(3)])
  have s: "list_all ident_char t" using assms(1) by (auto simp: TIMEFRAMES_def ident_char_def is_alpha_def is_digit_def)
  show "(CHR ''@'' # t) @ rest \<noteq> []" by simp
  show "lex_one ((CHR ''@'' # t) @ rest) = Some (Some (Tok TTf (CHR ''@'' # t)), rest)"
    using take_ident [OF s assms(2)] assms(1)
    by (simp add: lex_one_def is_space_def is_digit_def ident_start_def is_alpha_def)
qed

lemma lex_op:
  assumes "c \<in> set ''+-*/(),[]''" "lexk rest = Some us"
  shows "lexk (c # rest) = Some (Tok TOp [c] # us)"
proof (rule lexk_step [OF _ _ assms(2)])
  have "take 2 (c # rest) \<notin> set DOUBLE_OPS" using assms(1) by (auto simp: DOUBLE_OPS_def)
  moreover have "c \<in> set SINGLE_OPS" using assms(1) by (auto simp: SINGLE_OPS_def)
  moreover have "\<not> is_space c \<and> \<not> is_digit c \<and> \<not> ident_start c \<and> c \<noteq> CHR 0x22 \<and> c \<noteq> CHR ''$'' \<and> c \<noteq> CHR ''@''"
    using assms(1) by (auto simp: is_space_def is_digit_def ident_start_def is_alpha_def)
  ultimately show "lex_one (c # rest) = Some (Some (Tok TOp [c]), rest)" by (simp add: lex_one_def)
qed simp

lemma lex_eq:
  assumes "lexk rest = Some us" "rest = [] \<or> hd rest \<noteq> CHR ''=''"
  shows "lexk (CHR ''='' # rest) = Some (Tok TOp ''='' # us)"
proof (rule lexk_step [OF _ _ assms(1)])
  have "take 2 (CHR ''='' # rest) \<notin> set DOUBLE_OPS" using assms(2) by (cases rest) (auto simp: DOUBLE_OPS_def)
  then show "lex_one (CHR ''='' # rest) = Some (Some (Tok TOp ''=''), rest)"
    by (simp add: lex_one_def is_space_def is_digit_def ident_start_def is_alpha_def SINGLE_OPS_def)
qed simp

lemma lex_cmp:
  assumes "op \<in> set COMPARE_OPS" "lexk (CHR '' '' # rest) = Some us"
  shows "lexk (op @ CHR '' '' # rest) = Some (Tok TOp op # us)"
proof (rule lexk_step [OF _ _ assms(2)])
  show "op @ CHR '' '' # rest \<noteq> []" by simp
  show "lex_one (op @ CHR '' '' # rest) = Some (Some (Tok TOp op), CHR '' '' # rest)"
    using assms(1)
    by (auto simp: COMPARE_OPS_def lex_one_def is_space_def is_digit_def ident_start_def is_alpha_def DOUBLE_OPS_def SINGLE_OPS_def)
qed

section \<open>Numbers and quoted texts\<close>

lemma decimal_text_hd: "decimal_text t x \<Longrightarrow> t \<noteq> [] \<and> is_digit (hd t)"
  unfolding decimal_text_def num_text_def by (auto simp: list_all_iff)

lemma lex_num:
  assumes "decimal_text t x" "brk rest" "lexk rest = Some us"
  shows "lexk (t @ rest) = Some (Tok TNum t # us)"
proof (rule lexk_step [OF _ _ assms(3)])
  have h: "t \<noteq> []" "is_digit (hd t)" using decimal_text_hd [OF assms(1)] by auto
  then obtain c cs where t: "t = c # cs" by (cases t) auto
  show "t @ rest \<noteq> []" using h by simp
  obtain i f e where "num_parts (t @ rest) = (i, f, e, rest)"
    using assms(1) num_parts_text [OF _ _ brk_num_stop [OF assms(2)]] unfolding decimal_text_def by metis
  moreover have "consumed (t @ rest) rest = t" by (simp add: consumed_def)
  moreover have "\<not> is_space c" using h t by (auto simp: is_digit_def is_space_def Let_def)
  ultimately show "lex_one (t @ rest) = Some (Some (Tok TNum t), rest)"
    using h t by (simp add: lex_one_def)
qed

lemma decimal_digits: "0 \<le> n \<Longrightarrow> decimal_text (int_digits n) (of_int n)"
  unfolding decimal_text_def
  by (intro exI [of _ "int_digits n"] exI [of _ "[]"] exI [of _ None])
     (simp add: num_text_def num_value_def digits_int_digits)

lemma num_str_decimal:
  assumes "finite_num (Fin x)" "0 \<le> x"
  obtains y where "decimal_text (num_str (Fin x)) y" "fl y = x"
proof (cases "x = of_int \<lfloor>x\<rfloor> \<and> \<bar>x\<bar> < 10 ^ 15")
  case True
  then have "num_str (Fin x) = int_digits \<lfloor>x\<rfloor>" using assms(2) by (simp add: num_str_def)
  moreover have "fl (of_int \<lfloor>x\<rfloor>) = x" using True assms(1) by (simp add: finite_num_def is64_def)
  moreover have "0 \<le> \<lfloor>x\<rfloor>" using assms(2) by simp
  ultimately show ?thesis using that [of "of_int \<lfloor>x\<rfloor>"] decimal_digits [of "\<lfloor>x\<rfloor>"] by simp
next
  case False
  then have x: "x \<noteq> 0" by auto
  then have "num_str (Fin x) = repr_pos x" using False assms(2) by (auto simp: num_str_def py_repr_def)
  then show ?thesis using repr_pos_text [of x] assms x that by (auto simp: finite_num_def)
qed

lemma num_str_reads:
  assumes "finite_num (Fin x)" "0 \<le> x"
  shows "float_of_text (num_str (Fin x)) = Fin x"
proof -
  obtain y where y: "decimal_text (num_str (Fin x)) y" "fl y = x" using num_str_decimal [OF assms] .
  from y(1) obtain i f e where t: "num_str (Fin x) = num_text i f e" "list_all is_digit i" "list_all is_digit f"
    "num_value i f (case e of None \<Rightarrow> 0 | Some n \<Rightarrow> n) = y" unfolding decimal_text_def by blast
  have "num_parts (num_text i f e @ []) = (i, f, case e of None \<Rightarrow> 0 | Some n \<Rightarrow> n, [])"
    using t by (intro num_parts_text) (simp_all add: num_stop_def)
  moreover have "pynum_of y = Fin x"
    using y(2) assms by (auto simp: pynum_of_def finite_num_def)
  ultimately show ?thesis using t by (simp add: float_of_text_def)
qed

lemma num_str_neg:
  assumes "x < 0"
  shows "num_str (Fin x) = CHR ''-'' # num_str (Fin (- x))"
proof (cases "x = of_int \<lfloor>x\<rfloor>")
  case True
  then have f: "\<lfloor>- x\<rfloor> = - \<lfloor>x\<rfloor>" by (metis floor_of_int of_int_minus)
  have "- x = of_int (- \<lfloor>x\<rfloor>)" using True by simp
  then show ?thesis using True assms f by (simp only: num_str_def py_repr_def pynum.case f) auto
next
  case False
  have "- x \<noteq> of_int \<lfloor>- x\<rfloor>"
  proof
    assume "- x = of_int \<lfloor>- x\<rfloor>"
    then have "x = of_int (- \<lfloor>- x\<rfloor>)" by simp
    then show False using False by (metis floor_of_int)
  qed
  then show ?thesis using False assms by (auto simp: num_str_def py_repr_def)
qed

lemma lex_num_node:
  assumes "finite_num v" "brk rest" "lexk rest = Some us"
  shows "lexk (num_str v @ rest) = Some (num_toks v @ us)"
proof -
  obtain x where v: "v = Fin x" using assms(1) by (cases v) (auto simp: finite_num_def)
  show ?thesis
  proof (cases "x < 0")
    case True
    have "finite_num (Fin (- x))" using assms(1) v by (simp add: finite_num_def)
    then obtain y where "decimal_text (num_str (Fin (- x))) y" using num_str_decimal [of "- x"] True by auto
    then have "lexk (num_str (Fin (- x)) @ rest) = Some (Tok TNum (num_str (Fin (- x))) # us)"
      using lex_num assms(2,3) by blast
    then show ?thesis using True lex_op [of "CHR ''-''"] by (simp add: v num_toks_def num_str_neg)
  next
    case False
    then obtain y where "decimal_text (num_str v) y" using num_str_decimal [of x] assms(1) v by auto
    then show ?thesis using False lex_num [of "num_str v" y rest us] assms(2,3) by (simp add: v num_toks_def)
  qed
qed

lemma str_body_quote: "str_body (concat (map quote_char s) @ CHR 0x22 # rest) = Some (concat (map quote_char s) @ [CHR 0x22], rest)"
  by (induction s) (auto simp: quote_char_def)

lemma unescape_quote: "unescape (concat (map quote_char s)) = s"
proof (induction s)
  case (Cons c s)
  have "unescape (c # t) = c # unescape t" if "c \<noteq> CHR 0x5C" for t using that by (cases t) auto
  then show ?case using Cons by (auto simp: quote_char_def)
qed simp

lemma lex_str:
  assumes "lexk rest = Some us"
  shows "lexk (str_text s @ rest) = Some (Tok TStr (str_text s) # us)"
proof (rule lexk_step [OF _ _ assms])
  show "str_text s @ rest \<noteq> []" by (simp add: str_text_def)
  show "lex_one (str_text s @ rest) = Some (Some (Tok TStr (str_text s)), rest)"
    by (simp add: lex_one_def str_text_def is_space_def is_digit_def str_body_quote)
qed

lemma show_nat_int_digits: "show_nat n = int_digits (int n)"
proof (induction n rule: show_nat.induct)
  case (1 n)
  then show ?case by (subst show_nat.simps, subst int_digits.simps) (auto simp: nat_mod_distrib zdiv_int)
qed

lemma show_int_digits: "0 \<le> n \<Longrightarrow> show_int n = int_digits n"
  by (simp add: show_int_def show_nat_int_digits)

section \<open>The canonical text is read as its tokens\<close>

lemma lex_suffix:
  assumes "suffix_ok off tf" "brk rest" "lexk rest = Some us"
  shows "lexk (suffix_text off tf @ rest) = Some (suffix_toks off tf @ us) \<and> brk (suffix_text off tf @ rest)"
proof -
  let ?t = "if json_truthy tf then ''@'' @ py_str tf else []"
  have tf: "lexk (?t @ rest) = Some ((case tf of JStr t \<Rightarrow> [Tok TTf (CHR ''@'' # t)] | _ \<Rightarrow> []) @ us)" "brk (?t @ rest)"
  proof -
    consider "tf = JNull" | t where "tf = JStr t" "t \<in> set TIMEFRAMES" using assms(1) by (auto simp: suffix_ok_def)
    then show "lexk (?t @ rest) = Some ((case tf of JStr t \<Rightarrow> [Tok TTf (CHR ''@'' # t)] | _ \<Rightarrow> []) @ us)" "brk (?t @ rest)"
      using lex_tf [OF _ assms(2,3)] assms(2,3) by (cases, auto simp: py_str_def TIMEFRAMES_def)+
  qed
  show ?thesis
  proof (cases "off = 0")
    case True
    then show ?thesis using tf by (simp add: suffix_text_def suffix_toks_def)
  next
    case False
    have d: "decimal_text (show_int off) (of_int off)"
      using assms(1) decimal_digits [of off] by (simp add: suffix_ok_def show_int_digits)
    have "lexk (CHR '']'' # ?t @ rest) = Some (opt '']'' # (case tf of JStr t \<Rightarrow> [Tok TTf (CHR ''@'' # t)] | _ \<Rightarrow> []) @ us)"
      using tf(1) by (intro lex_op) simp_all
    then have "lexk (show_int off @ CHR '']'' # ?t @ rest)
        = Some (Tok TNum (show_int off) # opt '']'' # (case tf of JStr t \<Rightarrow> [Tok TTf (CHR ''@'' # t)] | _ \<Rightarrow> []) @ us)"
      by (intro lex_num [OF d]) simp_all
    then have "lexk (CHR ''['' # show_int off @ CHR '']'' # ?t @ rest) = Some (opt ''['' #
        Tok TNum (show_int off) # opt '']'' # (case tf of JStr t \<Rightarrow> [Tok TTf (CHR ''@'' # t)] | _ \<Rightarrow> []) @ us)"
      by (intro lex_op) simp_all
    then show ?thesis using False by (simp add: suffix_text_def suffix_toks_def)
  qed
qed

text \<open>\<open>lexes s ts\<close>: the text \<open>s\<close>, followed by anything that ends a token, is read as the tokens \<open>ts\<close>.\<close>

definition lexes :: "string \<Rightarrow> tok list \<Rightarrow> bool" where
  "lexes s ts = ((s \<noteq> [] \<and> \<not> is_space (hd s) \<and> hd s \<noteq> CHR ''='')
     \<and> (\<forall>rest us. brk rest \<longrightarrow> lexk rest = Some us \<longrightarrow> lexk (s @ rest) = Some (ts @ us)))"

lemma lexesD: "lexes s ts \<Longrightarrow> brk rest \<Longrightarrow> lexk rest = Some us \<Longrightarrow> lexk (s @ rest) = Some (ts @ us)"
  by (simp add: lexes_def)

lemma lexesI:
  assumes "s \<noteq> []" "\<not> is_space (hd s)" "hd s \<noteq> CHR ''=''"
    and "\<And>rest us. brk rest \<Longrightarrow> lexk rest = Some us \<Longrightarrow> lexk (s @ rest) = Some (ts @ us)"
  shows "lexes s ts"
  using assms by (simp add: lexes_def)

lemma lexes_hd: "lexes s ts \<Longrightarrow> s \<noteq> [] \<and> \<not> is_space (hd s) \<and> hd s \<noteq> CHR ''=''"
  by (simp add: lexes_def)

text \<open>A space before a text, a word between two texts.\<close>

lemma lex_spaced:
  assumes "lexes s ts" "brk rest" "lexk rest = Some us"
  shows "lexk (CHR '' '' # s @ rest) = Some (ts @ us)"
  using assms lexes_hd [OF assms(1)] by (intro lexk_space lexesD) (auto simp: hd_append)

lemma lexes_infix:
  assumes "lexes s ts" "lexes t us"
    and word: "\<And>rest vs. lexk (CHR '' '' # rest) = Some vs \<Longrightarrow> lexk (w @ CHR '' '' # rest) = Some (k # vs)"
    and w: "w \<noteq> []" "\<not> is_space (hd w)"
  shows "lexes (s @ '' '' @ w @ '' '' @ t) (ts @ k # us)"
proof (rule lexesI)
  fix rest vs assume r: "brk rest" "lexk rest = Some vs"
  have "lexk (w @ CHR '' '' # t @ rest) = Some (k # us @ vs)" using word [OF lex_spaced [OF assms(2) r]] by simp
  then have "lexk (CHR '' '' # w @ CHR '' '' # t @ rest) = Some (k # us @ vs)" using w by (intro lexk_space) (auto simp: hd_append)
  then show "lexk ((s @ '' '' @ w @ '' '' @ t) @ rest) = Some ((ts @ k # us) @ vs)"
    using lexesD [OF assms(1), of "CHR '' '' # w @ CHR '' '' # t @ rest"] by simp
qed (use lexes_hd [OF assms(1)] in \<open>auto simp: hd_append\<close>)

lemma lexes_paren:
  assumes "lexes s ts"
  shows "lexes (''('' @ s @ '')'') (opt ''('' # ts @ [opt '')''])"
proof (rule lexesI)
  fix rest vs assume r: "brk rest" "lexk rest = Some vs"
  have "lexk (s @ CHR '')'' # rest) = Some (ts @ opt '')'' # vs)"
    using r by (intro lexesD [OF assms] lex_op) auto
  then show "lexk ((''('' @ s @ '')'') @ rest) = Some ((opt ''('' # ts @ [opt '')'']) @ vs)"
    by (simp add: lex_op)
qed (simp_all add: is_space_def)

lemma lexes_wrap: "lexes s ts \<Longrightarrow> lexes (wrap m p s) (wtoks m p ts)"
  using lexes_paren by (simp add: wrap_def wtoks_def)

lemma word_kw:
  "s \<in> set KEYWORDS \<Longrightarrow> lexk (CHR '' '' # rest) = Some vs \<Longrightarrow> lexk (s @ CHR '' '' # rest) = Some (kwt s # vs)"
  by (intro lex_kw) auto

lemma word_arith:
  "op \<in> set ARITH_OPS \<Longrightarrow> lexk (CHR '' '' # rest) = Some vs \<Longrightarrow> lexk (op @ CHR '' '' # rest) = Some (opt op # vs)"
  using lex_op [of "hd op"] by (auto simp: ARITH_OPS_def)

lemma lexes_words:
  assumes "list_all2 lexes ss tss" "ss \<noteq> []" "w \<in> set KEYWORDS"
  shows "lexes (join (CHR '' '' # w @ '' '') ss) (tjoin (kwt w) tss)"
  using assms
proof (induction "CHR '' '' # w @ '' ''" ss arbitrary: tss rule: join.induct)
  case (3 s t ss)
  then obtain u v us where tss: "tss = u # v # us" "lexes s u" "list_all2 lexes (t # ss) (v # us)"
    by (auto simp: list_all2_Cons1)
  have "lexes (join (CHR '' '' # w @ '' '') (t # ss)) (tjoin (kwt w) (v # us))" using 3 tss(3) by blast
  then have "lexes (s @ '' '' @ w @ '' '' @ join (CHR '' '' # w @ '' '') (t # ss)) (u @ kwt w # tjoin (kwt w) (v # us))"
    using 3(4) by (intro lexes_infix tss(2) word_kw) (auto simp: KEYWORDS_def is_space_def)
  then show ?case by (simp add: tss(1))
qed (auto simp: list_all2_Cons1)

text \<open>A comma-separated list before a closing parenthesis.\<close>

lemma lex_commas:
  assumes "list_all2 lexes ss tss" "lexk rest = Some us"
  shows "lexk (join '', '' ss @ CHR '')'' # rest) = Some (tjoin (opt '','') tss @ opt '')'' # us)"
  using assms(1)
proof (induction "'', ''" ss arbitrary: tss rule: join.induct)
  case 1
  then show ?case using assms(2) by (simp add: lex_op)
next
  case (2 s)
  then show ?case using assms(2) by (auto simp: list_all2_Cons1 lex_op intro: lexesD)
next
  case (3 s t ss)
  then obtain u v ts where tss: "tss = u # v # ts" "lexes s u" "lexes t v" "list_all2 lexes (t # ss) (v # ts)"
    by (auto simp: list_all2_Cons1)
  have "lexk (join '', '' (t # ss) @ CHR '')'' # rest) = Some (tjoin (opt '','') (v # ts) @ opt '')'' # us)" using 3 tss by blast
  moreover have "hd (join '', '' (t # ss) @ CHR '')'' # rest) = hd t"
    using lexes_hd [OF tss(3)] by (cases ss) (auto simp: hd_append)
  ultimately have "lexk (CHR '' '' # join '', '' (t # ss) @ CHR '')'' # rest) = Some (tjoin (opt '','') (v # ts) @ opt '')'' # us)"
    using lexes_hd [OF tss(3)] by (intro lexk_space) auto
  then have "lexk (CHR '','' # CHR '' '' # join '', '' (t # ss) @ CHR '')'' # rest)
      = Some (opt '','' # tjoin (opt '','') (v # ts) @ opt '')'' # us)" by (intro lex_op) simp_all
  then have "lexk (s @ CHR '','' # CHR '' '' # join '', '' (t # ss) @ CHR '')'' # rest)
      = Some (u @ opt '','' # tjoin (opt '','') (v # ts) @ opt '')'' # us)" by (intro lexesD [OF tss(2)]) simp_all
  then show ?case using tss(1) by simp
qed

lemma lexes_named:
  assumes "name_ok k" "lexes s ts"
  shows "lexes (k @ ''='' @ s) (Tok TName k # opt ''='' # ts)"
proof (rule lexesI)
  have k: "k \<noteq> []" "ident_start (hd k)" using assms(1) by (auto simp: name_ok_def ident_def)
  then show "k @ ''='' @ s \<noteq> []" "\<not> is_space (hd (k @ ''='' @ s))"
    using ident_start_simps(1) by auto
  show "hd (k @ ''='' @ s) \<noteq> CHR ''=''" using k by (auto simp: ident_start_def is_alpha_def)
  fix rest us assume r: "brk rest" "lexk rest = Some us"
  have "lexk (CHR ''='' # s @ rest) = Some (opt ''='' # ts @ us)"
    using lexesD [OF assms(2) r] lexes_hd [OF assms(2)] by (intro lex_eq) (auto simp: hd_append)
  then show "lexk ((k @ ''='' @ s) @ rest) = Some ((Tok TName k # opt ''='' # ts) @ us)"
    using lex_name [OF assms(1), of "CHR ''='' # s @ rest"] by simp
qed

lemma name_hd:
  assumes "name_ok s"
  shows "s @ t \<noteq> [] \<and> \<not> is_space (hd (s @ t)) \<and> hd (s @ t) \<noteq> CHR ''=''"
proof -
  have k: "s \<noteq> []" "ident_start (hd s)" using assms by (auto simp: name_ok_def ident_def)
  then show ?thesis using ident_start_simps(1) [OF k(2)] by (auto simp: ident_start_def is_alpha_def)
qed

lemma lexes_field: "name_ok s \<Longrightarrow> suffix_ok off tf \<Longrightarrow> lexes (s @ suffix_text off tf) (Tok TName s # suffix_toks off tf)"
  using name_hd [of s "suffix_text off tf"] lex_suffix lex_name by (intro lexesI) auto

lemma lexes_call:
  assumes "name_ok s" "suffix_ok off tf" "list_all2 lexes ss tss"
  shows "lexes (s @ ''('' @ join '', '' ss @ '')'' @ suffix_text off tf)
    (Tok TName s # opt ''('' # tjoin (opt '','') tss @ opt '')'' # suffix_toks off tf)"
proof (rule lexesI)
  fix rest us assume r: "brk rest" "lexk rest = Some us"
  have "lexk (suffix_text off tf @ rest) = Some (suffix_toks off tf @ us)" using lex_suffix [OF assms(2) r] by simp
  then have "lexk (join '', '' ss @ CHR '')'' # suffix_text off tf @ rest)
      = Some (tjoin (opt '','') tss @ opt '')'' # suffix_toks off tf @ us)" by (rule lex_commas [OF assms(3)])
  then have "lexk (CHR ''('' # join '', '' ss @ CHR '')'' # suffix_text off tf @ rest)
      = Some (opt ''('' # tjoin (opt '','') tss @ opt '')'' # suffix_toks off tf @ us)" by (intro lex_op) simp_all
  then show "lexk ((s @ ''('' @ join '', '' ss @ '')'' @ suffix_text off tf) @ rest)
      = Some ((Tok TName s # opt ''('' # tjoin (opt '','') tss @ opt '')'' # suffix_toks off tf) @ us)"
    using lex_name [OF assms(1), of "CHR ''('' # join '', '' ss @ CHR '')'' # suffix_text off tf @ rest"] by simp
qed (use name_hd [OF assms(1)] in auto)

lemma lexes_minus: "lexes s ts \<Longrightarrow> lexes (CHR ''-'' # s) (opt ''-'' # ts)"
  by (rule lexesI) (auto simp: is_space_def intro!: lex_op dest: lexesD)

lemma lexes_num: "finite_num v \<Longrightarrow> lexes (num_str v) (num_toks v)"
proof (rule lexesI)
  assume v: "finite_num v"
  then obtain x where x: "v = Fin x" by (cases v) (auto simp: finite_num_def)
  have h: "num_str v \<noteq> [] \<and> (hd (num_str v) = CHR ''-'' \<or> is_digit (hd (num_str v)))"
  proof (cases "x < 0")
    case False
    then show ?thesis using num_str_decimal [of x] decimal_text_hd v x by (metis not_less)
  qed (simp add: x num_str_neg)
  then show "num_str v \<noteq> []" "\<not> is_space (hd (num_str v))" "hd (num_str v) \<noteq> CHR ''=''"
    by (auto simp: is_digit_def is_space_def Let_def)
qed (rule lex_num_node)

lemma lexes_all2: "(\<And>x. x \<in> set xs \<Longrightarrow> lexes (f x) (g x)) \<Longrightarrow> list_all2 lexes (map f xs) (map g xs)"
  by (simp add: list_all2_conv_all_nth)

lemma lexes_in:
  assumes "lexes s ts" "list_all2 lexes ss tss"
  shows "lexes (s @ '' IN ('' @ join '', '' ss @ '')'') (ts @ kwt ''IN'' # opt ''('' # tjoin (opt '','') tss @ [opt '')''])"
proof (rule lexesI)
  fix rest us assume r: "brk rest" "lexk rest = Some us"
  have "lexk (CHR ''('' # join '', '' ss @ CHR '')'' # rest) = Some (opt ''('' # tjoin (opt '','') tss @ opt '')'' # us)"
    using lex_commas [OF assms(2) r(2)] by (intro lex_op) simp_all
  then have "lexk (CHR '' '' # CHR ''('' # join '', '' ss @ CHR '')'' # rest) = Some (opt ''('' # tjoin (opt '','') tss @ opt '')'' # us)"
    by (intro lexk_space) (simp_all add: is_space_def)
  then have "lexk (''IN'' @ CHR '' '' # CHR ''('' # join '', '' ss @ CHR '')'' # rest)
      = Some (kwt ''IN'' # opt ''('' # tjoin (opt '','') tss @ opt '')'' # us)"
    by (intro lex_kw) (simp_all add: KEYWORDS_def)
  then have "lexk (CHR '' '' # ''IN'' @ CHR '' '' # CHR ''('' # join '', '' ss @ CHR '')'' # rest)
      = Some (kwt ''IN'' # opt ''('' # tjoin (opt '','') tss @ opt '')'' # us)"
    by (intro lexk_space) (simp_all add: is_space_def)
  then show "lexk ((s @ '' IN ('' @ join '', '' ss @ '')'') @ rest)
      = Some ((ts @ kwt ''IN'' # opt ''('' # tjoin (opt '','') tss @ [opt '')'']) @ us)"
    using lexesD [OF assms(1), of "CHR '' '' # ''IN'' @ CHR '' '' # CHR ''('' # join '', '' ss @ CHR '')'' # rest"] by simp
qed (use lexes_hd [OF assms(1)] in \<open>auto simp: hd_append\<close>)

lemma lexes_kw: "s \<in> set KEYWORDS \<Longrightarrow> lexes s [kwt s]"
  by (rule lexesI) (auto simp: KEYWORDS_def is_space_def intro!: lex_kw)

lemma lexes_not: "lexes s ts \<Longrightarrow> lexes (''NOT '' @ s) (kwt ''NOT'' # ts)"
proof (rule lexesI)
  fix rest us assume r: "lexes s ts" "brk rest" "lexk rest = Some us"
  have "lexk (''NOT'' @ CHR '' '' # s @ rest) = Some (kwt ''NOT'' # ts @ us)"
    using lex_spaced [OF r] by (intro lex_kw) (simp_all add: KEYWORDS_def)
  then show "lexk ((''NOT '' @ s) @ rest) = Some ((kwt ''NOT'' # ts) @ us)" by simp
qed (simp_all add: is_space_def)

lemma lexes_node: "wf_node n \<Longrightarrow> finite_nums n \<Longrightarrow> lexes (node_text n) (ptoks n)"
proof (induction n)
  case (NCall s args kwargs off tf)
  have "list_all2 lexes (map node_text args) (map ptoks args)"
    using NCall by (intro lexes_all2) (auto simp: list_all_iff)
  moreover have "list_all2 lexes (map (\<lambda>kv. fst kv @ ''='' @ node_text (snd kv)) kwargs)
      (map (\<lambda>kv. Tok TName (fst kv) # opt ''='' # ptoks (snd kv)) kwargs)"
  proof (intro lexes_all2 lexes_named)
    fix kv assume kv: "kv \<in> set kwargs"
    then show "name_ok (fst kv)" using NCall by (auto simp: list_all_iff)
    have "snd kv \<in> Basic_BNFs.snds kv" by (cases kv) (auto simp: snds.simps)
    then show "lexes (node_text (snd kv)) (ptoks (snd kv))" using NCall kv by (auto simp: list_all_iff)
  qed
  ultimately show ?case using NCall lexes_call by (simp add: list_all2_appendI)
next
  case (NUnary op a)
  then have l: "lexes (node_text a) (ptoks a)" by simp
  show ?case
  proof (cases "\<exists>v. a = NNum v")
    case True
    then show ?thesis using lexes_minus [OF lexes_paren [OF l]] by auto
  next
    case False
    then have "node_text (NUnary op a) = CHR ''-'' # wrap 7 (prec a) (node_text a)"
      "ptoks (NUnary op a) = opt ''-'' # wtoks 7 (prec a) (ptoks a)" by (cases a; simp)+
    then show ?thesis using lexes_minus [OF lexes_wrap [OF l]] by simp
  qed
next
  case (NBinary op a b)
  then show ?case unfolding node_text.simps ptoks.simps
    by (intro lexes_infix lexes_wrap word_arith) (auto simp: ARITH_OPS_def is_space_def)
next
  case (NCompare op a b)
  then show ?case unfolding node_text.simps ptoks.simps
    by (intro lexes_infix lexes_wrap lex_cmp) (auto simp: COMPARE_OPS_def is_space_def)
next
  case (NBetween v a b)
  have "lexes (wrap 5 (prec a) (node_text a) @ '' '' @ ''AND'' @ '' '' @ wrap 5 (prec b) (node_text b))
      (wtoks 5 (prec a) (ptoks a) @ kwt ''AND'' # wtoks 5 (prec b) (ptoks b))"
    using NBetween by (intro lexes_infix lexes_wrap word_kw) (auto simp: KEYWORDS_def is_space_def)
  then have "lexes (wrap 5 (prec v) (node_text v) @ '' '' @ ''BETWEEN'' @ '' ''
        @ (wrap 5 (prec a) (node_text a) @ '' '' @ ''AND'' @ '' '' @ wrap 5 (prec b) (node_text b)))
      (wtoks 5 (prec v) (ptoks v) @ kwt ''BETWEEN'' # (wtoks 5 (prec a) (ptoks a) @ kwt ''AND'' # wtoks 5 (prec b) (ptoks b)))"
    using NBetween by (intro lexes_infix lexes_wrap word_kw) (auto simp: KEYWORDS_def is_space_def)
  then show ?case by simp
next
  case (NIn v items)
  have "list_all2 lexes (map node_text items) (map ptoks items)"
    using NIn by (intro lexes_all2) (auto simp: list_all_iff)
  then show ?case using NIn lexes_in lexes_wrap by simp
next
  case (NLogic op items)
  let ?m = "(if op = ''ANY'' then 1 else 2) + 1 :: nat"
  have "list_all2 lexes (map (\<lambda>i. wrap ?m (prec i) (node_text i)) items) (map (\<lambda>i. wtoks ?m (prec i) (ptoks i)) items)"
    using NLogic by (intro lexes_all2 lexes_wrap) (auto simp: list_all_iff)
  then have "lexes (join (CHR '' '' # (if op = ''ANY'' then ''OR'' else ''AND'') @ '' '') (map (\<lambda>i. wrap ?m (prec i) (node_text i)) items))
      (tjoin (kwt (if op = ''ANY'' then ''OR'' else ''AND'')) (map (\<lambda>i. wtoks ?m (prec i) (ptoks i)) items))"
    using NLogic by (intro lexes_words) (auto simp: KEYWORDS_def)
  then show ?case by (cases "op = ''ANY''") simp_all
next
  case (NNot a)
  then show ?case using lexes_not lexes_wrap by simp
next
  case (NParam s)
  then show ?case using lex_param by (intro lexesI) (auto simp: is_space_def)
next
  case (NStr s)
  then show ?case using lex_str by (intro lexesI) (auto simp: str_text_def is_space_def)
qed (use lexes_num lexes_field lexes_kw in \<open>auto simp: KEYWORDS_def\<close>)

end
