(* ===== verification/ScreenRound.thy ===== *)
theory ScreenRound
  imports ScreenLex
begin

text \<open>
  The round trip of ScreenQL: parsing the canonical text of a well-formed tree gives the tree back.
  The parser functions are arranged by level (2 conjunction, 3 negation, 4 comparison, 5 sum,
  6 product, 7 sign, 8 value with suffixes); a tree of a level is read by the parser of that level
  and, when no operator of a lower level follows, by every parser below it.
\<close>

section \<open>Levels\<close>

definition lev :: "nat \<Rightarrow> nat \<Rightarrow> tok list \<Rightarrow> node parsed" where
  "lev p = (if p \<le> 2 then and_expr else if p = 3 then not_expr else if p = 4 then comparison else if p = 5 then additive
     else if p = 6 then tterm else if p = 7 then unary else postfix)"

definition tlevel :: "tok \<Rightarrow> nat" where
  "tlevel t = (case tk_kind t of
      TKw \<Rightarrow> if tk_text t = ''OR'' then 1 else if tk_text t = ''AND'' then 2
             else if tk_text t \<in> {''BETWEEN'', ''IN''} then 4 else 0
    | TOp \<Rightarrow> if tk_text t \<in> set COMPARE_OPS then 4 else if tk_text t \<in> {''+'', ''-''} then 5
             else if tk_text t \<in> {''*'', ''/''} then 6 else if tk_text t = ''['' then 8
             else if tk_text t \<in> {''('', ''=''} then 9 else 0
    | TTf \<Rightarrow> 8
    | _ \<Rightarrow> 0)"

definition follow :: "nat \<Rightarrow> tok list \<Rightarrow> bool" where
  "follow p rest = (case rest of [] \<Rightarrow> False | t # _ \<Rightarrow> tlevel t < p)"

lemma follow_Cons [simp]: "follow p (t # ts) = (tlevel t < p)"
  by (simp add: follow_def)

lemma follow_mono: "follow p rest \<Longrightarrow> p \<le> q \<Longrightarrow> follow q rest"
  by (cases rest) (auto simp: follow_def)

lemma follow_ne: "follow p rest \<Longrightarrow> rest \<noteq> []"
  by (auto simp: follow_def)

definition level_ops :: "nat \<Rightarrow> string list" where
  "level_ops q = (if q = 5 then [''+'', ''-''] else [''*'', ''/''])"

lemma is_tok_tlevel: "is_tok k x ts \<Longrightarrow> follow p ts \<Longrightarrow> tlevel (Tok k x) < p"
  by (cases ts) (auto simp: is_tok_def)

lemma not_tok: "follow p ts \<Longrightarrow> p \<le> tlevel (Tok k x) \<Longrightarrow> \<not> is_tok k x ts"
  using is_tok_tlevel by fastforce

lemma cur_Cons [simp]: "cur_text (t # ts) = tk_text t" "is_kind k (t # ts) = (tk_kind t = k)" "is_tok k x (t # ts) = (t = Tok k x)"
  by (simp_all add: cur_text_def is_kind_def is_tok_def)

lemma cur_Nil [simp]: "\<not> is_kind k []" "\<not> is_tok k x []" "\<not> follow p []"
  by (simp_all add: is_kind_def is_tok_def follow_def)

lemma not_level_op:
  assumes "follow q ts" "q = 5 \<or> q = 6"
  shows "\<not> (is_kind TOp ts \<and> cur_text ts \<in> set (level_ops q))"
proof
  assume a: "is_kind TOp ts \<and> cur_text ts \<in> set (level_ops q)"
  then obtain t r where ts: "ts = t # r" "tk_kind t = TOp" "tk_text t \<in> set (level_ops q)" by (cases ts) (auto simp: is_kind_def)
  then have "tlevel t = q" using assms(2) by (auto simp: tlevel_def level_ops_def COMPARE_OPS_def)
  then show False using assms(1) ts by simp
qed

lemma lev_binary: "q = 5 \<or> q = 6 \<Longrightarrow> lev q d ts = rbind (lev (q + 1) d ts) (\<lambda>(a, r). binary_loop (length r) (lev (q + 1) d) (level_ops q) a r)"
  by (auto simp: lev_def additive.simps [of d ts] tterm.simps [of d ts] level_ops_def)

lemma binary_loop_stop: "follow q ts \<Longrightarrow> q = 5 \<or> q = 6 \<Longrightarrow> binary_loop m p (level_ops q) a ts = Inr (a, ts)"
  using not_level_op by (subst binary_loop.simps) (simp only: if_False)

text \<open>A parser of one level accepts what the next level accepts, unless its own operator is there.\<close>

lemma lift_level:
  assumes "lev (p + 1) d ts = Inr (n, rest)" "follow p rest" "2 \<le> p" "p \<le> 7"
    "p = 3 \<longrightarrow> \<not> is_tok TKw ''NOT'' ts" "p = 7 \<longrightarrow> \<not> is_tok TOp ''-'' ts"
  shows "lev p d ts = Inr (n, rest)"
proof -
  consider "p = 2" | "p = 3" | "p = 4" | "p = 5 \<or> p = 6" | "p = 7" using assms(3,4) by linarith
  then show ?thesis
  proof cases
    case 1
    have "\<not> is_tok TKw ''AND'' rest" using assms(2) 1 by (intro not_tok) (auto simp: tlevel_def)
    then show ?thesis using assms(1) 1
      by (simp add: lev_def and_expr.simps items_of_def items_loop.simps map_fst_res_def group_of_def)
  next
    case 2
    then show ?thesis using assms(1,5) by (simp add: lev_def not_expr.simps)
  next
    case 3
    have "\<not> (is_kind TOp rest \<and> cur_text rest \<in> set COMPARE_OPS)"
      using assms(2) 3 by (cases rest) (auto simp: tlevel_def)
    moreover have "\<not> is_tok TKw ''BETWEEN'' rest" "\<not> is_tok TKw ''IN'' rest"
      using assms(2) 3 not_tok [of 4 rest TKw "''BETWEEN''"] not_tok [of 4 rest TKw "''IN''"] by (simp_all add: tlevel_def)
    moreover have "additive d ts = Inr (n, rest)" using assms(1) 3 by (simp add: lev_def)
    ultimately show ?thesis using 3 unfolding lev_def by (auto simp: comparison.simps)
  next
    case 4
    then show ?thesis using assms(1) binary_loop_stop [OF assms(2) 4] by (simp add: lev_binary)
  next
    case 5
    then show ?thesis using assms(1,6) by (simp add: lev_def unary.simps)
  qed
qed

lemma lift_levels:
  assumes "lev q d ts = Inr (n, rest)" "follow p rest" "2 \<le> p" "p \<le> q" "q \<le> 8"
    "p \<le> 3 \<longrightarrow> 3 < q \<longrightarrow> \<not> is_tok TKw ''NOT'' ts" "p \<le> 7 \<longrightarrow> 7 < q \<longrightarrow> \<not> is_tok TOp ''-'' ts"
  shows "lev p d ts = Inr (n, rest)"
  using assms
proof (induction "q - p" arbitrary: q)
  case (Suc k)
  define q' where "q' = q - 1"
  have q: "q = q' + 1" "p \<le> q'" "q' \<le> 7" "k = q' - p" using Suc.hyps(2) Suc.prems(5) by (auto simp: q'_def)
  have "lev q' d ts = Inr (n, rest)"
  proof (rule lift_level)
    show "lev (q' + 1) d ts = Inr (n, rest)" using Suc.prems(1) q(1) by simp
    show "follow q' rest" using follow_mono [OF Suc.prems(2)] q(2) by simp
    show "2 \<le> q'" "q' \<le> 7" using Suc.prems(3) q by simp_all
    show "q' = 3 \<longrightarrow> \<not> is_tok TKw ''NOT'' ts" using Suc.prems(6) q by simp
    show "q' = 7 \<longrightarrow> \<not> is_tok TOp ''-'' ts" using Suc.prems(7) q by simp
  qed
  then show ?case
  proof (rule Suc.hyps(1) [OF q(4)])
    show "p \<le> 3 \<longrightarrow> 3 < q' \<longrightarrow> \<not> is_tok TKw ''NOT'' ts" using Suc.prems(6) q(1) by simp
    show "p \<le> 7 \<longrightarrow> 7 < q' \<longrightarrow> \<not> is_tok TOp ''-'' ts" using Suc.prems(7) q(1) by simp
  qed (use Suc.prems q in simp_all)
qed simp

lemma or_of_and:
  assumes "and_expr d ts = Inr (n, rest)" "follow 1 rest"
  shows "or_expr (Suc d) ts = Inr (n, rest)"
proof -
  have "\<not> is_tok TKw ''OR'' rest" using assms(2) by (intro not_tok) (auto simp: tlevel_def)
  then show ?thesis using assms(1)
    by (simp add: or_expr.simps items_of_def items_loop.simps map_fst_res_def group_of_def)
qed

section \<open>Loops\<close>

definition parses :: "(tok list \<Rightarrow> 'a parsed) \<Rightarrow> nat \<Rightarrow> tok list \<Rightarrow> 'a \<Rightarrow> bool" where
  "parses P p ts x = (\<forall>rest. follow p rest \<longrightarrow> P (ts @ rest) = Inr (x, rest))"

lemma parsesD: "parses P p ts x \<Longrightarrow> follow p rest \<Longrightarrow> P (ts @ rest) = Inr (x, rest)"
  by (simp add: parses_def)

lemma items_loop_all:
  assumes "\<And>x. x \<in> set xs \<Longrightarrow> parses P p (f x) x" "tlevel (Tok k w) < p" "follow p rest" "\<not> is_tok k w rest"
    "length xs \<le> m"
  shows "items_loop m P (is_tok k w) acc (concat (map (\<lambda>x. Tok k w # f x) xs) @ rest) = Inr (acc @ xs, rest)"
  using assms(1,5)
proof (induction xs arbitrary: acc m)
  case Nil
  then show ?case using assms(4) by (subst items_loop.simps) simp
next
  case (Cons x xs)
  then obtain m' where m: "m = Suc m'" by (cases m) auto
  let ?r = "concat (map (\<lambda>x. Tok k w # f x) xs) @ rest"
  have "follow p ?r" using assms(2,3) by (cases xs) auto
  then have "P (f x @ ?r) = Inr (x, ?r)" using Cons.prems(1) by (intro parsesD) auto
  moreover have "items_loop m' P (is_tok k w) (acc @ [x]) ?r = Inr ((acc @ [x]) @ xs, rest)"
    using Cons m by (intro Cons.IH) auto
  ultimately show ?case by (subst items_loop.simps) (simp add: m)
qed

lemma tjoin_concat: "xs \<noteq> [] \<Longrightarrow> tjoin sep (map f xs) = f (hd xs) @ concat (map (\<lambda>x. sep # f x) (tl xs))"
proof (induction sep "map f xs" arbitrary: xs rule: tjoin.induct)
  case (3 sep t u ts)
  then obtain x y zs where "xs = x # y # zs" by (metis map_eq_Cons_D)
  then show ?case using 3(1) [of "y # zs"] 3(2) by simp
qed auto

lemma items_of_all:
  assumes "\<And>x. x \<in> set xs \<Longrightarrow> parses P p (f x) x" "tlevel (Tok k w) < p" "follow p rest" "\<not> is_tok k w rest" "xs \<noteq> []"
  shows "items_of P (is_tok k w) (tjoin (Tok k w) (map f xs) @ rest) = Inr (xs, rest)"
proof -
  let ?r = "concat (map (\<lambda>x. Tok k w # f x) (tl xs)) @ rest"
  have xs: "xs = hd xs # tl xs" using assms(5) by simp
  have "follow p ?r" using assms(2,3) by (cases "tl xs") auto
  then have "P (f (hd xs) @ ?r) = Inr (hd xs, ?r)" using assms(1) [of "hd xs"] assms(5) by (intro parsesD) auto
  moreover have "items_loop (length ?r) P (is_tok k w) [hd xs] ?r = Inr ([hd xs] @ tl xs, rest)"
  proof (rule items_loop_all)
    show "parses P p (f x) x" if "x \<in> set (tl xs)" for x using that assms(1,5) by (simp add: list.set_sel(2))
    have "length ys \<le> length (concat (map (\<lambda>x. Tok k w # f x) ys))" for ys by (induction ys) auto
    then show "length (tl xs) \<le> length ?r" using trans_le_add1 by (metis length_append)
  qed (use assms in auto)
  ultimately show ?thesis using xs by (simp add: items_of_def tjoin_concat [OF assms(5)])
qed

section \<open>Suffixes\<close>

lemma int_digits_short: "0 \<le> n \<Longrightarrow> n \<le> 9999 \<Longrightarrow> length (int_digits n) \<le> 4"
proof -
  assume n: "0 \<le> n" "n \<le> 9999"
  have 1: "length (int_digits k) \<le> 1" if "k \<le> 9" for k using that by (subst int_digits.simps) simp
  have 2: "length (int_digits k) \<le> 2" if "k \<le> 99" for k
    using that 1 [of "k div 10"] by (subst int_digits.simps) simp
  have 3: "length (int_digits k) \<le> 3" if "k \<le> 999" for k
    using that 2 [of "k div 10"] by (subst int_digits.simps) simp
  show ?thesis using n 3 [of "n div 10"] by (subst int_digits.simps) simp
qed

lemma expect_Cons [simp]: "expect k x what (Tok k x # ts) = Inr ts"
  by (simp add: expect_def)

lemma offset_suffix_reads:
  assumes "0 < off" "off \<le> 9999"
  shows "offset_suffix False (opt ''['' # Tok TNum (show_int off) # opt '']'' # rest) = Inr (off, rest)"
proof -
  have "list_all is_digit (show_int off)" "length (show_int off) \<le> 4" "digits_int (show_int off) = off"
    using assms int_digits_short [of off] by (simp_all add: show_int_digits digits_int_digits)
  then show ?thesis by (simp add: offset_suffix_def)
qed

definition set_suffix :: "int \<Rightarrow> json \<Rightarrow> node \<Rightarrow> node" where
  "set_suffix off tf n = (case n of NField s _ _ \<Rightarrow> NField s off tf | NCall s a k _ _ \<Rightarrow> NCall s a k off tf | _ \<Rightarrow> n)"

lemma suffixes_reads:
  assumes "suffix_ok off tf" "follow 8 rest" "n = NField s 0 JNull \<or> n = NCall s args kwargs 0 JNull"
  shows "suffixes (length (suffix_toks off tf @ rest)) False False n (suffix_toks off tf @ rest) = Inr (set_suffix off tf n, rest)"
proof -
  have stop: "suffixes m a b x rest = Inr (x, rest)" for m a b x
    using assms(2) by (cases rest; subst suffixes.simps) (auto simp: tlevel_def COMPARE_OPS_def)
  let ?tt = "case tf of JStr t \<Rightarrow> [Tok TTf (CHR ''@'' # t)] | _ \<Rightarrow> []"
  have tfs: "suffixes m a False x (?tt @ rest) = Inr (case tf of JStr t \<Rightarrow> with_tf t x | _ \<Rightarrow> x, rest)" if "0 < m" for m a x
  proof (cases "tf = JNull")
    case False
    then obtain t where "tf = JStr t" using assms(1) by (auto simp: suffix_ok_def)
    then show ?thesis using that stop by (subst suffixes.simps) (simp split: nat.split)
  qed (simp add: stop)
  have rest: "rest \<noteq> []" using assms(2) by auto
  show ?thesis
  proof (cases "off = 0")
    case True
    then show ?thesis using tfs [of "length (suffix_toks off tf @ rest)" False n] assms(1,3) rest
      by (auto simp: suffix_toks_def set_suffix_def with_tf_def suffix_ok_def)
  next
    case False
    then have off: "0 < off" "off \<le> 9999" using assms(1) by (auto simp: suffix_ok_def)
    let ?l = "length (suffix_toks off tf @ rest)"
    have "suffixes ?l False False n (suffix_toks off tf @ rest) = suffixes (?l - 1) True False (with_offset off n) (?tt @ rest)"
      using False offset_suffix_reads [OF off, of "?tt @ rest"]
      by (subst suffixes.simps) (simp add: suffix_toks_def)
    also have "\<dots> = Inr (set_suffix off tf n, rest)"
      using tfs [of "?l - 1" True "with_offset off n"] False assms(1,3) rest
      by (auto simp: suffix_toks_def set_suffix_def with_tf_def with_offset_def suffix_ok_def)
    finally show ?thesis .
  qed
qed

section \<open>Arguments of a call\<close>

definition arg_toks :: "node + string \<times> node \<Rightarrow> tok list" where
  "arg_toks a = (case a of Inl n \<Rightarrow> ptoks n | Inr (k, n) \<Rightarrow> Tok TName k # opt ''='' # ptoks n)"

definition no_kwarg :: "tok list \<Rightarrow> bool" where
  "no_kwarg ts = (\<forall>rest. \<not> is_tok TOp ''='' rest \<longrightarrow> \<not> kwarg_ahead (ts @ rest))"

lemma follow_comma [simp]: "tlevel (opt '','') = 0" "tlevel (opt '')'') = 0"
  by (simp_all add: tlevel_def COMPARE_OPS_def)

lemma kwarg_head: "kwarg_ahead (Tok TName k # opt ''='' # ts)"
  by (simp add: kwarg_ahead_def)

lemma args_loop_named:
  assumes "\<And>kv. kv \<in> set ks \<Longrightarrow> parses P 1 (ptoks (snd kv)) (snd kv)" "ks \<noteq> []" "distinct (map fst (kwargs @ ks))"
    "length ks \<le> m" "is_tok TOp '')'' rest"
  shows "args_loop m P nm args kwargs (tjoin (opt '','') (map (\<lambda>kv. Tok TName (fst kv) # opt ''='' # ptoks (snd kv)) ks) @ rest)
    = Inr ((args, kwargs @ ks), rest)"
  using assms(1-4)
proof (induction ks arbitrary: kwargs m)
  case (Cons kv ks)
  obtain m' where m: "m = Suc m'" using Cons.prems(4) by (cases m) auto
  obtain rt where rest: "rest = opt '')'' # rt" using assms(5) by (cases rest) auto
  let ?tail = "if ks = [] then rest else opt '','' # tjoin (opt '','') (map (\<lambda>kv. Tok TName (fst kv) # opt ''='' # ptoks (snd kv)) ks) @ rest"
  have split: "tjoin (opt '','') (map (\<lambda>kv. Tok TName (fst kv) # opt ''='' # ptoks (snd kv)) (kv # ks)) @ rest
      = Tok TName (fst kv) # opt ''='' # ptoks (snd kv) @ ?tail" by (cases ks) simp_all
  have "P (ptoks (snd kv) @ ?tail) = Inr (snd kv, ?tail)"
    using Cons.prems(1) [of kv] rest by (intro parsesD [of _ 1]) auto
  moreover have "fst kv \<notin> set (map fst kwargs)" using Cons.prems(3) by auto
  ultimately have step: "args_loop m P nm args kwargs (Tok TName (fst kv) # opt ''='' # ptoks (snd kv) @ ?tail)
      = (if is_tok TOp '','' ?tail then args_loop m' P nm args (kwargs @ [kv]) (tl ?tail) else Inr ((args, kwargs @ [kv]), ?tail))"
    by (subst args_loop.simps) (simp add: m kwarg_head)
  show ?case
  proof (cases "ks = []")
    case True
    then show ?thesis unfolding split step using rest by simp
  next
    case False
    have "args_loop m' P nm args (kwargs @ [kv]) (tjoin (opt '','') (map (\<lambda>kv. Tok TName (fst kv) # opt ''='' # ptoks (snd kv)) ks) @ rest)
        = Inr ((args, (kwargs @ [kv]) @ ks), rest)"
      using Cons.prems m False by (intro Cons.IH) auto
    then show ?thesis unfolding split step using False by simp
  qed
qed simp

lemma args_loop_all:
  assumes "\<And>a. a \<in> set as \<Longrightarrow> parses P 1 (ptoks a) a \<and> no_kwarg (ptoks a)"
    "\<And>kv. kv \<in> set ks \<Longrightarrow> parses P 1 (ptoks (snd kv)) (snd kv)" "distinct (map fst ks)"
    "length as + length ks \<le> m" "is_tok TOp '')'' rest" "as @ map snd ks \<noteq> []"
  shows "args_loop m P nm args []
      (tjoin (opt '','') (map ptoks as @ map (\<lambda>kv. Tok TName (fst kv) # opt ''='' # ptoks (snd kv)) ks) @ rest)
    = Inr ((args @ as, ks), rest)"
  using assms(1,4,6)
proof (induction as arbitrary: args m)
  case Nil
  then show ?case using args_loop_named [OF assms(2) _ _ _ assms(5), of ks "[]" m nm args] assms(3) by simp
next
  case (Cons a as)
  let ?k = "map (\<lambda>kv. Tok TName (fst kv) # opt ''='' # ptoks (snd kv)) ks"
  obtain m' where m: "m = Suc m'" using Cons.prems(2) by (cases m) auto
  obtain rt where rest: "rest = opt '')'' # rt" using assms(5) by (cases rest) auto
  let ?tail = "if as @ map snd ks = [] then rest else opt '','' # tjoin (opt '','') (map ptoks as @ ?k) @ rest"
  have split: "tjoin (opt '','') (map ptoks (a # as) @ ?k) @ rest = ptoks a @ ?tail"
    by (cases "map ptoks as @ ?k") auto
  have t: "follow 1 ?tail" "\<not> is_tok TOp ''='' ?tail" using rest by auto
  then have "P (ptoks a @ ?tail) = Inr (a, ?tail)" "\<not> kwarg_ahead (ptoks a @ ?tail)"
    using Cons.prems(1) [of a] parsesD [of P 1 "ptoks a" a ?tail] by (auto simp: no_kwarg_def)
  then have step: "args_loop m P nm args [] (ptoks a @ ?tail)
      = (if is_tok TOp '','' ?tail then args_loop m' P nm (args @ [a]) [] (tl ?tail) else Inr ((args @ [a], []), ?tail))"
    by (subst args_loop.simps) (simp add: m)
  show ?case
  proof (cases "as @ map snd ks = []")
    case True
    then show ?thesis unfolding split step using rest by simp
  next
    case False
    then have "args_loop m' P nm (args @ [a]) [] (tjoin (opt '','') (map ptoks as @ ?k) @ rest) = Inr (((args @ [a]) @ as, ks), rest)"
      using Cons.prems m by (intro Cons.IH) auto
    then show ?thesis unfolding split step using False by auto
  qed
qed

section \<open>The first tokens of a canonical text\<close>

text \<open>The level at which a tree's own text is read: a negative number is a sign and a number.\<close>

definition plevel :: "node \<Rightarrow> nat" where
  "plevel n = (case n of NNum (Fin x) \<Rightarrow> if x < 0 then 7 else 8 | _ \<Rightarrow> prec n)"

lemma prec_bounds: "wf_node n \<Longrightarrow> 1 \<le> prec n \<and> prec n \<le> 8"
  by (cases n) (auto simp: op_prec_def PREC_def ARITH_OPS_def)

lemma op_prec_arith: "op \<in> set ARITH_OPS \<Longrightarrow> op_prec op = 5 \<or> op_prec op = 6"
  by (auto simp: ARITH_OPS_def op_prec_def PREC_def)

lemma plevel_prec: "wf_node n \<Longrightarrow> plevel n \<le> prec n \<and> (prec n < 8 \<longrightarrow> plevel n = prec n) \<and> (7 \<le> prec n \<longrightarrow> 7 \<le> plevel n) \<and> plevel n \<le> 8"
  using prec_bounds [of n] by (cases n) (auto simp: plevel_def split: pynum.splits)

definition head_ok :: "nat \<Rightarrow> nat \<Rightarrow> tok list \<Rightarrow> bool" where
  "head_ok p q ts = (\<exists>t r. ts = t # r \<and> t \<noteq> opt '')'' \<and> (t = kwt ''NOT'' \<longrightarrow> p \<le> 3) \<and> (t = opt ''-'' \<longrightarrow> q \<le> 7))"

lemma wtoks_head:
  assumes "head_ok p q ts"
  shows "\<exists>t r. wtoks m p ts = t # r \<and> t \<noteq> opt '')'' \<and> (t = kwt ''NOT'' \<longrightarrow> m \<le> p \<and> p \<le> 3) \<and> (t = opt ''-'' \<longrightarrow> m \<le> p \<and> q \<le> 7)"
  using assms by (auto simp: head_ok_def wtoks_def)

lemma tjoin_head: "xs \<noteq> [] \<Longrightarrow> f (hd xs) = t # r \<Longrightarrow> \<exists>r'. tjoin sep (map f xs) = t # r'"
  by (simp add: tjoin_concat)

lemma head_ptoks: "wf_node n \<Longrightarrow> finite_nums n \<Longrightarrow> head_ok (prec n) (plevel n) (ptoks n)"
proof (induction n)
  case (NNum v)
  then show ?case by (cases v) (auto simp: head_ok_def num_toks_def plevel_def finite_num_def)
next
  case (NBinary op a b)
  then have "head_ok (prec a) (plevel a) (ptoks a)" by simp
  then show ?case using wtoks_head [of "prec a" "plevel a" "ptoks a" "op_prec op"] op_prec_arith [of op] NBinary.prems
    by (auto simp: head_ok_def plevel_def)
next
  case (NCompare op a b)
  then have "head_ok (prec a) (plevel a) (ptoks a)" by simp
  then show ?case using wtoks_head [of "prec a" "plevel a" "ptoks a" 5] by (auto simp: head_ok_def plevel_def)
next
  case (NBetween v a b)
  then have "head_ok (prec v) (plevel v) (ptoks v)" by simp
  then show ?case using wtoks_head [of "prec v" "plevel v" "ptoks v" 5] by (auto simp: head_ok_def plevel_def)
next
  case (NIn v items)
  then have "head_ok (prec v) (plevel v) (ptoks v)" by simp
  then show ?case using wtoks_head [of "prec v" "plevel v" "ptoks v" 5] by (auto simp: head_ok_def plevel_def)
next
  case (NLogic op items)
  let ?m = "(if op = ''ANY'' then 1 else 2) + 1 :: nat"
  have ne: "items \<noteq> []" using NLogic.prems by auto
  then have "head_ok (prec (hd items)) (plevel (hd items)) (ptoks (hd items))"
    using NLogic by (intro NLogic.IH) (auto simp: list_all_iff)
  then obtain t r where t: "wtoks ?m (prec (hd items)) (ptoks (hd items)) = t # r" "t \<noteq> opt '')''" using wtoks_head by blast
  then obtain r' where "ptoks (NLogic op items) = t # r'"
    using tjoin_head [OF ne, of "\<lambda>i. wtoks ?m (prec i) (ptoks i)" t r] by auto
  then show ?case using t(2) by (simp add: head_ok_def plevel_def)
qed (auto simp: head_ok_def plevel_def)

lemma no_kwarg_append: "no_kwarg ts \<Longrightarrow> ts \<noteq> [] \<Longrightarrow> u \<noteq> opt ''='' \<Longrightarrow> no_kwarg (ts @ u # us)"
  by (auto simp: no_kwarg_def)

lemma no_kwarg_wrap: "no_kwarg ts \<Longrightarrow> no_kwarg (wtoks m p ts)"
  by (auto simp: no_kwarg_def wtoks_def kwarg_ahead_def)

lemma no_kwarg_head: "tk_kind t \<noteq> TName \<Longrightarrow> no_kwarg (t # ts)"
  by (simp add: no_kwarg_def kwarg_ahead_def)

lemma no_kwarg_name: "(case ts of [] \<Rightarrow> True | t # _ \<Rightarrow> t \<noteq> opt ''='') \<Longrightarrow> no_kwarg (Tok TName s # ts)"
  by (cases ts) (auto simp: no_kwarg_def kwarg_ahead_def)

lemma wtoks_ne: "ts \<noteq> [] \<Longrightarrow> wtoks m p ts \<noteq> []"
  by (simp add: wtoks_def)

lemma ptoks_ne: "wf_node n \<Longrightarrow> finite_nums n \<Longrightarrow> ptoks n \<noteq> []"
  using head_ptoks [of n] by (auto simp: head_ok_def)

lemma suffix_toks_no_eq: "case suffix_toks off tf of [] \<Rightarrow> True | t # _ \<Rightarrow> t \<noteq> opt ''=''"
  by (auto simp: suffix_toks_def split: json.split)

lemma no_kwarg_ptoks: "wf_node n \<Longrightarrow> finite_nums n \<Longrightarrow> no_kwarg (ptoks n)"
proof (induction n)
  case (NNum v)
  then show ?case by (cases v) (auto simp: num_toks_def finite_num_def no_kwarg_head)
next
  case (NField s off tf)
  then show ?case by (simp add: no_kwarg_name suffix_toks_no_eq)
next
  case (NCall s args kwargs off tf)
  then show ?case by (simp add: no_kwarg_name)
next
  case (NBinary op a b)
  then show ?case using no_kwarg_append [OF no_kwarg_wrap wtoks_ne [OF ptoks_ne]] by (auto simp: ARITH_OPS_def)
next
  case (NCompare op a b)
  then show ?case using no_kwarg_append [OF no_kwarg_wrap wtoks_ne [OF ptoks_ne]] by (auto simp: COMPARE_OPS_def)
next
  case (NBetween v a b)
  then show ?case using no_kwarg_append [OF no_kwarg_wrap wtoks_ne [OF ptoks_ne]] by auto
next
  case (NIn v items)
  then show ?case using no_kwarg_append [OF no_kwarg_wrap wtoks_ne [OF ptoks_ne]] by auto
next
  case (NLogic op items)
  let ?m = "(if op = ''ANY'' then 1 else 2) + 1 :: nat"
  obtain i j js where it: "items = i # j # js" using NLogic.prems(1) by (cases items; cases "tl items") auto
  have "no_kwarg (ptoks i)" "ptoks i \<noteq> []" using NLogic ptoks_ne [of i] it by auto
  then show ?case using it no_kwarg_append [OF no_kwarg_wrap wtoks_ne] by simp
qed (simp_all add: no_kwarg_head)

section \<open>The depth a canonical text needs\<close>

definition max_list :: "nat list \<Rightarrow> nat" where
  "max_list xs = foldr max xs 0"

lemma max_list_ge: "x \<in> set xs \<Longrightarrow> x \<le> max_list xs"
  by (induction xs) (auto simp: max_list_def)

lemma max_list_le: "max_list xs \<le> d \<longleftrightarrow> (\<forall>x \<in> set xs. x \<le> d)"
  by (induction xs) (auto simp: max_list_def)

definition wneed :: "nat \<Rightarrow> nat \<Rightarrow> nat \<Rightarrow> nat" where
  "wneed m p k = (if p < m then Suc k else k)"

text \<open>How far below the depth of its own \<open>or_expr\<close> the parser goes on the canonical text of a tree.\<close>

fun need :: "node \<Rightarrow> nat" where
  "need (NCall s args kwargs off tf) = Suc (max_list (map (\<lambda>a. Suc (need a)) args @ map (\<lambda>kv. Suc (need (snd kv))) kwargs))"
| "need (NUnary op a) = Suc (case a of NNum v \<Rightarrow> 1 | _ \<Rightarrow> wneed 7 (prec a) (need a))"
| "need (NBinary op a b) = max (wneed (op_prec op) (prec a) (need a)) (wneed (op_prec op + 1) (prec b) (need b))"
| "need (NCompare op a b) = max (wneed 5 (prec a) (need a)) (wneed 5 (prec b) (need b))"
| "need (NBetween v a b) = max (wneed 5 (prec v) (need v)) (max (wneed 5 (prec a) (need a)) (wneed 5 (prec b) (need b)))"
| "need (NIn v items) = wneed 5 (prec v) (need v)"
| "need (NLogic op items) = max_list (map (\<lambda>i. wneed ((if op = ''ANY'' then 1 else 2) + 1) (prec i) (need i)) items)"
| "need (NNot a) = Suc (wneed 3 (prec a) (need a))"
| "need n = 0"

section \<open>Reading a tree back\<close>

definition spine :: "nat \<Rightarrow> nat \<Rightarrow> tok list \<Rightarrow> node \<Rightarrow> bool" where
  "spine q d ts n = (\<forall>rest. follow (q + 1) rest \<longrightarrow>
     (\<exists>m \<ge> length rest. lev q d (ts @ rest) = binary_loop m (lev (q + 1) d) (level_ops q) n rest))"

definition reads :: "node \<Rightarrow> bool" where
  "reads n = (\<forall>d \<ge> need n. (2 \<le> prec n \<longrightarrow> parses (lev (plevel n) d) (plevel n) (ptoks n) n)
     \<and> parses (or_expr (Suc d)) 1 (ptoks n) n
     \<and> (prec n = 5 \<or> prec n = 6 \<longrightarrow> spine (prec n) d (ptoks n) n))"

lemma reads_level:
  assumes "parses (lev (plevel n) d) (plevel n) (ptoks n) n" "wf_node n" "finite_nums n" "2 \<le> p" "p \<le> prec n" "p \<le> 7"
  shows "parses (lev p d) p (ptoks n) n"
  unfolding parses_def
proof (intro allI impI)
  fix rest assume f: "follow p rest"
  have pl: "p \<le> plevel n" "plevel n \<le> 8" "plevel n \<le> prec n" using plevel_prec [OF assms(2)] assms(5,6) by linarith+
  obtain t r where h: "ptoks n = t # r" "t = kwt ''NOT'' \<longrightarrow> prec n \<le> 3" "t = opt ''-'' \<longrightarrow> plevel n \<le> 7"
    using head_ptoks [OF assms(2,3)] by (auto simp: head_ok_def)
  have l: "lev (plevel n) d (ptoks n @ rest) = Inr (n, rest)" using parsesD [OF assms(1) follow_mono [OF f pl(1)]] .
  have h3: "p \<le> 3 \<longrightarrow> 3 < plevel n \<longrightarrow> \<not> is_tok TKw ''NOT'' (ptoks n @ rest)" using h(2) pl(3) unfolding h(1) by auto
  have h7: "p \<le> 7 \<longrightarrow> 7 < plevel n \<longrightarrow> \<not> is_tok TOp ''-'' (ptoks n @ rest)" using h(3) unfolding h(1) by auto
  show "lev p d (ptoks n @ rest) = Inr (n, rest)" by (rule lift_levels [OF l f assms(4) pl(1,2) h3 h7])
qed

lemma reads_or:
  assumes "parses (lev (plevel n) d) (plevel n) (ptoks n) n" "wf_node n" "finite_nums n" "2 \<le> prec n"
  shows "parses (or_expr (Suc d)) 1 (ptoks n) n"
  unfolding parses_def
proof (intro allI impI)
  fix rest assume f: "follow 1 rest"
  have "lev 2 d (ptoks n @ rest) = Inr (n, rest)"
    using reads_level [OF assms(1-3), of 2] assms(4) follow_mono [OF f, of 2] by (auto intro: parsesD)
  then show "or_expr (Suc d) (ptoks n @ rest) = Inr (n, rest)" using f by (intro or_of_and) (simp_all add: lev_def)
qed

lemma reads_paren:
  assumes "parses (or_expr d) 1 ts n" "\<not> is_series n" "2 \<le> p" "p \<le> 8"
  shows "parses (lev p d) p (opt ''('' # ts @ [opt '')'']) n"
  unfolding parses_def
proof (intro allI impI)
  fix rest assume f: "follow p rest"
  have a: "atom_node (opt ''('') = None" by (simp add: atom_node_def)
  have "or_expr d (ts @ opt '')'' # rest) = Inr (n, opt '')'' # rest)" using assms(1) by (rule parsesD) simp
  then have p: "primary d (opt ''('' # ts @ opt '')'' # rest) = Inr (n, rest)" by (simp add: primary.simps a)
  have "\<not> is_tok TOp ''['' rest" "\<not> is_kind TTf rest"
    using follow_mono [OF f assms(4)] by (cases rest; auto simp: tlevel_def COMPARE_OPS_def)+
  then have "lev 8 d (opt ''('' # ts @ opt '')'' # rest) = Inr (n, rest)"
    using assms(2) p by (simp add: lev_def postfix.simps)
  then have "lev p d (opt ''('' # ts @ opt '')'' # rest) = Inr (n, rest)"
    by (rule lift_levels) (use f assms(3,4) in simp_all)
  then show "lev p d ((opt ''('' # ts @ [opt '')'']) @ rest) = Inr (n, rest)" by simp
qed

lemma reads_wrap:
  assumes "reads n" "wf_node n" "finite_nums n" "2 \<le> p" "p \<le> 7" "wneed p (prec n) (need n) \<le> d"
  shows "parses (lev p d) p (wtoks p (prec n) (ptoks n)) n"
proof (cases "prec n < p")
  case True
  then obtain d' where d: "d = Suc d'" "need n \<le> d'" using assms(6) by (cases d) (auto simp: wneed_def)
  have "\<not> is_series n" using True assms(5) by (cases n) (auto simp: is_series_def)
  moreover have "parses (or_expr d) 1 (ptoks n) n" using assms(1) d by (auto simp: reads_def)
  ultimately show ?thesis using reads_paren [of d "ptoks n" n p] assms(4,5) True by (simp add: wtoks_def)
next
  case False
  then have "need n \<le> d" "2 \<le> prec n" using assms(4,6) by (simp_all add: wneed_def)
  then have "parses (lev (plevel n) d) (plevel n) (ptoks n) n" using assms(1) by (simp add: reads_def)
  then have "parses (lev p d) p (ptoks n) n" by (rule reads_level) (use assms False in auto)
  then show ?thesis using False by (simp add: wtoks_def)
qed

lemma reads_spine:
  assumes "reads n" "wf_node n" "finite_nums n" "q = 5 \<or> q = 6" "wneed q (prec n) (need n) \<le> d"
  shows "spine q d (wtoks q (prec n) (ptoks n)) n"
proof (cases "prec n = q")
  case True
  then show ?thesis using assms by (auto simp: reads_def wneed_def wtoks_def)
next
  case False
  then have w: "wtoks q (prec n) (ptoks n) = wtoks (q + 1) (prec n) (ptoks n)" "wneed (q + 1) (prec n) (need n) \<le> d"
    using assms(5) by (auto simp: wtoks_def wneed_def)
  have "parses (lev (q + 1) d) (q + 1) (wtoks (q + 1) (prec n) (ptoks n)) n"
    using assms(4) w(2) by (intro reads_wrap assms(1-3)) auto
  then show ?thesis unfolding spine_def w(1) using parsesD assms(4) by (fastforce simp: lev_binary)
qed

lemma spine_stop: "spine q d ts n \<Longrightarrow> q = 5 \<or> q = 6 \<Longrightarrow> parses (lev q d) q ts n"
  unfolding parses_def
proof (intro allI impI)
  fix rest assume a: "spine q d ts n" "q = 5 \<or> q = 6" "follow q rest"
  then obtain m where "lev q d (ts @ rest) = binary_loop m (lev (q + 1) d) (level_ops q) n rest"
    using follow_mono [OF a(3), of "q + 1"] by (auto simp: spine_def)
  then show "lev q d (ts @ rest) = Inr (n, rest)" using binary_loop_stop [OF a(3,2)] by simp
qed

lemma spine_step:
  assumes "spine q d ts a" "q = 5 \<or> q = 6" "parses (lev (q + 1) d) (q + 1) us b" "op \<in> set (level_ops q)"
  shows "spine q d (ts @ opt op # us) (NBinary op a b)"
  unfolding spine_def
proof (intro allI impI)
  fix rest assume f: "follow (q + 1) rest"
  have "op \<in> {''+'', ''-''} \<and> q = 5 \<or> op \<in> {''*'', ''/''} \<and> q = 6"
    using assms(2,4) by (cases "q = 5") (simp_all add: level_ops_def)
  then have "tlevel (opt op) < q + 1" by (elim disjE conjE insertE) (simp_all add: tlevel_def COMPARE_OPS_def)
  then have "follow (q + 1) (opt op # us @ rest)" by simp
  then obtain m where m: "length (opt op # us @ rest) \<le> m"
    "lev q d (ts @ opt op # us @ rest) = binary_loop m (lev (q + 1) d) (level_ops q) a (opt op # us @ rest)"
    using assms(1) unfolding spine_def by blast
  then obtain m' where m': "m = Suc m'" by (cases m) auto
  have "binary_loop m (lev (q + 1) d) (level_ops q) a (opt op # us @ rest) = binary_loop m' (lev (q + 1) d) (level_ops q) (NBinary op a b) rest"
    using parsesD [OF assms(3) f] assms(4) by (subst binary_loop.simps) (simp add: m')
  then show "\<exists>m \<ge> length rest. lev q d ((ts @ opt op # us) @ rest) = binary_loop m (lev (q + 1) d) (level_ops q) (NBinary op a b) rest"
    using m m' by (intro exI [of _ m']) auto
qed

lemma tjoin_length: "length tss \<le> Suc (length (tjoin sep tss))"
  by (induction sep tss rule: tjoin.induct) auto

lemma readsI:
  assumes "wf_node n" "finite_nums n" "2 \<le> prec n" "prec n \<noteq> 5" "prec n \<noteq> 6"
    "\<And>d. need n \<le> d \<Longrightarrow> parses (lev (plevel n) d) (plevel n) (ptoks n) n"
  shows "reads n"
  using assms reads_or by (simp add: reads_def)

lemma no_suffix: "follow 8 rest \<Longrightarrow> \<not> is_tok TOp ''['' rest \<and> \<not> is_kind TTf rest"
  by (cases rest) (auto simp: tlevel_def COMPARE_OPS_def)

lemma atom_reads:
  assumes "atom_node t = Some n" "\<not> is_series n"
  shows "parses (lev 8 d) 8 [t] n"
  unfolding parses_def using assms no_suffix by (auto simp: lev_def postfix.simps primary.simps)

lemma reads_num:
  assumes "finite_num v"
  shows "reads (NNum v)"
proof (rule readsI)
  obtain x where v: "v = Fin x" using assms by (cases v) (auto simp: finite_num_def)
  fix d
  show "parses (lev (plevel (NNum v)) d) (plevel (NNum v)) (ptoks (NNum v)) (NNum v)"
  proof (cases "x < 0")
    case True
    have "float_of_text (num_str (Fin (- x))) = Fin (- x)"
      using True assms v by (intro num_str_reads) (simp_all add: finite_num_def)
    then show ?thesis using True
      by (simp add: parses_def v plevel_def num_toks_def lev_def unary.simps neg_num_def)
  next
    case False
    have "float_of_text (num_str (Fin x)) = Fin x" using False assms v by (intro num_str_reads) simp_all
    then show ?thesis using False atom_reads [of "Tok TNum (num_str v)" "NNum v" d]
      by (simp add: v plevel_def num_toks_def atom_node_def is_series_def)
  qed
qed (use assms in simp_all)

lemma literal_reads:
  assumes "is_literal n" "wf_node n" "finite_nums n"
  shows "parses literal 1 (ptoks n) n"
proof (cases n)
  case (NNum v)
  then obtain x where v: "v = Fin x" using assms by (cases v) (auto simp: finite_num_def)
  have fin: "finite_num (Fin y)" if "y = x \<or> y = - x" for y using that assms NNum v by (auto simp: finite_num_def)
  show ?thesis
  proof (cases "x < 0")
    case True
    then show ?thesis using num_str_reads [OF fin, of "- x"]
      by (simp add: parses_def NNum v num_toks_def literal_def neg_num_ahead_def neg_num_def)
  next
    case False
    then show ?thesis using num_str_reads [OF fin, of x]
      by (simp add: parses_def NNum v num_toks_def literal_def neg_num_ahead_def atom_node_def)
  qed
next
  case (NStr s)
  then show ?thesis by (simp add: parses_def literal_def neg_num_ahead_def atom_node_def str_text_def unescape_quote)
qed (use assms in \<open>auto simp: parses_def literal_def neg_num_ahead_def atom_node_def is_literal_def\<close>)

lemma reads_field:
  assumes "wf_node (NField s off tf)"
  shows "reads (NField s off tf)"
proof (rule readsI)
  fix d
  have "postfix d (Tok TName s # suffix_toks off tf @ rest) = Inr (NField s off tf, rest)" if f: "follow 8 rest" for rest
  proof -
    have "\<not> is_tok TOp ''('' (suffix_toks off tf @ rest)"
      using f by (cases rest) (auto simp: suffix_toks_def tlevel_def COMPARE_OPS_def split: json.split)
    moreover have "atom_node (Tok TName s) = None" by (simp add: atom_node_def)
    ultimately have p: "primary d (Tok TName s # suffix_toks off tf @ rest) = Inr (NField s 0 JNull, suffix_toks off tf @ rest)"
      by (simp add: primary.simps)
    have "suffix_ok off tf" using assms by simp
    then show ?thesis using suffixes_reads [OF _ f, of off tf "NField s 0 JNull" s] p
      by (simp add: postfix.simps is_series_def set_suffix_def)
  qed
  then show "parses (lev (plevel (NField s off tf)) d) (plevel (NField s off tf)) (ptoks (NField s off tf)) (NField s off tf)"
    by (simp add: parses_def plevel_def lev_def)
qed (use assms in simp_all)

lemma primary_call:
  assumes "(if is_tok TOp '')'' body then Inr (([], []), body)
      else args_loop (Suc (length (opt ''('' # body))) (or_expr e) (Tok TName s # opt ''('' # body) [] [] body)
        = Inr ((args, kwargs), opt '')'' # r)"
    and "call_node (Tok TName s # opt ''('' # body) s args kwargs = Inr n"
  shows "primary (Suc e) (Tok TName s # opt ''('' # body) = Inr (n, r)"
proof -
  have "atom_node (Tok TName s) = None" by (simp add: atom_node_def)
  then show ?thesis using assms by (cases "is_tok TOp '')'' body") (simp_all add: primary.simps [of "Suc e"])
qed

lemma reads_call:
  assumes n: "n = NCall s args kwargs off tf" and wf: "wf_node n" "finite_nums n"
    and args: "\<And>a. a \<in> set args \<Longrightarrow> reads a" and kwargs: "\<And>kv. kv \<in> set kwargs \<Longrightarrow> reads (snd kv)"
  shows "reads n"
proof (rule readsI)
  fix d assume d: "need n \<le> d"
  then obtain e where e: "d = Suc e" by (cases d) (auto simp: n)
  let ?named = "map (\<lambda>kv. Tok TName (fst kv) # opt ''='' # ptoks (snd kv)) kwargs"
  have sub: "parses (or_expr e) 1 (ptoks a) a" if "reads a" "Suc (need a) \<le> e" for a
    using that by (cases e) (auto simp: reads_def)
  have ml: "max_list (map (\<lambda>a. Suc (need a)) args @ map (\<lambda>kv. Suc (need (snd kv))) kwargs) \<le> e" using d e n by simp
  have pa: "parses (or_expr e) 1 (ptoks a) a \<and> no_kwarg (ptoks a)" if "a \<in> set args" for a
    using that args ml sub no_kwarg_ptoks wf by (auto simp: n max_list_le list_all_iff)
  have pk: "parses (or_expr e) 1 (ptoks (snd kv)) (snd kv)" if "kv \<in> set kwargs" for kv
    using that kwargs ml sub by (auto simp: max_list_le)
  have "postfix d (Tok TName s # opt ''('' # tjoin (opt '','') (map ptoks args @ ?named) @ opt '')'' # suffix_toks off tf @ rest)
      = Inr (n, rest)" if f: "follow 8 rest" for rest
  proof -
    let ?r = "opt '')'' # suffix_toks off tf @ rest"
    let ?body = "tjoin (opt '','') (map ptoks args @ ?named) @ ?r"
    let ?ts = "Tok TName s # opt ''('' # ?body"
    have loop: "(if is_tok TOp '')'' ?body then Inr (([], []), ?body) else args_loop (Suc (length (opt ''('' # ?body))) (or_expr e) ?ts [] [] ?body)
        = Inr ((args, kwargs), ?r)"
    proof (cases "args @ map snd kwargs = []")
      case False
      have hd: "\<exists>t r. ptoks a = t # r \<and> t \<noteq> opt '')''" if "a \<in> set args" for a
        using head_ptoks [of a] that wf by (auto simp: n list_all_iff head_ok_def)
      obtain t r tss where "map ptoks args @ ?named = (t # r) # tss" "t \<noteq> opt '')''"
      proof (cases args)
        case Nil
        then show ?thesis using that False by (cases kwargs) auto
      next
        case (Cons a as)
        then show ?thesis using that hd [of a] by auto
      qed
      then have "\<not> is_tok TOp '')'' ?body" by (cases tss) auto
      moreover have "length args + length kwargs \<le> Suc (length (opt ''('' # ?body))"
        using tjoin_length [of "map ptoks args @ ?named" "opt '',''"] by simp
      ultimately show ?thesis using args_loop_all [of args "or_expr e" kwargs, OF pa pk] False wf(1) by (simp add: n)
    qed simp
    have "call_node ?ts s args kwargs = Inr (NCall s args kwargs 0 JNull)" using wf(1) by (auto simp: call_node_def n)
    then have p: "primary d ?ts = Inr (NCall s args kwargs 0 JNull, suffix_toks off tf @ rest)"
      unfolding e by (rule primary_call [OF loop])
    have "suffix_ok off tf" using wf(1) by (simp add: n)
    then show ?thesis using suffixes_reads [OF _ f, of off tf "NCall s args kwargs 0 JNull" s args kwargs] p
      by (simp add: postfix.simps is_series_def set_suffix_def n)
  qed
  then show "parses (lev (plevel n) d) (plevel n) (ptoks n) n" by (simp add: parses_def plevel_def lev_def n)
qed (use n wf in simp_all)

lemma unary_head:
  assumes "wf_node a" "finite_nums a" "\<nexists>v. a = NNum v"
  shows "\<exists>t r. wtoks 7 (prec a) (ptoks a) = t # r \<and> tk_kind t \<noteq> TNum"
proof (cases "prec a < 7")
  case False
  then show ?thesis using assms op_prec_arith by (cases a) (fastforce simp: wtoks_def split: if_splits)+
qed (simp add: wtoks_def)

lemma reads_unary:
  assumes wf: "wf_node (NUnary op a)" "finite_nums (NUnary op a)" and a: "reads a"
  shows "reads (NUnary op a)"
proof (rule readsI)
  fix d assume d: "need (NUnary op a) \<le> d"
  then obtain e where e: "d = Suc e" by (cases d) auto
  let ?ts = "case a of NNum v \<Rightarrow> opt ''('' # ptoks a @ [opt '')''] | _ \<Rightarrow> wtoks 7 (prec a) (ptoks a)"
  have ts: "parses (lev 7 e) 7 ?ts a \<and> (\<exists>t r. ?ts = t # r \<and> tk_kind t \<noteq> TNum)"
  proof (cases "\<exists>v. a = NNum v")
    case True
    then obtain v where v: "a = NNum v" by blast
    then have "1 \<le> e" using d e by simp
    then obtain e' where "e = Suc e'" by (cases e) auto
    then have "parses (or_expr e) 1 (ptoks a) a" using a v by (simp add: reads_def)
    then show ?thesis using reads_paren [of e "ptoks a" a 7] v by (simp add: is_series_def)
  next
    case False
    then have t: "?ts = wtoks 7 (prec a) (ptoks a)" "wneed 7 (prec a) (need a) \<le> e" using d e by (cases a; simp)+
    have "parses (lev 7 e) 7 (wtoks 7 (prec a) (ptoks a)) a" using wf t(2) by (intro reads_wrap a) auto
    then show ?thesis using t(1) unary_head False wf by simp
  qed
  have "unary d (opt ''-'' # ?ts @ rest) = Inr (NUnary op a, rest)" if f: "follow 7 rest" for rest
  proof -
    have "\<not> is_kind TNum (?ts @ rest)" using ts by auto
    moreover have "unary e (?ts @ rest) = Inr (a, rest)" using ts parsesD [OF _ f, of "lev 7 e"] by (simp add: lev_def)
    ultimately show ?thesis using wf by (simp add: unary.simps [of "Suc e"] e map_fst_res_def)
  qed
  then show "parses (lev (plevel (NUnary op a)) d) (plevel (NUnary op a)) (ptoks (NUnary op a)) (NUnary op a)"
    by (simp add: parses_def plevel_def lev_def)
qed (use wf in simp_all)

lemma reads_binary:
  assumes wf: "wf_node (NBinary op a b)" "finite_nums (NBinary op a b)" and ab: "reads a" "reads b"
  shows "reads (NBinary op a b)"
proof -
  let ?q = "op_prec op"
  have q: "?q = 5 \<or> ?q = 6" using op_prec_arith wf by simp
  have op: "op \<in> set (level_ops ?q)" using wf by (auto simp: ARITH_OPS_def level_ops_def op_prec_def PREC_def)
  have sp: "spine ?q d (ptoks (NBinary op a b)) (NBinary op a b)" if d: "need (NBinary op a b) \<le> d" for d
  proof -
    have "spine ?q d (wtoks ?q (prec a) (ptoks a)) a" using wf d q by (intro reads_spine ab) auto
    moreover have "parses (lev (?q + 1) d) (?q + 1) (wtoks (?q + 1) (prec b) (ptoks b)) b"
      using wf d q by (intro reads_wrap ab) auto
    ultimately show ?thesis using spine_step [OF _ q _ op] by simp
  qed
  have pl: "plevel (NBinary op a b) = ?q" "prec (NBinary op a b) = ?q" by (simp_all add: plevel_def)
  have ps: "parses (lev ?q d) ?q (ptoks (NBinary op a b)) (NBinary op a b)" if "need (NBinary op a b) \<le> d" for d
    by (rule spine_stop [OF sp [OF that] q])
  have "parses (or_expr (Suc d)) 1 (ptoks (NBinary op a b)) (NBinary op a b)" if "need (NBinary op a b) \<le> d" for d
    using ps [OF that] q by (intro reads_or wf) (auto simp: pl)
  then show ?thesis unfolding reads_def pl using sp ps by blast
qed

lemma reads_compare:
  assumes wf: "wf_node (NCompare op a b)" "finite_nums (NCompare op a b)" and ab: "reads a" "reads b"
  shows "reads (NCompare op a b)"
proof (rule readsI)
  fix d assume d: "need (NCompare op a b) \<le> d"
  have pa: "parses (lev 5 d) 5 (wtoks 5 (prec a) (ptoks a)) a" and pb: "parses (lev 5 d) 5 (wtoks 5 (prec b) (ptoks b)) b"
    using wf d ab by (auto intro!: reads_wrap)
  have "comparison d (wtoks 5 (prec a) (ptoks a) @ opt op # wtoks 5 (prec b) (ptoks b) @ rest) = Inr (NCompare op a b, rest)"
    if f: "follow 4 rest" for rest
  proof -
    have "tlevel (opt op) < 5" using wf by (simp add: tlevel_def)
    then have "additive d (wtoks 5 (prec a) (ptoks a) @ opt op # wtoks 5 (prec b) (ptoks b) @ rest)
        = Inr (a, opt op # wtoks 5 (prec b) (ptoks b) @ rest)" using parsesD [OF pa] by (simp add: lev_def)
    moreover have "additive d (wtoks 5 (prec b) (ptoks b) @ rest) = Inr (b, rest)"
      using parsesD [OF pb follow_mono [OF f]] by (simp add: lev_def)
    ultimately show ?thesis using wf by (simp add: comparison.simps map_fst_res_def)
  qed
  then show "parses (lev (plevel (NCompare op a b)) d) (plevel (NCompare op a b)) (ptoks (NCompare op a b)) (NCompare op a b)"
    by (simp add: parses_def plevel_def lev_def)
qed (use wf in simp_all)

lemma reads_between:
  assumes wf: "wf_node (NBetween v a b)" "finite_nums (NBetween v a b)" and vab: "reads v" "reads a" "reads b"
  shows "reads (NBetween v a b)"
proof (rule readsI)
  fix d assume d: "need (NBetween v a b) \<le> d"
  have p: "parses (lev 5 d) 5 (wtoks 5 (prec x) (ptoks x)) x" if "x = v \<or> x = a \<or> x = b" for x
    using that wf d vab by (auto intro!: reads_wrap)
  let ?b = "wtoks 5 (prec b) (ptoks b)" and ?a = "wtoks 5 (prec a) (ptoks a)" and ?v = "wtoks 5 (prec v) (ptoks v)"
  have "comparison d (?v @ kwt ''BETWEEN'' # ?a @ kwt ''AND'' # ?b @ rest) = Inr (NBetween v a b, rest)" if f: "follow 4 rest" for rest
  proof -
    have "additive d (?v @ kwt ''BETWEEN'' # ?a @ kwt ''AND'' # ?b @ rest) = Inr (v, kwt ''BETWEEN'' # ?a @ kwt ''AND'' # ?b @ rest)"
      using parsesD [OF p, of v "kwt ''BETWEEN'' # ?a @ kwt ''AND'' # ?b @ rest"] by (simp add: lev_def tlevel_def)
    moreover have "additive d (?a @ kwt ''AND'' # ?b @ rest) = Inr (a, kwt ''AND'' # ?b @ rest)"
      using parsesD [OF p, of a "kwt ''AND'' # ?b @ rest"] by (simp add: lev_def tlevel_def)
    moreover have "additive d (?b @ rest) = Inr (b, rest)"
      using parsesD [OF p, of b rest] follow_mono [OF f, of 5] by (simp add: lev_def)
    ultimately show ?thesis by (simp add: comparison.simps map_fst_res_def)
  qed
  then show "parses (lev (plevel (NBetween v a b)) d) (plevel (NBetween v a b)) (ptoks (NBetween v a b)) (NBetween v a b)"
    by (simp add: parses_def plevel_def lev_def)
qed (use wf in simp_all)

lemma reads_in:
  assumes wf: "wf_node (NIn v items)" "finite_nums (NIn v items)" and v: "reads v"
  shows "reads (NIn v items)"
proof (rule readsI)
  fix d assume d: "need (NIn v items) \<le> d"
  let ?v = "wtoks 5 (prec v) (ptoks v)"
  have p: "parses (lev 5 d) 5 ?v v" using wf d by (intro reads_wrap v) auto
  have "comparison d (?v @ kwt ''IN'' # opt ''('' # tjoin (opt '','') (map ptoks items) @ opt '')'' # rest) = Inr (NIn v items, rest)" for rest
  proof -
    have "additive d (?v @ kwt ''IN'' # opt ''('' # tjoin (opt '','') (map ptoks items) @ opt '')'' # rest)
        = Inr (v, kwt ''IN'' # opt ''('' # tjoin (opt '','') (map ptoks items) @ opt '')'' # rest)"
      using parsesD [OF p, of "kwt ''IN'' # opt ''('' # tjoin (opt '','') (map ptoks items) @ opt '')'' # rest"]
      by (simp add: lev_def tlevel_def)
    moreover have "items_of literal (is_tok TOp '','') (tjoin (opt '','') (map ptoks items) @ opt '')'' # rest) = Inr (items, opt '')'' # rest)"
      using wf by (intro items_of_all [of _ _ 1] literal_reads) (auto simp: list_all_iff)
    ultimately show ?thesis by (simp add: comparison.simps)
  qed
  then show "parses (lev (plevel (NIn v items)) d) (plevel (NIn v items)) (ptoks (NIn v items)) (NIn v items)"
    by (simp add: parses_def plevel_def lev_def)
qed (use wf in simp_all)

lemma reads_not:
  assumes wf: "wf_node (NNot a)" "finite_nums (NNot a)" and a: "reads a"
  shows "reads (NNot a)"
proof (rule readsI)
  fix d assume d: "need (NNot a) \<le> d"
  then obtain e where e: "d = Suc e" "wneed 3 (prec a) (need a) \<le> e" by (cases d) auto
  have "parses (lev 3 e) 3 (wtoks 3 (prec a) (ptoks a)) a" using wf e(2) by (intro reads_wrap a) auto
  then have "not_expr e (wtoks 3 (prec a) (ptoks a) @ rest) = Inr (a, rest)" if "follow 3 rest" for rest
    using that parsesD by (fastforce simp: lev_def)
  then show "parses (lev (plevel (NNot a)) d) (plevel (NNot a)) (ptoks (NNot a)) (NNot a)"
    by (simp add: parses_def plevel_def lev_def not_expr.simps [of "Suc e"] e map_fst_res_def)
qed (use wf in simp_all)

lemma group_of_two: "2 \<le> length items \<Longrightarrow> group_of op items = NLogic op items"
  by (cases items; cases "tl items") (auto simp: group_of_def)

lemma reads_logic:
  assumes wf: "wf_node (NLogic op items)" "finite_nums (NLogic op items)" and it: "\<And>i. i \<in> set items \<Longrightarrow> reads i"
  shows "reads (NLogic op items)"
proof (cases "op = ''ANY''")
  case True
  have ne: "items \<noteq> []" using wf by auto
  have "or_expr (Suc d) (ptoks (NLogic op items) @ rest) = Inr (NLogic op items, rest)"
    if d: "need (NLogic op items) \<le> d" and f: "follow 1 rest" for d rest
  proof -
    have p: "parses (lev 2 d) 2 (wtoks 2 (prec i) (ptoks i)) i" if "i \<in> set items" for i
      using that wf d True by (intro reads_wrap it) (auto simp: list_all_iff max_list_le numeral_2_eq_2)
    have o: "items_of (and_expr d) (is_tok TKw ''OR'') (tjoin (kwt ''OR'') (map (\<lambda>i. wtoks 2 (prec i) (ptoks i)) items) @ rest)
        = Inr (items, rest)"
      using p f ne follow_mono [OF f, of 2] not_tok [OF f, of TKw "''OR''"]
      by (intro items_of_all [of _ _ 2]) (auto simp: lev_def tlevel_def)
    have t: "tjoin (kwt ''OR'') (map (\<lambda>i. wtoks (Suc (Suc 0)) (prec i) (ptoks i)) items)
        = tjoin (kwt ''OR'') (map (\<lambda>i. wtoks 2 (prec i) (ptoks i)) items)" by (simp only: numeral_2_eq_2)
    show ?thesis using o True wf group_of_two [of items "''ANY''"]
      by (simp add: or_expr.simps map_fst_res_def t)
  qed
  then show ?thesis using True by (simp add: reads_def parses_def)
next
  case False
  then have op: "op = ''ALL''" using wf by auto
  have ne: "items \<noteq> []" using wf by auto
  show ?thesis
  proof (rule readsI)
    fix d assume d: "need (NLogic op items) \<le> d"
    have p: "parses (lev 3 d) 3 (wtoks 3 (prec i) (ptoks i)) i" if "i \<in> set items" for i
      using that wf d False by (intro reads_wrap it) (auto simp: list_all_iff max_list_le)
    have "and_expr d (tjoin (kwt ''AND'') (map (\<lambda>i. wtoks 3 (prec i) (ptoks i)) items) @ rest) = Inr (NLogic op items, rest)"
      if f: "follow 2 rest" for rest
    proof -
      have "items_of (not_expr d) (is_tok TKw ''AND'') (tjoin (kwt ''AND'') (map (\<lambda>i. wtoks 3 (prec i) (ptoks i)) items) @ rest)
          = Inr (items, rest)"
        using p f ne follow_mono [OF f, of 3] not_tok [OF f, of TKw "''AND''"]
        by (intro items_of_all [of _ _ 3]) (auto simp: lev_def tlevel_def)
      then show ?thesis using op wf group_of_two [of items op] by (simp add: and_expr.simps map_fst_res_def)
    qed
    then show "parses (lev (plevel (NLogic op items)) d) (plevel (NLogic op items)) (ptoks (NLogic op items)) (NLogic op items)"
      using op by (simp add: parses_def plevel_def lev_def)
  qed (use op wf in simp_all)
qed

lemma reads_atom:
  assumes "wf_node n" "finite_nums n" "atom_node t = Some n" "ptoks n = [t]" "plevel n = 8" "\<not> is_series n"
  shows "reads n"
proof (rule readsI [OF assms(1,2)])
  have "8 \<le> prec n" using plevel_prec [OF assms(1)] assms(5) by simp
  then show "2 \<le> prec n" "prec n \<noteq> 5" "prec n \<noteq> 6" by simp_all
qed (use atom_reads [OF assms(3,6)] assms(4,5) in simp)

lemma reads_node: "wf_node n \<Longrightarrow> finite_nums n \<Longrightarrow> reads n"
proof (induction n)
  case (NCall s args kwargs off tf)
  show ?case
  proof (rule reads_call [OF refl NCall.prems])
    show "reads a" if "a \<in> set args" for a using that NCall by (auto simp: list_all_iff)
    fix kv assume kv: "kv \<in> set kwargs"
    have "snd kv \<in> Basic_BNFs.snds kv" by (cases kv) (auto simp: snds.simps)
    then show "reads (snd kv)" using NCall kv by (auto simp: list_all_iff)
  qed
next
  case (NLogic op items)
  then show ?case by (intro reads_logic) (auto simp: list_all_iff)
next
  case (NStr s)
  then show ?case
    by (intro reads_atom [of _ "Tok TStr (str_text s)"]) (simp_all add: atom_node_def plevel_def is_series_def str_text_def unescape_quote)
next
  case (NBool b)
  then show ?case
    by (intro reads_atom [of _ "kwt (if b then ''TRUE'' else ''FALSE'')"]) (auto simp: atom_node_def plevel_def is_series_def)
next
  case (NParam s)
  then show ?case
    by (intro reads_atom [of _ "Tok TParam (CHR ''$'' # s)"]) (simp_all add: atom_node_def plevel_def is_series_def)
qed (use reads_num reads_field reads_unary reads_binary reads_compare reads_between reads_in reads_not in simp_all)

section \<open>The round trip\<close>

lemma wf_ops_known: "wf_node n \<Longrightarrow> ops_known n"
proof -
  have "\<forall>m \<in> set (walk n). case m of NBinary op a b \<Rightarrow> map_of PREC op \<noteq> None | _ \<Rightarrow> True" if "wf_node n" for n
    using that
  proof (induction n rule: walk.induct)
    case (1 n)
    have "wf_node c" if "c \<in> set (children n)" for c using that 1(2) by (cases n) (auto simp: list_all_iff)
    then show ?case using 1 by (subst walk.simps) (cases n; auto simp: ARITH_OPS_def PREC_def)
  qed
  then show "wf_node n \<Longrightarrow> ops_known n" by (simp add: ops_known_def list_all_iff)
qed

text \<open>
  C29. \<open>parse(to_text(ast)) == ast\<close>: the canonical text of a screen parses back to the same tree, for
  every well-formed tree with finite numbers whose text is within the parser's limits of 4000
  characters and 60 levels of nesting. Numbers keep their exact value: their shortest decimal reads
  back as the same float.
\<close>
theorem screen_text_roundtrip:
  assumes "wf_node n" "finite_nums n" "need n < 60" "length (node_text n) \<le> 4000"
  shows "to_text n = Inr (node_text n) \<and> parse (node_text n) = Inr n"
proof -
  have l: "lexes (node_text n) (ptoks n)" using lexes_node assms by blast
  have "lexk (node_text n @ []) = Some (ptoks n @ [Tok TEof []])" using l by (rule lexesD) simp_all
  then obtain tps where tps: "lex 0 (node_text n) = Inr tps" "map fst tps = ptoks n @ [Tok TEof []]" using lex_lexk by fastforce
  have "reads n" using reads_node assms by blast
  moreover have "need n \<le> 59" using assms(3) by simp
  ultimately have "parses (or_expr (Suc 59)) 1 (ptoks n) n" unfolding reads_def by blast
  then have "or_expr MAX_DEPTH (ptoks n @ [Tok TEof []]) = Inr (n, [Tok TEof []])"
    using parsesD [of "or_expr (Suc 59)" 1] by (simp add: MAX_DEPTH_def tlevel_def)
  then have "screen (map fst tps) = Inr n" by (simp add: screen_def tps(2))
  moreover have "py_strip (node_text n) \<noteq> []"
  proof -
    have h: "node_text n \<noteq> []" "\<not> is_space (hd (node_text n))" using lexes_hd [OF l] by auto
    then have "dropWhile is_space (node_text n) = node_text n" by (cases "node_text n") auto
    moreover have "dropWhile is_space (rev (node_text n)) \<noteq> []"
      using h by (simp add: dropWhile_eq_Nil_conv) (meson hd_in_set)
    ultimately show ?thesis by (simp add: py_strip_def)
  qed
  ultimately have "parse (node_text n) = Inr n" using assms(4) tps(1) by (simp add: parse_def tokenize_def MAX_TEXT_def)
  then show ?thesis using wf_ops_known [OF assms(1)] by (simp add: to_text_def)
qed

lemma finite_num_small: "is64 x \<Longrightarrow> \<bar>x\<bar> \<le> 10 ^ 15 \<Longrightarrow> finite_num (Fin x)"
proof -
  assume x: "is64 x" "\<bar>x\<bar> \<le> 10 ^ 15"
  have "(10 ^ 15 :: rat) < 2 ^ 1024" by simp
  then have "\<bar>x\<bar> < 2 ^ 1024" using x(2) by (rule order_le_less_trans [rotated])
  then show ?thesis using x(1) by (simp only: finite_num_def pynum.case)
qed

definition demo_screen :: node where
  "demo_screen = NLogic ''ALL'' [NCompare ''>'' (NField ''close'' 0 JNull) (NCall ''SMA'' [NField ''close'' 1 (JStr ''1d''), NNum (Fin 20)] [(''k'', NNum (Fin (- (1/2))))] 2 JNull),
     NNot (NIn (NField ''sector'' 0 JNull) [NStr ''IT'', NNum (Fin (- 3))]), NUnary ''-'' (NNum (Fin (flit 1 10)))]"

theorem screen_text_roundtrip_witness:
  "to_text demo_screen = Inr (node_text demo_screen) \<and> parse (node_text demo_screen) = Inr demo_screen"
proof (rule screen_text_roundtrip)
  show "wf_node demo_screen" by code_simp
  have "list_all (\<lambda>x. is64 x \<and> \<bar>x\<bar> \<le> 10 ^ 15) [20, - (1/2), - 3, flit 1 10]" by code_simp
  then show "finite_nums demo_screen" by (simp add: demo_screen_def finite_num_small)
  show "need demo_screen < 60" by code_simp
  show "length (node_text demo_screen) \<le> 4000" by code_simp
qed

end
