(* ===== verification/ScreenTotal.thy ===== *)
theory ScreenTotal
  imports ScreenLex
begin

text \<open>
  What \<open>parse\<close> (\<open>app/screener/parser.py\<close>) promises for every text: it raises \<open>ScreenQLSyntaxError\<close> with
  a position inside the text and nothing else, and a tree it returns is well-formed. The parser reads
  \<open>toks[i]\<close> and \<open>toks[i + 1]\<close> without a bounds check, so the first part rests on the end token: every
  token taken is not the last. The second joins the tokenizer's classes of names, parameters and
  timeframes with the grammar.
\<close>

section \<open>Token streams\<close>

definition tok_ok :: "tok \<Rightarrow> bool" where
  "tok_ok t = (case tk_kind t of
      TName \<Rightarrow> name_ok (tk_text t)
    | TParam \<Rightarrow> ident (tl (tk_text t))
    | TTf \<Rightarrow> tl (tk_text t) \<in> set TIMEFRAMES
    | _ \<Rightarrow> True)"

definition stream :: "tok list \<Rightarrow> bool" where
  "stream ts = (ts \<noteq> [] \<and> last ts = Tok TEof [] \<and> list_all tok_ok ts)"

definition proper :: "syntax_error \<Rightarrow> bool" where
  "proper e = (e \<noteq> NoToken \<and> e \<noteq> OutOfFuel)"

text \<open>
  An outcome: an error names a token among the \<open>N\<close> ahead; a result leaves a stream of fewer than \<open>M\<close>
  tokens.
\<close>

definition outcome :: "nat \<Rightarrow> nat \<Rightarrow> ('a \<Rightarrow> bool) \<Rightarrow> 'a parsed \<Rightarrow> bool" where
  "outcome N M Q r = (case r of
      Inl (e, k) \<Rightarrow> proper e \<and> 0 < k \<and> k \<le> N
    | Inr (x, ts) \<Rightarrow> stream ts \<and> length ts < M \<and> Q x)"

definition good :: "('a \<Rightarrow> bool) \<Rightarrow> (tok list \<Rightarrow> 'a parsed) \<Rightarrow> bool" where
  "good Q p = (\<forall>ts. stream ts \<longrightarrow> outcome (length ts) (length ts) Q (p ts))"

lemma goodI: "(\<And>ts. stream ts \<Longrightarrow> outcome (length ts) (length ts) Q (p ts)) \<Longrightarrow> good Q p"
  by (simp add: good_def)

lemma goodD: "good Q p \<Longrightarrow> stream ts \<Longrightarrow> outcome (length ts) (length ts) Q (p ts)"
  by (simp add: good_def)

lemma outcome_Inr [simp]: "outcome N M Q (Inr (x, ts)) = (stream ts \<and> length ts < M \<and> Q x)"
  by (simp add: outcome_def)

lemma outcome_fail [simp]: "outcome N M Q (fail_at ts e) = (proper e \<and> 0 < length ts \<and> length ts \<le> N)"
  by (simp add: outcome_def fail_at_def)

lemma outcome_mono: "outcome N M Q r \<Longrightarrow> N \<le> N' \<Longrightarrow> M \<le> M' \<Longrightarrow> outcome N' M' Q r"
  by (auto simp: outcome_def split: sum.splits)

lemma outcome_bind:
  assumes "outcome N M Q r" "\<And>x ts. stream ts \<Longrightarrow> length ts < M \<Longrightarrow> Q x \<Longrightarrow> outcome N M' Q' (f (x, ts))"
  shows "outcome N M' Q' (rbind r f)"
  using assms by (cases r) (auto simp: outcome_def)

lemma outcome_map:
  assumes "outcome N M Q r" "\<And>x. Q x \<Longrightarrow> Q' (f x)"
  shows "outcome N M Q' (map_fst_res f r)"
  unfolding map_fst_res_def using assms(1) by (rule outcome_bind) (simp add: assms(2))

lemma good_at: "good Q p \<Longrightarrow> stream ts \<Longrightarrow> length ts \<le> N \<Longrightarrow> length ts \<le> M \<Longrightarrow> outcome N M Q (p ts)"
  by (rule outcome_mono [OF goodD])

lemma streamE: "stream ts \<Longrightarrow> (\<And>t r. ts = t # r \<Longrightarrow> tok_ok t \<Longrightarrow> tk_kind t = TEof \<or> stream r \<Longrightarrow> P) \<Longrightarrow> P"
  by (cases ts) (auto simp: stream_def split: if_splits)

lemma stream_tl_kind: "stream ts \<Longrightarrow> is_kind k ts \<Longrightarrow> k \<noteq> TEof \<Longrightarrow> stream (tl ts) \<and> Suc (length (tl ts)) = length ts"
  by (erule streamE) (auto simp: is_kind_def)

lemma stream_tl_tok: "stream ts \<Longrightarrow> is_tok k x ts \<Longrightarrow> k \<noteq> TEof \<Longrightarrow> stream (tl ts) \<and> Suc (length (tl ts)) = length ts"
  by (erule streamE) (auto simp: is_tok_def)

lemma stream_pos: "stream ts \<Longrightarrow> 0 < length ts"
  by (simp add: stream_def)

lemma proper_simps [simp]: "\<not> proper NoToken" "\<not> proper OutOfFuel" "proper TooDeep" "proper (Expected a b)" "proper (Unexpected a)"
  "proper (NotALiteral a)" "proper TimeframeTwice" "proper OffsetTwice" "proper NegativeOffset" "proper BadOffset" "proper SuffixOnValue"
  "proper (ArgumentTwice a)" "proper PositionalAfterNamed" "proper (EmptyGroup a)" "proper (ExpectedValue a)" "proper TooLong"
  "proper UnknownTimeframe" "proper (UnexpectedChar c)" "proper EmptyScreen"
  by (simp_all add: proper_def)

lemma expect_bind:
  assumes "stream ts" "k \<noteq> TEof" "length ts \<le> N"
    "\<And>r. stream r \<Longrightarrow> Suc (length r) = length ts \<Longrightarrow> outcome N M Q (f r)"
  shows "outcome N M Q (rbind (expect k x w ts) f)"
proof (cases "is_tok k x ts")
  case True
  then show ?thesis using assms stream_tl_tok [OF assms(1) True assms(2)] by (auto simp: expect_def stream_def)
next
  case False
  then show ?thesis using assms(1,3) stream_pos [OF assms(1)]
    by (auto simp: expect_def fail_at_def outcome_def stream_def)
qed

section \<open>The loops\<close>

lemma items_loop_outcome:
  assumes p: "good Q p" and sep: "\<And>ts. stream ts \<Longrightarrow> sep ts \<Longrightarrow> stream (tl ts) \<and> Suc (length (tl ts)) = length ts"
  shows "stream ts \<Longrightarrow> length ts \<le> n \<Longrightarrow> length ts \<le> N \<Longrightarrow> length ts < M \<Longrightarrow> list_all Q acc
    \<Longrightarrow> outcome N M (\<lambda>xs. list_all Q xs \<and> length acc \<le> length xs) (items_loop n p sep acc ts)"
proof (induction n arbitrary: ts acc)
  case 0
  then show ?case using stream_pos [of ts] by simp
next
  case (Suc n)
  show ?case
  proof (cases "sep ts")
    case True
    have t: "stream (tl ts)" "Suc (length (tl ts)) = length ts" using sep [OF Suc.prems(1) True] by auto
    have "outcome N M (\<lambda>xs. list_all Q xs \<and> length acc \<le> length xs) (rbind (p (tl ts)) (\<lambda>(x, r). items_loop n p sep (acc @ [x]) r))"
    proof (rule outcome_bind [OF good_at [OF p t(1), of N "length ts"]])
      fix x r
      assume r: "stream r" "length r < length ts" "Q x"
      have "outcome N M (\<lambda>xs. list_all Q xs \<and> length (acc @ [x]) \<le> length xs) (items_loop n p sep (acc @ [x]) r)"
        by (rule Suc.IH) (use r Suc.prems in auto)
      then show "outcome N M (\<lambda>xs. list_all Q xs \<and> length acc \<le> length xs) (case (x, r) of (x, r) \<Rightarrow> items_loop n p sep (acc @ [x]) r)"
        by (auto simp: outcome_def split: sum.splits)
    qed (use Suc.prems t in auto)
    then show ?thesis using True by (simp add: items_loop.simps [of "Suc n" p sep acc ts])
  qed (use Suc.prems in \<open>simp add: items_loop.simps\<close>)
qed

lemma good_items_of:
  assumes p: "good Q p" and sep: "\<And>ts. stream ts \<Longrightarrow> sep ts \<Longrightarrow> stream (tl ts) \<and> Suc (length (tl ts)) = length ts"
  shows "good (\<lambda>xs. list_all Q xs \<and> 1 \<le> length xs) (items_of p sep)"
proof (rule goodI)
  fix ts
  assume ts: "stream ts"
  show "outcome (length ts) (length ts) (\<lambda>xs. list_all Q xs \<and> 1 \<le> length xs) (items_of p sep ts)"
    unfolding items_of_def
  proof (rule outcome_bind [OF goodD [OF p ts]])
    fix x r
    assume r: "stream r" "length r < length ts" "Q x"
    have "outcome (length ts) (length ts) (\<lambda>xs. list_all Q xs \<and> length [x] \<le> length xs) (items_loop (length r) p sep [x] r)"
      by (rule items_loop_outcome [OF p sep]) (use r in auto)
    then show "outcome (length ts) (length ts) (\<lambda>xs. list_all Q xs \<and> 1 \<le> length xs) (case (x, r) of (x, r) \<Rightarrow> items_loop (length r) p sep [x] r)"
      by simp
  qed
qed

lemma binary_loop_outcome:
  assumes p: "good wf_node p" and ops: "set ops \<subseteq> set ARITH_OPS"
  shows "stream ts \<Longrightarrow> length ts \<le> n \<Longrightarrow> length ts \<le> N \<Longrightarrow> length ts < M \<Longrightarrow> wf_node a
    \<Longrightarrow> outcome N M wf_node (binary_loop n p ops a ts)"
proof (induction n arbitrary: ts a)
  case 0
  then show ?case using stream_pos [of ts] by simp
next
  case (Suc n)
  show ?case
  proof (cases "is_kind TOp ts \<and> cur_text ts \<in> set ops")
    case True
    then have t: "stream (tl ts)" "Suc (length (tl ts)) = length ts" using stream_tl_kind [OF Suc.prems(1), of TOp] by auto
    have "outcome N M wf_node (rbind (p (tl ts)) (\<lambda>(b, r). binary_loop n p ops (NBinary (cur_text ts) a b) r))"
    proof (rule outcome_bind [OF good_at [OF p t(1), of N "length ts"]])
      fix x r
      assume r: "stream r" "length r < length ts" "wf_node x"
      have "outcome N M wf_node (binary_loop n p ops (NBinary (cur_text ts) a x) r)"
        by (rule Suc.IH) (use r Suc.prems True ops in auto)
      then show "outcome N M wf_node (case (x, r) of (b, r) \<Rightarrow> binary_loop n p ops (NBinary (cur_text ts) a b) r)" by simp
    qed (use Suc.prems t in auto)
    then show ?thesis using True by (simp add: binary_loop.simps [of "Suc n" p ops a ts])
  next
    case False
    then show ?thesis using Suc.prems(1,4,5) by (subst binary_loop.simps) auto
  qed
qed

lemma good_binary:
  assumes p: "good wf_node p" and ops: "set ops \<subseteq> set ARITH_OPS"
  shows "good wf_node (\<lambda>ts. rbind (p ts) (\<lambda>(a, r). binary_loop (length r) p ops a r))"
proof (rule goodI)
  fix ts
  assume ts: "stream ts"
  show "outcome (length ts) (length ts) wf_node (rbind (p ts) (\<lambda>(a, r). binary_loop (length r) p ops a r))"
    by (rule outcome_bind [OF goodD [OF p ts]]) (simp add: binary_loop_outcome [OF p ops])
qed


lemma digits_int_bounds: "list_all is_digit s \<Longrightarrow> 0 \<le> digits_int s \<and> digits_int s < 10 ^ length s"
proof (induction s rule: rev_induct)
  case (snoc c s)
  then have "0 \<le> digits_int [c]" "digits_int [c] \<le> 9" by (simp_all add: digits_int_def is_digit_def Let_def)
  moreover have "0 \<le> digits_int s" "digits_int s \<le> 10 ^ length s - 1" using snoc by simp_all
  ultimately show ?case by (simp add: digits_int_append)
qed (simp add: digits_int_def)

lemma wf_with_offset: "wf_node a \<Longrightarrow> 0 \<le> off \<Longrightarrow> off \<le> 9999 \<Longrightarrow> wf_node (with_offset off a)"
  by (cases a) (auto simp: with_offset_def suffix_ok_def)

lemma wf_with_tf: "wf_node a \<Longrightarrow> tf \<in> set TIMEFRAMES \<Longrightarrow> wf_node (with_tf tf a)"
  by (cases a) (auto simp: with_tf_def suffix_ok_def)

lemma offset_suffix_outcome:
  assumes ts: "stream ts" "is_tok TOp ''['' ts" "length ts \<le> N"
  shows "outcome N (length ts) (\<lambda>off. 0 \<le> off \<and> off \<le> 9999) (offset_suffix seen ts)"
proof -
  let ?r = "tl ts"
  have r: "stream ?r" "Suc (length ?r) = length ts" using stream_tl_tok [OF ts(1,2)] by auto
  have pos: "0 < length ts" "0 < length ?r" "?r \<noteq> []" using stream_pos [OF ts(1)] stream_pos [OF r(1)] r(1)
    by (simp_all add: stream_def)
  have d: "outcome N (length ts) (\<lambda>off. 0 \<le> off \<and> off \<le> 9999)
      (rbind (expect TOp '']'' '']'' (tl ?r)) (\<lambda>r'. Inr (digits_int (cur_text ?r), r')))"
    if k: "is_kind TNum ?r" and q: "list_all is_digit (cur_text ?r)" "\<not> 4 < length (cur_text ?r)"
  proof -
    have r2: "stream (tl ?r)" "Suc (length (tl ?r)) = length ?r" using stream_tl_kind [OF r(1) k] by auto
    have "digits_int (cur_text ?r) < 10 ^ length (cur_text ?r)" "0 \<le> digits_int (cur_text ?r)" using digits_int_bounds [OF q(1)] by auto
    moreover have "(10 :: int) ^ length (cur_text ?r) \<le> 10 ^ 4" by (rule power_increasing) (use q(2) in simp_all)
    ultimately have "0 \<le> digits_int (cur_text ?r)" "digits_int (cur_text ?r) \<le> 9999" by simp_all
    then show ?thesis by (intro expect_bind [OF r2(1)]) (use r r2 ts(3) in auto)
  qed
  show ?thesis
    unfolding offset_suffix_def Let_def using d pos r ts(3) by auto
qed

lemma suffixes_outcome:
  "stream ts \<Longrightarrow> length ts \<le> n \<Longrightarrow> length ts \<le> N \<Longrightarrow> length ts < M \<Longrightarrow> wf_node a \<Longrightarrow> outcome N M wf_node (suffixes n so st a ts)"
proof (induction n arbitrary: ts a so st)
  case 0
  then show ?case using stream_pos [of ts] by simp
next
  case (Suc n)
  have pos: "0 < length ts" using Suc.prems(1) by (rule stream_pos)
  consider (tf) "is_kind TTf ts" | (off) "\<not> is_kind TTf ts" "is_tok TOp ''['' ts" | (stop) "\<not> is_kind TTf ts" "\<not> is_tok TOp ''['' ts" by blast
  then show ?case
  proof cases
    case tf
    have t: "stream (tl ts)" "Suc (length (tl ts)) = length ts" using stream_tl_kind [OF Suc.prems(1) tf] by auto
    obtain u r where u: "ts = u # r" "tok_ok u" using Suc.prems(1) by (rule streamE)
    then have "tl (cur_text ts) \<in> set TIMEFRAMES" using tf by (simp add: is_kind_def cur_text_def tok_ok_def)
    then have w: "wf_node (with_tf (tl (cur_text ts)) a)" by (rule wf_with_tf [OF Suc.prems(5)])
    have "outcome N M wf_node (suffixes n so True (with_tf (tl (cur_text ts)) a) (tl ts))"
      by (rule Suc.IH [OF t(1) _ _ _ w]) (use t(2) Suc.prems(2-4) in simp_all)
    then show ?thesis using tf pos Suc.prems(3) by (subst suffixes.simps) simp
  next
    case off
    have "outcome N M wf_node (rbind (offset_suffix so ts) (\<lambda>(off, r). suffixes n True st (with_offset off a) r))"
    proof (rule outcome_bind [OF offset_suffix_outcome [OF Suc.prems(1) off(2) Suc.prems(3)]], unfold case_prod_conv)
      fix k :: int and r
      assume r: "stream r" "length r < length ts" "0 \<le> k \<and> k \<le> 9999"
      show "outcome N M wf_node (suffixes n True st (with_offset k a) r)"
        by (rule Suc.IH [OF r(1) _ _ _ wf_with_offset [OF Suc.prems(5)]]) (use r Suc.prems(2-4) in simp_all)
    qed
    then show ?thesis using off by (subst suffixes.simps) simp
  next
    case stop
    then show ?thesis using Suc.prems by (subst suffixes.simps) simp
  qed
qed

lemma atom_wf: "tok_ok t \<Longrightarrow> atom_node t = Some a \<Longrightarrow> wf_node a \<and> is_literal a"
  by (cases "tk_kind t") (auto simp: atom_node_def tok_ok_def is_literal_def split: if_splits)

lemma atom_kind: "atom_node t = Some a \<Longrightarrow> tk_kind t \<noteq> TEof"
  by (auto simp: atom_node_def)

lemma neg_num_outcome:
  "stream ts \<Longrightarrow> is_tok TOp ''-'' ts \<Longrightarrow> is_kind TNum (tl ts)
    \<Longrightarrow> outcome N (length ts) (\<lambda>a. is_literal a \<and> wf_node a) (neg_num ts)"
proof -
  assume a: "stream ts" "is_tok TOp ''-'' ts" "is_kind TNum (tl ts)"
  have t: "stream (tl ts)" "Suc (length (tl ts)) = length ts" using stream_tl_tok [OF a(1,2)] by auto
  have "stream (tl (tl ts))" "Suc (length (tl (tl ts))) = length (tl ts)" using stream_tl_kind [OF t(1) a(3)] by auto
  then show ?thesis using t by (simp add: neg_num_def is_literal_def)
qed

lemma good_literal: "good (\<lambda>a. is_literal a \<and> wf_node a) literal"
proof (rule goodI)
  fix ts
  assume ts: "stream ts"
  show "outcome (length ts) (length ts) (\<lambda>a. is_literal a \<and> wf_node a) (literal ts)"
  proof (cases "neg_num_ahead ts")
    case True
    then show ?thesis using neg_num_outcome [OF ts] by (simp add: literal_def neg_num_ahead_def)
  next
    case False
    obtain t r where t: "ts = t # r" "tok_ok t" "tk_kind t = TEof \<or> stream r" using ts by (rule streamE)
    then show ?thesis using False atom_wf [OF t(2)] atom_kind [of t] by (auto simp: literal_def split: option.split)
  qed
qed

section \<open>The grammar\<close>

lemma wf_group: "list_all wf_node xs \<Longrightarrow> 1 \<le> length xs \<Longrightarrow> op \<in> {''ALL'', ''ANY''} \<Longrightarrow> wf_node (group_of op xs)"
  by (auto simp: group_of_def Suc_le_eq numeral_2_eq_2 split: list.split)

lemma good_group:
  assumes "good wf_node p" "op \<in> {''ALL'', ''ANY''}" "k \<noteq> TEof"
  shows "good wf_node (\<lambda>ts. map_fst_res (group_of op) (items_of p (is_tok k x) ts))"
proof (rule goodI, rule outcome_map)
  fix ts
  assume ts: "stream ts"
  show "outcome (length ts) (length ts) (\<lambda>xs. list_all wf_node xs \<and> 1 \<le> length xs) (items_of p (is_tok k x) ts)"
    by (rule goodD [OF good_items_of [OF assms(1)] ts]) (rule stream_tl_tok [OF _ _ assms(3)])
qed (rule wf_group [OF _ _ assms(2)], simp_all)

lemma good_or_expr: "(\<And>e. d = Suc e \<Longrightarrow> good wf_node (and_expr e)) \<Longrightarrow> good wf_node (or_expr d)"
proof (cases d)
  case 0
  then show ?thesis by (auto simp: or_expr.simps stream_def intro!: goodI)
next
  case (Suc e)
  assume "\<And>e. d = Suc e \<Longrightarrow> good wf_node (and_expr e)"
  then have "good wf_node (and_expr e)" using Suc by blast
  from good_group [OF this, of "''ANY''" TKw "''OR''"] show ?thesis by (simp add: Suc or_expr.simps [of "Suc e", abs_def])
qed

lemma good_and_expr: "good wf_node (not_expr d) \<Longrightarrow> good wf_node (and_expr d)"
  using good_group [of "not_expr d" "''ALL''" TKw "''AND''"] by (simp add: and_expr.simps [abs_def])

text \<open>\<open>NOT\<close> and \<open>-\<close>: a prefix token, one level deeper.\<close>

lemma prefix_outcome:
  assumes ts: "stream ts" "is_tok k x ts" "k \<noteq> TEof" and p: "\<And>e. d = Suc e \<Longrightarrow> good wf_node (p e)"
    and f: "\<And>a. wf_node a \<Longrightarrow> wf_node (f a)"
  shows "outcome (length ts) (length ts) wf_node (case d of 0 \<Rightarrow> fail_at (tl ts) TooDeep | Suc e \<Rightarrow> map_fst_res f (p e (tl ts)))"
proof (cases d)
  case 0
  then show ?thesis using stream_tl_tok [OF ts] stream_pos [of "tl ts"] by auto
next
  case (Suc e)
  have "outcome (length ts) (length ts) wf_node (map_fst_res f (p e (tl ts)))"
    by (rule outcome_map [OF good_at [OF p [OF Suc]]]) (use stream_tl_tok [OF ts] f in auto)
  then show ?thesis by (simp add: Suc)
qed

lemma good_not_expr:
  assumes "\<And>e. d = Suc e \<Longrightarrow> good wf_node (not_expr e)" "good wf_node (comparison d)"
  shows "good wf_node (not_expr d)"
proof (rule goodI)
  fix ts
  assume ts: "stream ts"
  show "outcome (length ts) (length ts) wf_node (not_expr d ts)"
  proof (cases "is_tok TKw ''NOT'' ts")
    case True
    then show ?thesis using prefix_outcome [OF ts True, of d not_expr NNot] assms(1) by (simp add: not_expr.simps [of d])
  qed (simp add: not_expr.simps [of d] goodD [OF assms(2) ts])
qed

lemma good_unary:
  assumes "\<And>e. d = Suc e \<Longrightarrow> good wf_node (unary e)" "good wf_node (postfix d)"
  shows "good wf_node (unary d)"
proof (rule goodI)
  fix ts
  assume ts: "stream ts"
  show "outcome (length ts) (length ts) wf_node (unary d ts)"
  proof (cases "is_tok TOp ''-'' ts")
    case True
    have "outcome (length ts) (length ts) wf_node (neg_num ts)" if "is_kind TNum (tl ts)"
      using neg_num_outcome [OF ts True that, of "length ts"] by (auto simp: outcome_def split: sum.splits)
    then show ?thesis using True prefix_outcome [OF ts True, of d unary "NUnary ''-''"] assms(1) by (simp add: unary.simps [of d])
  qed (simp add: unary.simps [of d] goodD [OF assms(2) ts])
qed

lemma good_tterm: "good wf_node (unary d) \<Longrightarrow> good wf_node (tterm d)"
  using good_binary [of "unary d" "[''*'', ''/'']"] by (simp add: tterm.simps [abs_def] ARITH_OPS_def)

lemma good_additive: "good wf_node (tterm d) \<Longrightarrow> good wf_node (additive d)"
  using good_binary [of "tterm d" "[''+'', ''-'']"] by (simp add: additive.simps [abs_def] ARITH_OPS_def)

lemma good_postfix:
  assumes "good wf_node (primary d)"
  shows "good wf_node (postfix d)"
proof (rule goodI)
  fix ts
  assume ts: "stream ts"
  show "outcome (length ts) (length ts) wf_node (postfix d ts)"
    unfolding postfix.simps [of d]
    by (rule outcome_bind [OF goodD [OF assms ts]]) (auto simp: suffixes_outcome dest: stream_pos)
qed

lemma good_comparison:
  assumes p: "good wf_node (additive d)"
  shows "good wf_node (comparison d)"
proof (rule goodI)
  fix ts
  assume ts: "stream ts"
  let ?N = "length ts"
  note at = good_at [OF p]
  show "outcome ?N ?N wf_node (comparison d ts)"
    unfolding comparison.simps [of d]
  proof (rule outcome_bind [OF goodD [OF p ts]], unfold case_prod_conv)
    fix a r
    assume r: "stream r" "length r < ?N" "wf_node a"
    have cmp: "outcome ?N ?N wf_node (map_fst_res (NCompare (cur_text r) a) (additive d (tl r)))"
      if "is_kind TOp r \<and> cur_text r \<in> set COMPARE_OPS"
      by (rule outcome_map [OF at]) (use that r stream_tl_kind [OF r(1), of TOp] in auto)
    have btw: "outcome ?N ?N wf_node (rbind (additive d (tl r)) (\<lambda>(lo, r2).
         rbind (expect TKw ''AND'' ''AND (in BETWEEN low AND high)'' r2) (\<lambda>r3. map_fst_res (NBetween a lo) (additive d r3))))"
      if k: "is_tok TKw ''BETWEEN'' r"
    proof (rule outcome_bind [OF at [of "tl r" ?N ?N]], unfold case_prod_conv)
      fix lo r2
      assume r2: "stream r2" "length r2 < ?N" "wf_node lo"
      show "outcome ?N ?N wf_node (rbind (expect TKw ''AND'' ''AND (in BETWEEN low AND high)'' r2) (\<lambda>r3. map_fst_res (NBetween a lo) (additive d r3)))"
        by (rule expect_bind [OF r2(1)], simp, use r2 in simp, rule outcome_map [OF at]) (use r r2 in simp_all)
    qed (use k r stream_tl_tok [OF r(1) k] in auto)
    have isin: "outcome ?N ?N wf_node (rbind (expect TOp ''('' ''('' (tl r)) (\<lambda>r2.
         rbind (items_of literal (is_tok TOp '','') r2) (\<lambda>(items, r3).
         rbind (expect TOp '')'' '')'' r3) (\<lambda>r4. Inr (NIn a items, r4)))))"
      if k: "is_tok TKw ''IN'' r"
    proof (rule expect_bind)
      show "stream (tl r)" "length (tl r) \<le> ?N" using stream_tl_tok [OF r(1) k] r(2) by auto
      fix r2
      assume r2: "stream r2" "Suc (length r2) = length (tl r)"
      have "good (\<lambda>xs. list_all (\<lambda>a. is_literal a \<and> wf_node a) xs \<and> 1 \<le> length xs) (items_of literal (is_tok TOp '',''))"
        by (rule good_items_of [OF good_literal]) (auto dest: stream_tl_tok)
      then have "outcome ?N ?N (\<lambda>xs. list_all (\<lambda>a. is_literal a \<and> wf_node a) xs \<and> 1 \<le> length xs) (items_of literal (is_tok TOp '','') r2)"
        by (rule good_at) (use r r2 in simp_all)
      then show "outcome ?N ?N wf_node (rbind (items_of literal (is_tok TOp '','') r2) (\<lambda>(items, r3).
         rbind (expect TOp '')'' '')'' r3) (\<lambda>r4. Inr (NIn a items, r4))))"
        by (rule outcome_bind, unfold case_prod_conv, intro expect_bind) (use r in auto)
    qed simp
    show "outcome ?N ?N wf_node (if is_kind TOp r \<and> cur_text r \<in> set COMPARE_OPS then map_fst_res (NCompare (cur_text r) a) (additive d (tl r))
       else if is_tok TKw ''BETWEEN'' r then
         rbind (additive d (tl r)) (\<lambda>(lo, r2).
         rbind (expect TKw ''AND'' ''AND (in BETWEEN low AND high)'' r2) (\<lambda>r3. map_fst_res (NBetween a lo) (additive d r3)))
       else if is_tok TKw ''IN'' r then
         rbind (expect TOp ''('' ''('' (tl r)) (\<lambda>r2.
         rbind (items_of literal (is_tok TOp '','') r2) (\<lambda>(items, r3).
         rbind (expect TOp '')'' '')'' r3) (\<lambda>r4. Inr (NIn a items, r4))))
       else Inr (a, r))"
      using cmp btw isin r by simp
  qed
qed

lemma args_loop_outcome:
  assumes p: "good wf_node p"
  shows "stream ts \<Longrightarrow> length ts < n \<Longrightarrow> length ts \<le> N \<Longrightarrow> length ts < M \<Longrightarrow> 0 < length nm \<Longrightarrow> length nm \<le> N
    \<Longrightarrow> list_all wf_node args \<Longrightarrow> list_all (\<lambda>kv. name_ok (fst kv) \<and> wf_node (snd kv)) kwargs \<Longrightarrow> distinct (map fst kwargs)
    \<Longrightarrow> outcome N M (\<lambda>(a, k). list_all wf_node a \<and> list_all (\<lambda>kv. name_ok (fst kv) \<and> wf_node (snd kv)) k \<and> distinct (map fst k))
          (args_loop n p nm args kwargs ts)"
proof (induction n arbitrary: ts args kwargs)
  case (Suc n)
  let ?Q = "\<lambda>(a, k). list_all wf_node a \<and> list_all (\<lambda>kv. name_ok (fst kv) \<and> wf_node (snd kv)) k \<and> distinct (map fst k)"
  let ?first = "if kwarg_ahead ts then
              (if cur_text ts \<in> set (map fst kwargs) then fail_at nm (ArgumentTwice (cur_text ts))
               else rbind (p (tl (tl ts))) (\<lambda>(v, r). Inr ((args, kwargs @ [(cur_text ts, v)]), r)))
            else if kwargs \<noteq> [] then fail_at ts PositionalAfterNamed
            else rbind (p ts) (\<lambda>(v, r). Inr ((args @ [v], kwargs), r))"
  have first: "outcome N (length ts) ?Q ?first"
  proof (cases "kwarg_ahead ts")
    case True
    then have k: "is_kind TName ts" "is_tok TOp ''='' (tl ts)" by (simp_all add: kwarg_ahead_def)
    have t: "stream (tl ts)" "Suc (length (tl ts)) = length ts" using stream_tl_kind [OF Suc.prems(1) k(1)] by auto
    have t2: "stream (tl (tl ts))" "Suc (length (tl (tl ts))) = length (tl ts)" using stream_tl_tok [OF t(1) k(2)] by auto
    obtain u r where u: "ts = u # r" "tok_ok u" using Suc.prems(1) by (rule streamE)
    then have nm: "name_ok (cur_text ts)" using k(1) by (simp add: is_kind_def cur_text_def tok_ok_def)
    have "outcome N (length ts) ?Q (rbind (p (tl (tl ts))) (\<lambda>(v, r). Inr ((args, kwargs @ [(cur_text ts, v)]), r)))"
      if "cur_text ts \<notin> set (map fst kwargs)"
      by (rule outcome_bind [OF good_at [OF p t2(1), of N "length ts"]]) (use that nm t t2 Suc.prems in auto)
    then show ?thesis using True Suc.prems(5,6) by simp
  next
    case False
    have "outcome N (length ts) ?Q (rbind (p ts) (\<lambda>(v, r). Inr ((args @ [v], kwargs), r)))"
      by (rule outcome_bind [OF good_at [OF p Suc.prems(1,3), of "length ts"]]) (use Suc.prems in auto)
    then show ?thesis using False Suc.prems(3) stream_pos [OF Suc.prems(1)] by auto
  qed
  have "outcome N M ?Q (rbind ?first (\<lambda>((args', kwargs'), r).
              if is_tok TOp '','' r then args_loop n p nm args' kwargs' (tl r) else Inr ((args', kwargs'), r)))"
  proof (rule outcome_bind [OF first])
    fix x r
    assume r: "stream r" "length r < length ts" "?Q x"
    obtain a k where x: "x = (a, k)" by fastforce
    have "outcome N M ?Q (args_loop n p nm a k (tl r))" if c: "is_tok TOp '','' r"
      by (rule Suc.IH) (use r x Suc.prems stream_tl_tok [OF r(1) c] in auto)
    then show "outcome N M ?Q ((\<lambda>((args', kwargs'), r).
        if is_tok TOp '','' r then args_loop n p nm args' kwargs' (tl r) else Inr ((args', kwargs'), r)) (x, r))"
      using r x Suc.prems(4) by simp
  qed
  then show ?case by (subst args_loop.simps) simp
qed simp

lemma call_node_wf:
  assumes "name_ok f" "list_all wf_node args" "list_all (\<lambda>kv. name_ok (fst kv) \<and> wf_node (snd kv)) kwargs" "distinct (map fst kwargs)"
    "stream r" "length r < M" "0 < length nm" "length nm \<le> N"
  shows "outcome N M wf_node (rbind (call_node nm f args kwargs) (\<lambda>n. Inr (n, r)))"
proof (cases "py_upper f \<in> {''ALL'', ''ANY''} \<and> kwargs = []")
  case True
  then have "args = [] \<or> wf_node (group_of (py_upper f) args)" using wf_group [OF assms(2)] by (cases args) auto
  then show ?thesis using True assms by (auto simp: call_node_def fail_at_def outcome_def)
next
  case False
  then show ?thesis using assms by (auto simp: call_node_def suffix_ok_def)
qed

lemma good_primary:
  assumes p: "\<And>e. d = Suc e \<Longrightarrow> good wf_node (or_expr e)" and q: "good wf_node (or_expr d)"
  shows "good wf_node (primary d)"
proof (rule goodI)
  fix ts
  assume ts: "stream ts"
  let ?N = "length ts"
  obtain t r where t: "ts = t # r" "tok_ok t" "tk_kind t = TEof \<or> stream r" using ts by (rule streamE)
  have "atom_node t = None \<or> (\<exists>a. atom_node t = Some a)" by (cases "atom_node t") auto
  then consider (atom) a where "atom_node t = Some a" | (name) "atom_node t = None" "tk_kind t = TName"
    | (paren) "atom_node t = None" "t = Tok TOp ''(''" | (other) "atom_node t = None" "tk_kind t \<noteq> TName" "t \<noteq> Tok TOp ''(''"
    by blast
  then show "outcome ?N ?N wf_node (primary d ts)"
  proof cases
    case atom
    then show ?thesis using t atom_wf [OF t(2) atom] atom_kind [OF atom] by (simp add: primary.simps [of d])
  next
    case name
    have nm: "name_ok (tk_text t)" using t(2) name(2) by (simp add: tok_ok_def)
    have r: "stream r" using t(3) name(2) by simp
    show ?thesis
    proof (cases "is_tok TOp ''('' r")
      case False
      then show ?thesis using name t(1) nm r by (simp add: primary.simps [of d] suffix_ok_def)
    next
      case True
      have r1: "stream (tl r)" "Suc (length (tl r)) = length r" using stream_tl_tok [OF r True] by auto
      show ?thesis
      proof (cases d)
        case 0
        then show ?thesis using name True t(1) r1 stream_pos [OF r1(1)] by (simp add: primary.simps [of 0])
      next
        case (Suc e)
        let ?args = "if is_tok TOp '')'' (tl r) then Inr (([], []), tl r) else args_loop (Suc (length r)) (or_expr e) ts [] [] (tl r)"
        have args: "outcome ?N ?N (\<lambda>(a, k). list_all wf_node a \<and> list_all (\<lambda>kv. name_ok (fst kv) \<and> wf_node (snd kv)) k
            \<and> distinct (map fst k)) ?args"
          using args_loop_outcome [OF p [OF Suc] r1(1), of "Suc (length r)" ?N ?N ts "[]" "[]"] r1 t(1) by simp
        have "outcome ?N ?N wf_node (rbind ?args (\<lambda>((args, kwargs), r3). rbind (expect TOp '')'' '')'' r3) (\<lambda>r4.
            rbind (call_node ts (tk_text t) args kwargs) (\<lambda>n. Inr (n, r4)))))"
        proof (rule outcome_bind [OF args])
          fix x r3
          assume r3: "stream r3" "length r3 < ?N" "case x of (a, k) \<Rightarrow> list_all wf_node a
            \<and> list_all (\<lambda>kv. name_ok (fst kv) \<and> wf_node (snd kv)) k \<and> distinct (map fst k)"
          obtain a k where x: "x = (a, k)" by fastforce
          show "outcome ?N ?N wf_node ((\<lambda>((args, kwargs), r3). rbind (expect TOp '')'' '')'' r3) (\<lambda>r4.
            rbind (call_node ts (tk_text t) args kwargs) (\<lambda>n. Inr (n, r4)))) (x, r3))"
            unfolding x case_prod_conv
            by (rule expect_bind [OF r3(1)], simp, use r3 in simp, rule call_node_wf) (use nm r3 x t(1) in auto)
        qed
        then show ?thesis unfolding t(1) Suc primary.simps [of "Suc e"] using name True by simp
      qed
    qed
  next
    case paren
    then have r: "stream r" using t(3) by simp
    have "outcome ?N ?N wf_node (rbind (or_expr d r) (\<lambda>(a, r2). rbind (expect TOp '')'' '')'' r2) (\<lambda>r3. Inr (a, r3))))"
      by (rule outcome_bind [OF good_at [OF q r, of ?N ?N]], use t(1) in simp, use t(1) in simp, unfold case_prod_conv, rule expect_bind) auto
    then show ?thesis using paren t(1) by (simp add: primary.simps [of d])
  next
    case other
    then show ?thesis using t(1) by (simp add: primary.simps [of d])
  qed
qed

lemmas levels_good = good_and_expr good_not_expr good_comparison good_additive good_tterm good_unary good_postfix

lemma all_good: "good wf_node (or_expr d) \<and> good wf_node (and_expr d) \<and> good wf_node (not_expr d) \<and> good wf_node (unary d)"
proof (induction d)
  case 0
  have o: "good wf_node (or_expr 0)" by (rule good_or_expr) simp
  have u: "good wf_node (unary 0)" by (rule good_unary [OF _ good_postfix [OF good_primary [OF _ o]]]) simp_all
  have n: "good wf_node (not_expr 0)" by (rule good_not_expr [OF _ good_comparison [OF good_additive [OF good_tterm [OF u]]]]) simp
  then show ?case using o u good_and_expr [OF n] by simp
next
  case (Suc d)
  have o: "good wf_node (or_expr (Suc d))" by (rule good_or_expr) (use Suc in simp)
  have u: "good wf_node (unary (Suc d))" by (rule good_unary [OF _ good_postfix [OF good_primary [OF _ o]]]) (use Suc in simp_all)
  have n: "good wf_node (not_expr (Suc d))"
    by (rule good_not_expr [OF _ good_comparison [OF good_additive [OF good_tterm [OF u]]]]) (use Suc in simp)
  then show ?case using o u good_and_expr [OF n] by simp
qed

section \<open>The tokenizer gives a stream\<close>

lemma takeWhile_ident: "s \<noteq> [] \<Longrightarrow> ident_start (hd s) \<Longrightarrow> ident (takeWhile ident_char s)"
  by (cases s) (auto simp: ident_def ident_start_def ident_char_def list_all_iff dest: set_takeWhileD)

lemma lex_one_tok: "lex_one s = Some (Some t, r) \<Longrightarrow> tok_ok t"
  using takeWhile_ident [of s] takeWhile_ident [of "tl s"]
  by (auto simp: lex_one_def tok_ok_def name_tok_def name_ok_def split: list.splits if_splits prod.splits option.splits)

lemma lex_stream: "lex i s = Inr tps \<Longrightarrow> stream (map fst tps) \<and> (\<forall>tp\<in>set tps. snd tp \<le> i + length s)"
proof (induction i s arbitrary: tps rule: lex.induct)
  case (1 i s)
  show ?case
  proof (cases "s = []")
    case True
    then show ?thesis using 1(2) by (auto simp: lex.simps [of i "[]"] stream_def tok_ok_def)
  next
    case False
    then obtain t rest where l: "lex_one s = Some (t, rest)" using 1(2) by (auto simp: lex.simps [of i s] split: option.splits)
    then obtain ts where ts: "lex (i + (length s - length rest)) rest = Inr ts" "tps = (case t of None \<Rightarrow> ts | Some tk \<Rightarrow> (tk, i) # ts)"
      using 1(2) False by (auto simp: lex.simps [of i s] rbind_Inr_iff)
    have "length rest < length s" using l by (rule lex_one_shorter)
    then have "stream (map fst ts)" "\<forall>tp\<in>set ts. snd tp \<le> i + length s" using 1(1) [OF False l refl ts(1)] by auto
    then show ?thesis using ts(2) lex_one_tok l by (cases t) (auto simp: stream_def)
  qed
qed

lemma lex_error: "lex i s = Inl (e, k) \<Longrightarrow> proper e \<and> k \<le> i + length s"
proof (induction i s rule: lex.induct)
  case (1 i s)
  show ?case
  proof (cases "lex_one s")
    case None
    then show ?thesis using 1(2) by (auto simp: lex.simps [of i s] split: if_splits)
  next
    case (Some x)
    obtain t rest where x: "lex_one s = Some (t, rest)" "x = (t, rest)" using Some by (cases x) auto
    then have s: "s \<noteq> []" by (auto simp: lex_one_def)
    have "length rest < length s" using x(1) by (rule lex_one_shorter)
    moreover have "lex (i + (length s - length rest)) rest = Inl (e, k)"
      using 1(2) s x by (auto simp: lex.simps [of i s] rbind_def split: sum.splits)
    ultimately show ?thesis using 1(1) [OF s x(1) refl] by auto
  qed
qed

text \<open>
  C30. \<open>parse\<close> is total on every text: either it raises \<open>ScreenQLSyntaxError\<close> with a position inside the
  text (never an \<open>IndexError\<close> from reading past the tokens, and no loop runs on), or it returns a
  well-formed tree: operators of the language, names that are identifiers and no keywords, known
  timeframes, offsets from 0 to 9999, at least two conditions in a group, literals in an \<open>IN\<close> list and
  distinct named arguments.
\<close>
theorem parse_total:
  "case parse s of Inl (e, pos) \<Rightarrow> e \<noteq> NoToken \<and> e \<noteq> OutOfFuel \<and> pos \<le> length s | Inr n \<Rightarrow> wf_node n"
proof (cases "py_strip s = [] \<or> MAX_TEXT < length s")
  case True
  then show ?thesis by (auto simp: parse_def tokenize_def)
next
  case False
  show ?thesis
  proof (cases "lex 0 s")
    case (Inl x)
    then show ?thesis using False lex_error [of 0 s "fst x" "snd x"] by (auto simp: parse_def tokenize_def proper_def)
  next
    case (Inr tps)
    have st: "stream (map fst tps)" "\<forall>tp\<in>set tps. snd tp \<le> length s" using lex_stream [OF Inr] by auto
    have o: "outcome (length tps) (length tps) wf_node (or_expr MAX_DEPTH (map fst tps))" 
      using goodD [OF conjunct1 [OF all_good] st(1)] by simp
    have "case screen (map fst tps) of Inl (e, k) \<Rightarrow> proper e \<and> 0 < k \<and> k \<le> length tps | Inr n \<Rightarrow> wf_node n"
      using o stream_pos by (cases "or_expr MAX_DEPTH (map fst tps)") (auto simp: screen_def outcome_def fail_at_def)
    moreover have "snd (tps ! (length tps - k)) \<le> length s" if "0 < k" "k \<le> length tps" for k
      using st(2) that by simp
    ultimately show ?thesis using False Inr by (auto simp: parse_def tokenize_def proper_def split: sum.splits)
  qed
qed

end
