(* ===== verification/ScreenValidator.thy ===== *)
theory ScreenValidator
  imports ScreenParser
begin

text \<open>
  The validator that runs before every screen, \<open>app/screener/validator.py\<close>, over the signatures of
  \<open>app/screener/registry.py\<close>. The registry's functions are an argument (a list of \<open>Spec\<close>s, keyed by
  their names as the source keys its dict), so what is proved holds for every registry. The checker
  is a state: its methods take the state and return an exception or a value and the new state. A
  refusal is recorded with its \<open>kind\<close> and \<open>names\<close>; the message text, which repeats them in words,
  and the position are left out. The identity of a node (\<open>id(inner)\<close>) is its path from the root.
\<close>

section \<open>Python values\<close>

text \<open>The number a value is, with \<open>True\<close> as 1: for \<open>==\<close> and \<open><\<close>, exact between ints and floats.\<close>

fun num_of :: "json \<Rightarrow> pynum option" where
  "num_of (JBool b) = Some (Fin (if b then 1 else 0))"
| "num_of (JInt n) = Some (Fin (of_int n))"
| "num_of (JFloat x) = Some x"
| "num_of _ = None"

definition num_eq :: "pynum \<Rightarrow> pynum \<Rightarrow> bool" where
  "num_eq x y = (x \<noteq> NaN \<and> x = y)"

fun num_less :: "pynum \<Rightarrow> pynum \<Rightarrow> bool" where
  "num_less (Fin x) (Fin y) = (x < y)"
| "num_less (Fin x) PInf = True"
| "num_less NInf (Fin y) = True"
| "num_less NInf PInf = True"
| "num_less _ _ = False"

lemma zip_fst_size [termination_simp]: "(a, b) \<in> set (zip xs ys) \<Longrightarrow> size a < Suc (size_list size xs)"
  by (auto dest!: set_zip_leftD intro: le_imp_less_Suc size_list_estimation')

fun py_eq :: "json \<Rightarrow> json \<Rightarrow> bool" where
  "py_eq JNull b = (b = JNull)"
| "py_eq (JStr s) b = (b = JStr s)"
| "py_eq (JList xs) b = (case b of JList ys \<Rightarrow> length xs = length ys \<and> list_all (\<lambda>(x, y). py_eq x y) (zip xs ys) | _ \<Rightarrow> False)"
| "py_eq (JObj xs) b = (case b of
     JObj ys \<Rightarrow> length xs = length ys
       \<and> list_all (\<lambda>kv. case map_of ys (fst kv) of None \<Rightarrow> False | Some y \<Rightarrow> py_eq (snd kv) y) xs
   | _ \<Rightarrow> False)"
| "py_eq a b = (case (num_of a, num_of b) of (Some x, Some y) \<Rightarrow> num_eq x y | _ \<Rightarrow> False)"

text \<open>\<open>isinstance(v, (int, float)) and not isinstance(v, bool)\<close>.\<close>

definition is_number :: "json \<Rightarrow> bool" where
  "is_number v = (case v of JInt _ \<Rightarrow> True | JFloat _ \<Rightarrow> True | _ \<Rightarrow> False)"

text \<open>\<open>float(v)\<close> of a number: an int too large for a float raises.\<close>

definition py_float :: "json \<Rightarrow> py_error + pynum" where
  "py_float v = (case v of
      JInt n \<Rightarrow> (case pynum_of (of_int n) of Fin x \<Rightarrow> Inr (Fin x) | _ \<Rightarrow> Inl OverflowError)
    | JFloat x \<Rightarrow> Inr x
    | JBool b \<Rightarrow> Inr (Fin (if b then 1 else 0))
    | _ \<Rightarrow> Inl TypeError)"

text \<open>The regular expressions of the registry's text forms, matched in full.\<close>

datatype regex = RNone | REmpty | RRange char char | RSeq regex regex | RAlt regex regex

fun nullable :: "regex \<Rightarrow> bool" where
  "nullable RNone = False"
| "nullable REmpty = True"
| "nullable (RRange a b) = False"
| "nullable (RSeq r s) = (nullable r \<and> nullable s)"
| "nullable (RAlt r s) = (nullable r \<or> nullable s)"

fun deriv :: "char \<Rightarrow> regex \<Rightarrow> regex" where
  "deriv c RNone = RNone"
| "deriv c REmpty = RNone"
| "deriv c (RRange a b) = (if a \<le> c \<and> c \<le> b then REmpty else RNone)"
| "deriv c (RSeq r s) = (if nullable r then RAlt (RSeq (deriv c r) s) (deriv c s) else RSeq (deriv c r) s)"
| "deriv c (RAlt r s) = RAlt (deriv c r) (deriv c s)"

fun fullmatch :: "regex \<Rightarrow> string \<Rightarrow> bool" where
  "fullmatch r [] = nullable r"
| "fullmatch r (c # cs) = fullmatch (deriv c r) cs"

definition HHMM :: regex where
  "HHMM = RSeq (RAlt (RSeq (RRange CHR ''0'' CHR ''1'') (RRange CHR ''0'' CHR ''9''))
                      (RSeq (RRange CHR ''2'' CHR ''2'') (RRange CHR ''0'' CHR ''3'')))
            (RSeq (RRange CHR '':'' CHR '':'') (RSeq (RRange CHR ''0'' CHR ''5'') (RRange CHR ''0'' CHR ''9'')))"

section \<open>The registry\<close>

abbreviation (input) T_NUM :: string where "T_NUM \<equiv> ''num''"
abbreviation (input) T_BOOL :: string where "T_BOOL \<equiv> ''bool''"
abbreviation (input) T_CAT :: string where "T_CAT \<equiv> ''cat''"
abbreviation (input) T_STR :: string where "T_STR \<equiv> ''str''"

definition MAX_WINDOW :: int where "MAX_WINDOW = 500"
definition MAX_OFFSET :: int where "MAX_OFFSET = 500"
definition DEFAULT_COST_CAP :: pyfloat where "DEFAULT_COST_CAP = 200"

definition ANY_UNIT :: "string option" where "ANY_UNIT = Some ''any''"

record arg =
  a_name :: string
  a_type :: string
  a_default :: json
  a_required :: bool
  a_choices :: "json list"
  a_literal_only :: bool
  a_bounds :: "(pyfloat \<times> pyfloat) option"
  a_pattern :: "regex option"

record spec =
  sp_name :: string
  sp_kind :: string
  sp_returns :: string
  sp_unit :: "string option"
  sp_args :: "arg list"
  sp_kwargs :: "arg list"
  sp_varargs :: bool
  sp_cost :: pyfloat
  sp_timeframed :: bool
  sp_cross_sectional :: bool
  sp_same_unit_args :: "nat list"
  sp_extra_bars :: int
  sp_min_bars :: int
  sp_values :: "string list"
  sp_price_args :: "nat list"
  sp_degree_min_bars :: "int list"
  sp_timeframes :: "string list"
  sp_window_bars :: "(string \<times> int) list"
  sp_window_sum :: bool
  sp_min_sessions :: int
  sp_sessions_arg :: "string option"
  sp_tf_multiple_args :: "string list"
  sp_fetch_degree_bars :: "int list"
  sp_choice_extra_bars :: "(string \<times> json \<times> int) list"
  sp_ordered_args :: "(string \<times> string \<times> bool) list"
  sp_kwarg_degree_bars :: "(string \<times> int list) list"
  sp_window_mult :: int

text \<open>\<open>Arg(name, type)\<close> and \<open>Spec(name, kind, returns, unit)\<close> with the defaults of the dataclasses.\<close>

definition new_arg :: "string \<Rightarrow> string \<Rightarrow> arg" where
  "new_arg nm ty = \<lparr>a_name = nm, a_type = ty, a_default = JNull, a_required = True, a_choices = [], a_literal_only = False,
     a_bounds = None, a_pattern = None\<rparr>"

definition new_spec :: "string \<Rightarrow> string \<Rightarrow> string \<Rightarrow> string option \<Rightarrow> spec" where
  "new_spec nm kd rt un = \<lparr>sp_name = nm, sp_kind = kd, sp_returns = rt, sp_unit = un, sp_args = [], sp_kwargs = [], sp_varargs = False,
     sp_cost = 1, sp_timeframed = True, sp_cross_sectional = False, sp_same_unit_args = [], sp_extra_bars = 0, sp_min_bars = 0,
     sp_values = [], sp_price_args = [], sp_degree_min_bars = [], sp_timeframes = [], sp_window_bars = [], sp_window_sum = False,
     sp_min_sessions = 0, sp_sessions_arg = None, sp_tf_multiple_args = [], sp_fetch_degree_bars = [], sp_choice_extra_bars = [],
     sp_ordered_args = [], sp_kwarg_degree_bars = [], sp_window_mult = 1\<rparr>"

definition lookup :: "spec list \<Rightarrow> string \<Rightarrow> spec option" where
  "lookup fs nm = find (\<lambda>s. sp_name s = nm) fs"

definition FIELDS :: "spec list" where
  "FIELDS = [new_spec ''open'' ''factor'' T_NUM (Some ''price''), new_spec ''high'' ''factor'' T_NUM (Some ''price''),
     new_spec ''low'' ''factor'' T_NUM (Some ''price''), new_spec ''close'' ''factor'' T_NUM (Some ''price''),
     new_spec ''volume'' ''factor'' T_NUM (Some ''volume''), new_spec ''oi'' ''factor'' T_NUM (Some ''contracts'')]"

definition NEUTRAL_PATTERNS :: "string list" where
  "NEUTRAL_PATTERNS = [''doji'', ''inside_bar'']"

definition READS_HISTORY :: "string list" where
  "READS_HISTORY = [''SMA'', ''EMA'', ''Max'', ''Min'', ''Count'', ''CountStreak'', ''CrossAbove'', ''CrossBelow'', ''PctChange'',
     ''ZScore'', ''Lag'', ''StDev'', ''TMA'']"

definition last_bar_only :: "spec list \<Rightarrow> string \<Rightarrow> bool" where
  "last_bar_only all nm = (case lookup all nm of None \<Rightarrow> False | Some s \<Rightarrow> \<not> sp_timeframed s \<and> \<not> sp_varargs s)"

section \<open>The checker's state\<close>

datatype problem = Problem (p_kind: string) (p_names: "(string \<times> string) list")

record validated =
  ok :: bool
  problems :: "problem list"
  timeframes :: "string list"
  lookback :: "(string, int) dict"
  fetch_lookback :: "(string, int) dict"
  cost :: pyfloat
  cross_sectional :: bool
  params_used :: "string list"
  last_bar_reported :: "nat list list"

record env =
  base_tf :: string
  params :: "(string \<times> json) list"
  strict_units :: bool
  registry :: "spec list"
  all_functions :: "spec list"

type_synonym 'a chk = "validated \<Rightarrow> py_error + 'a \<times> validated"
type_synonym ty = "string \<times> string option"
type_synonym checker = "nat list \<Rightarrow> string \<Rightarrow> ty chk"

definition ret :: "'a \<Rightarrow> 'a chk" where
  "ret x = (\<lambda>s. Inr (x, s))"

definition raise :: "py_error \<Rightarrow> 'a chk" where
  "raise e = (\<lambda>s. Inl e)"

definition cbind :: "'a chk \<Rightarrow> ('a \<Rightarrow> 'b chk) \<Rightarrow> 'b chk" where
  "cbind m f = (\<lambda>s. case m s of Inl e \<Rightarrow> Inl e | Inr (x, s') \<Rightarrow> f x s')"

definition andthen :: "unit chk \<Rightarrow> 'b chk \<Rightarrow> 'b chk" where
  "andthen m k = cbind m (\<lambda>_. k)"

definition upd :: "(validated \<Rightarrow> validated) \<Rightarrow> unit chk" where
  "upd f = (\<lambda>s. Inr ((), f s))"

definition guard :: "bool \<Rightarrow> unit chk \<Rightarrow> unit chk" where
  "guard b m = (if b then m else ret ())"

definition lift_res :: "py_error + 'a \<Rightarrow> 'a chk" where
  "lift_res r = (\<lambda>s. case r of Inl e \<Rightarrow> Inl e | Inr x \<Rightarrow> Inr (x, s))"

fun each :: "('a \<Rightarrow> unit chk) \<Rightarrow> 'a list \<Rightarrow> unit chk" where
  "each f [] = ret ()"
| "each f (x # xs) = andthen (f x) (each f xs)"

fun fold_chk :: "('a \<Rightarrow> 'b \<Rightarrow> 'b chk) \<Rightarrow> 'a list \<Rightarrow> 'b \<Rightarrow> 'b chk" where
  "fold_chk f [] b = ret b"
| "fold_chk f (x # xs) b = cbind (f x b) (fold_chk f xs)"

section \<open>The methods of the checker\<close>

definition err :: "string \<Rightarrow> (string \<times> string) list \<Rightarrow> unit chk" where
  "err kd names = upd (\<lambda>s. s\<lparr>ok := False, problems := problems s @ [Problem kd names]\<rparr>)"

definition add_new :: "'a \<Rightarrow> 'a list \<Rightarrow> 'a list" where
  "add_new x xs = (if x \<in> set xs then xs else xs @ [x])"

definition use_param :: "string \<Rightarrow> unit chk" where
  "use_param nm = upd (\<lambda>s. s\<lparr>params_used := add_new nm (params_used s)\<rparr>)"

definition params_get :: "env \<Rightarrow> string \<Rightarrow> json" where
  "params_get g nm = (case map_of (params g) nm of None \<Rightarrow> JNull | Some v \<Rightarrow> v)"

definition minutes :: "string \<Rightarrow> int chk" where
  "minutes tf = (case map_of TF_MINUTES tf of None \<Rightarrow> raise KeyError | Some m \<Rightarrow> ret m)"

definition tf_of :: "env \<Rightarrow> json \<Rightarrow> string chk" where
  "tf_of g tf = (case tf of
      JStr t \<Rightarrow> (case map_of TF_MINUTES t of
         None \<Rightarrow> andthen (err ''unknown_timeframe'' []) (ret (base_tf g))
       | Some m \<Rightarrow> cbind (minutes (base_tf g)) (\<lambda>b.
           andthen (guard (m < b) (err ''timeframe_finer'' [(''tf'', t), (''base_tf'', base_tf g)])) (ret t)))
    | JList _ \<Rightarrow> raise TypeError
    | JObj _ \<Rightarrow> raise TypeError
    | _ \<Rightarrow> andthen (err ''unknown_timeframe'' []) (ret (base_tf g)))"

definition bump :: "string \<Rightarrow> int \<Rightarrow> (string, int) dict \<Rightarrow> (string, int) dict" where
  "bump tf bars d = dict_set tf (max (case dict_get d tf of None \<Rightarrow> 0 | Some b \<Rightarrow> b) bars) d"

definition need_bars :: "string \<Rightarrow> int \<Rightarrow> unit chk" where
  "need_bars tf bars = upd (\<lambda>s. s\<lparr>timeframes := add_new tf (timeframes s), lookback := bump tf bars (lookback s),
     fetch_lookback := bump tf bars (fetch_lookback s)\<rparr>)"

definition offset_of :: "int \<Rightarrow> int chk" where
  "offset_of off =
     (if off < 0 then andthen (err ''look_ahead'' []) (ret 0)
      else andthen (guard (MAX_OFFSET < off) (err ''offset_range'' [])) (ret off))"

definition window_value :: "string \<Rightarrow> json \<Rightarrow> int chk" where
  "window_value owner v =
     (let bad = andthen (err ''window_range'' [(''function'', owner)]) (ret 1) in
      if \<not> is_number v then bad
      else cbind (lift_res (py_float v)) (\<lambda>f.
           cbind (lift_res (py_int v)) (\<lambda>k.
             if \<not> num_eq f (Fin (of_int k)) \<or> \<not> (1 \<le> k \<and> k \<le> MAX_WINDOW) then bad else ret k)))"

definition window :: "env \<Rightarrow> node \<Rightarrow> string \<Rightarrow> int chk" where
  "window g a owner = (case a of
      NNum v \<Rightarrow> window_value owner (JFloat v)
    | NParam nm \<Rightarrow> andthen (use_param nm)
        (if params_get g nm = JNull then andthen (err ''parameter'' []) (ret 1) else window_value owner (params_get g nm))
    | _ \<Rightarrow> andthen (err ''window_not_literal'' [(''function'', owner)]) (ret 1))"

definition as_whole :: "json \<Rightarrow> json" where
  "as_whole v = (case v of JFloat (Fin x) \<Rightarrow> if x = of_int \<lfloor>x\<rfloor> then JInt \<lfloor>x\<rfloor> else v | _ \<Rightarrow> v)"

definition choice :: "env \<Rightarrow> node \<Rightarrow> arg \<Rightarrow> string \<Rightarrow> unit chk" where
  "choice g a sig owner =
     (let bad = err ''choice'' [(''function'', owner), (''arg'', a_name sig)];
          test = (\<lambda>v. let w = as_whole v in
             guard ((case w of JBool _ \<Rightarrow> True | _ \<Rightarrow> False) \<or> \<not> list_ex (py_eq w) (a_choices sig)) bad) in
      case a of NNum v \<Rightarrow> test (JFloat v) | NStr s \<Rightarrow> test (JStr s) | NParam nm \<Rightarrow> test (params_get g nm) | _ \<Rightarrow> bad)"

definition num_or_param :: "env \<Rightarrow> node \<Rightarrow> json" where
  "num_or_param g a = (case a of NNum v \<Rightarrow> JFloat v | NParam nm \<Rightarrow> params_get g nm | _ \<Rightarrow> JNull)"

definition between :: "pyfloat \<Rightarrow> pyfloat \<Rightarrow> pynum \<Rightarrow> bool" where
  "between lo hi v = (case v of Fin x \<Rightarrow> lo \<le> x \<and> x \<le> hi | _ \<Rightarrow> False)"

definition bounded :: "env \<Rightarrow> node \<Rightarrow> arg \<Rightarrow> string \<Rightarrow> unit chk" where
  "bounded g a sig owner =
     (let v = num_or_param g a in
      if \<not> is_number v then ret ()
      else case a_bounds sig of
        None \<Rightarrow> ret ()
      | Some (lo, hi) \<Rightarrow> cbind (lift_res (py_float v)) (\<lambda>f.
          guard (\<not> between lo hi f) (err ''out_of_range'' [(''function'', owner), (''arg'', a_name sig)])))"

definition value_of :: "env \<Rightarrow> node \<Rightarrow> json" where
  "value_of g a = (case a of NNum v \<Rightarrow> JFloat v | NStr s \<Rightarrow> JStr s | NBool b \<Rightarrow> JBool b | NParam nm \<Rightarrow> params_get g nm | _ \<Rightarrow> JNull)"

definition form :: "env \<Rightarrow> node \<Rightarrow> regex \<Rightarrow> unit chk" where
  "form g a pat = guard (case value_of g a of JStr s \<Rightarrow> \<not> fullmatch pat s | _ \<Rightarrow> True) (err [] [])"

definition arg_pos :: "spec \<Rightarrow> string \<Rightarrow> nat option" where
  "arg_pos sp nm = find (\<lambda>i. a_name (sp_args sp ! i) = nm) [0..<length (sp_args sp)]"

definition arg_value :: "env \<Rightarrow> node list \<Rightarrow> spec \<Rightarrow> string \<Rightarrow> json" where
  "arg_value g args sp nm = (case arg_pos sp nm of
      None \<Rightarrow> JNull
    | Some i \<Rightarrow> if i < length args then value_of g (args ! i) else a_default (sp_args sp ! i))"

definition choice_bars :: "env \<Rightarrow> node list \<Rightarrow> spec \<Rightarrow> int" where
  "choice_bars g args sp = (\<Sum>(nm, v, bars)\<leftarrow>sp_choice_extra_bars sp. if py_eq (arg_value g args sp nm) v then bars else 0)"

definition literal_arg :: "env \<Rightarrow> node \<Rightarrow> arg \<Rightarrow> string \<Rightarrow> unit chk" where
  "literal_arg g a sig owner =
     (let bad = err ''literal_only'' [(''function'', owner), (''arg'', a_name sig)];
          nd = (case a of NUnary _ b \<Rightarrow> b | _ \<Rightarrow> a) in
      case nd of
        NNum _ \<Rightarrow> ret ()
      | NParam nm \<Rightarrow> guard (params_get g nm \<noteq> JNull \<and> \<not> is_number (params_get g nm)) bad
      | _ \<Rightarrow> bad)"

text \<open>\<open>table[int(v)]\<close>, with \<open>max(table)\<close> where the index is no number or out of range; a negative index counts from the end.\<close>

definition py_index :: "int list \<Rightarrow> int \<Rightarrow> int option" where
  "py_index xs i = (let j = (if i < 0 then i + int (length xs) else i) in
     if 0 \<le> j \<and> j < int (length xs) then Some (xs ! nat j) else None)"

definition max_of :: "int list \<Rightarrow> py_error + int" where
  "max_of xs = (case xs of [] \<Rightarrow> Inl ValueError | y # ys \<Rightarrow> Inr (fold max ys y))"

definition table_at :: "int list \<Rightarrow> json \<Rightarrow> py_error + int" where
  "table_at table v = (case py_int v of
      Inr i \<Rightarrow> (case py_index table i of Some b \<Rightarrow> Inr b | None \<Rightarrow> max_of table)
    | Inl TypeError \<Rightarrow> max_of table
    | Inl ValueError \<Rightarrow> max_of table
    | Inl e \<Rightarrow> Inl e)"

text \<open>A positional argument's number: the literal, the parameter, the default when it is left out, else nothing.\<close>

definition setting_value :: "env \<Rightarrow> node list \<Rightarrow> spec \<Rightarrow> nat \<Rightarrow> json" where
  "setting_value g args sp i = (if i < length args then num_or_param g (args ! i) else a_default (sp_args sp ! i))"

definition degree_bars :: "env \<Rightarrow> node list \<Rightarrow> spec \<Rightarrow> int list \<Rightarrow> py_error + int" where
  "degree_bars g args sp table = (case arg_pos sp ''degree'' of
      None \<Rightarrow> max_of table
    | Some i \<Rightarrow> table_at table (setting_value g args sp i))"

definition sessions_needed :: "env \<Rightarrow> node list \<Rightarrow> spec \<Rightarrow> py_error + int" where
  "sessions_needed g args sp = (case sp_sessions_arg sp of
      None \<Rightarrow> Inr (sp_min_sessions sp)
    | Some nm \<Rightarrow> (case arg_pos sp nm of
        None \<Rightarrow> Inl StopIteration
      | Some i \<Rightarrow> (case py_int (setting_value g args sp i) of
          Inr k \<Rightarrow> Inr (max (sp_min_sessions sp) (k + 1))
        | Inl TypeError \<Rightarrow> Inr (sp_min_sessions sp)
        | Inl ValueError \<Rightarrow> Inr (sp_min_sessions sp)
        | Inl e \<Rightarrow> Inl e)))"

text \<open>\<open>walk\<close> with the path of every node.\<close>

function walk_at :: "nat list \<Rightarrow> node \<Rightarrow> (nat list \<times> node) list" where
  "walk_at p n = (p, n) # concat (map (\<lambda>(i, c). walk_at (p @ [i]) c) (enumerate 0 (children n)))"
  by pat_completeness auto
termination
  by (relation "measure (size \<circ> snd)") (auto simp: size_children in_set_enumerate_eq)

declare walk_at.simps [simp del]

definition report_last_bar :: "env \<Rightarrow> string \<Rightarrow> nat list \<times> node \<Rightarrow> unit chk" where
  "report_last_bar g owner pn = (case snd pn of
      NCall nm _ _ _ _ \<Rightarrow>
        (\<lambda>s. (if last_bar_only (all_functions g) nm \<and> fst pn \<notin> set (last_bar_reported s)
              then andthen (upd (\<lambda>s. s\<lparr>last_bar_reported := last_bar_reported s @ [fst pn]\<rparr>))
                     (err ''last_bar_only'' [(''function'', nm), (''outer'', owner)])
              else ret ()) s)
    | _ \<Rightarrow> ret ())"

definition history_of_last_bar :: "env \<Rightarrow> string \<Rightarrow> nat list \<Rightarrow> node list \<Rightarrow> unit chk" where
  "history_of_last_bar g owner p kids =
     each (\<lambda>(i, a). each (report_last_bar g owner) (walk_at (p @ [i]) a)) (enumerate 0 kids)"

section \<open>Checking a node\<close>

text \<open>One argument of a call against its signature; \<open>c\<close> is \<open>check\<close> of the argument.\<close>

definition argument :: "env \<Rightarrow> node \<Rightarrow> checker \<Rightarrow> nat list \<Rightarrow> arg \<Rightarrow> string \<Rightarrow> string \<Rightarrow> (int option \<times> string option) chk" where
  "argument g a c p sig owner own_tf =
     (if a_type sig = ''window'' then
        cbind (window g a owner) (\<lambda>w.
          andthen (guard (a_bounds sig \<noteq> None) (bounded g a sig owner)) (ret (Some w, None)))
      else cbind (c p own_tf) (\<lambda>(t, u).
        andthen
          (if a_type sig \<noteq> t \<and> \<not> (a_type sig = T_STR \<and> t = T_STR) then
             err ''argument_type'' [(''function'', owner), (''arg'', a_name sig)]
           else if a_choices sig \<noteq> [] then choice g a sig owner
           else case a_pattern sig of
             Some pat \<Rightarrow> form g a pat
           | None \<Rightarrow>
               andthen (guard (a_literal_only sig) (literal_arg g a sig owner))
                 (guard (a_bounds sig \<noteq> None) (bounded g a sig owner)))
          (ret (None, u))))"

definition domain :: "env \<Rightarrow> node \<Rightarrow> node list \<Rightarrow> unit chk" where
  "domain g cat others = (case cat of
      NCall nm _ _ _ _ \<Rightarrow>
        (case lookup (registry g) nm of
           None \<Rightarrow> ret ()
         | Some sp \<Rightarrow>
             if sp_values sp = [] then ret ()
             else each (\<lambda>x.
               (case (case x of NStr s \<Rightarrow> JStr s | NParam q \<Rightarrow> params_get g q | _ \<Rightarrow> JNull) of
                  JStr v \<Rightarrow> guard (v \<notin> set (sp_values sp)) (err ''domain'' [(''function'', sp_name sp)])
                | _ \<Rightarrow> ret ())) others)
    | _ \<Rightarrow> ret ())"

definition comparable :: "env \<Rightarrow> ty \<Rightarrow> ty \<Rightarrow> string \<Rightarrow> unit chk" where
  "comparable g l r op =
     (if fst l = T_NUM \<and> fst r = T_NUM then
        guard (snd l \<noteq> snd r \<and> snd l \<noteq> ANY_UNIT \<and> snd r \<noteq> ANY_UNIT \<and> strict_units g) (err ''unit_mismatch'' [])
      else if fst l \<in> {T_CAT, T_STR} \<and> fst r \<in> {T_CAT, T_STR} \<and> op \<in> {''=='', ''!='', ''IN''} then ret ()
      else if fst l = T_BOOL \<and> fst r = T_BOOL \<and> op \<in> {''=='', ''!='', ''IN''} then ret ()
      else err ''compare_types'' [])"

text \<open>The arguments of a call with their \<open>check\<close>s, positional and named.\<close>

type_synonym karg = "node \<times> checker"

definition needed :: "spec \<Rightarrow> arg list" where
  "needed sp = filter a_required (sp_args sp)"

definition arity :: "spec \<Rightarrow> nat \<Rightarrow> unit chk" where
  "arity sp k =
     (if sp_varargs sp then guard (k < 2) (err ''arity'' [(''function'', sp_name sp)])
      else guard (\<not> (length (needed sp) \<le> k \<and> k \<le> length (sp_args sp))) (err ''arity'' [(''function'', sp_name sp)]))"

definition signatures :: "spec \<Rightarrow> nat \<Rightarrow> arg list chk" where
  "signatures sp k =
     (if sp_varargs sp then (case sp_args sp of [] \<Rightarrow> raise IndexError | a # _ \<Rightarrow> ret (replicate k a))
      else ret (take k (sp_args sp)))"

definition kwarg_sig :: "spec \<Rightarrow> string \<Rightarrow> arg option" where
  "kwarg_sig sp key = map_of (rev (map (\<lambda>a. (a_name a, a)) (sp_kwargs sp))) key"

definition known_kwargs :: "spec \<Rightarrow> string list \<Rightarrow> unit chk" where
  "known_kwargs sp keys = each (\<lambda>k. guard (kwarg_sig sp k = None) (err ''unknown_argument'' [(''function'', sp_name sp)])) keys"

text \<open>The windows and the units collected so far, with the windows in order.\<close>

definition positional_args :: "env \<Rightarrow> nat list \<Rightarrow> string \<Rightarrow> string \<Rightarrow> karg list \<Rightarrow> arg list
    \<Rightarrow> (int list \<times> string option list) chk" where
  "positional_args g p owner own_tf args sigs =
     fold_chk (\<lambda>(i, (a, c), sig) (ws, us).
         cbind (argument g a c (p @ [i]) sig owner own_tf) (\<lambda>(w, u).
           ret (case w of None \<Rightarrow> ws | Some k \<Rightarrow> ws @ [k], us @ [u])))
       (enumerate 0 (zip args sigs)) ([], [])"

definition named_args :: "env \<Rightarrow> spec \<Rightarrow> string \<Rightarrow> nat list \<Rightarrow> nat \<Rightarrow> string \<Rightarrow> (string \<times> karg) list \<Rightarrow> int list \<Rightarrow> int list chk" where
  "named_args g sp owner p k own_tf kwargs =
     fold_chk (\<lambda>(i, key, a, c) ws.
         case kwarg_sig sp key of
           None \<Rightarrow> ret ws
         | Some sig \<Rightarrow>
             if \<not> sp_varargs sp \<and> key \<in> set (map a_name (take k (sp_args sp))) then
               andthen (err ''argument_twice'' [(''function'', sp_name sp), (''arg'', key)]) (ret ws)
             else cbind (argument g a c (p @ [i]) sig owner own_tf) (\<lambda>(w, u).
               ret (case w of None \<Rightarrow> ws | Some j \<Rightarrow> ws @ [j])))
       (enumerate k kwargs)"

definition price_units :: "env \<Rightarrow> spec \<Rightarrow> string option list \<Rightarrow> unit chk" where
  "price_units g sp us =
     each (\<lambda>i. if i < length us \<and> us ! i \<noteq> Some ''price'' \<and> us ! i \<noteq> ANY_UNIT \<and> strict_units g then
                (if i < length (sp_args sp)
                 then err ''price_argument'' [(''function'', sp_name sp), (''arg'', a_name (sp_args sp ! i))]
                 else raise IndexError)
              else ret ()) (sp_price_args sp)"

definition same_units :: "env \<Rightarrow> spec \<Rightarrow> string option list \<Rightarrow> unit chk" where
  "same_units g sp us =
     (if sp_varargs sp \<or> sp_same_unit_args sp \<noteq> [] then
        (let positions = (if sp_varargs sp then [0..<length us] else sp_same_unit_args sp);
             seen = remdups (filter (\<lambda>u. u \<noteq> None \<and> u \<noteq> ANY_UNIT) (map (\<lambda>i. us ! i) (filter (\<lambda>i. i < length us) positions))) in
         guard (1 < length seen \<and> strict_units g) (err ''unit_mismatch'' []))
      else ret ())"

definition int_default :: "json \<Rightarrow> int" where
  "int_default v = (case v of JInt n \<Rightarrow> n | JBool b \<Rightarrow> (if b then 1 else 0) | _ \<Rightarrow> 1)"

definition first_index :: "'a \<Rightarrow> 'a list \<Rightarrow> nat" where
  "first_index x xs = length (takeWhile (\<lambda>y. y \<noteq> x) xs)"

definition default_windows :: "spec \<Rightarrow> nat \<Rightarrow> int list" where
  "default_windows sp k = map (\<lambda>a. int_default (a_default a))
     (filter (\<lambda>a. a_type a = ''window'' \<and> \<not> a_required a \<and> k \<le> first_index a (sp_args sp)) (sp_args sp))"

definition call_window :: "spec \<Rightarrow> string \<Rightarrow> int list \<Rightarrow> int" where
  "call_window sp own_tf ws =
     (if sp_window_sum sp then sum_list ws else fold max ws 0)
       * (case map_of (rev (sp_window_bars sp)) own_tf of None \<Rightarrow> 1 | Some b \<Rightarrow> b) * sp_window_mult sp"

definition py_in_strings :: "json \<Rightarrow> string list \<Rightarrow> bool" where
  "py_in_strings v xs = (case v of JStr s \<Rightarrow> s \<in> set xs | _ \<Rightarrow> False)"

definition pattern_direction :: "env \<Rightarrow> node list \<Rightarrow> spec \<Rightarrow> unit chk" where
  "pattern_direction g args sp =
     guard (sp_name sp = ''Pattern'' \<and> py_in_strings (arg_value g args sp ''name'') NEUTRAL_PATTERNS
            \<and> arg_value g args sp ''confirm'' \<notin> {JNull, JStr ''any''}) (err [] [])"

definition kwarg_degrees :: "env \<Rightarrow> spec \<Rightarrow> (string \<times> node) list \<Rightarrow> int \<Rightarrow> int chk" where
  "kwarg_degrees g sp kwargs =
     fold_chk (\<lambda>(nm, table) bars.
         case map_of kwargs nm of
           None \<Rightarrow> ret bars
         | Some a \<Rightarrow>
             if is_number (value_of g a) then
               cbind (lift_res (py_int (value_of g a))) (\<lambda>k.
                 ret (if 0 \<le> k \<and> k < int (length table) then max bars (table ! nat k) else bars))
             else ret bars)
       (sp_kwarg_degree_bars sp)"

definition remainder :: "pynum \<Rightarrow> int \<Rightarrow> bool" where
  "remainder v step = (case v of Fin x \<Rightarrow> x \<noteq> of_int step * of_int \<lfloor>x / of_int step\<rfloor> | _ \<Rightarrow> True)"

definition tf_multiples :: "env \<Rightarrow> node list \<Rightarrow> spec \<Rightarrow> string \<Rightarrow> unit chk" where
  "tf_multiples g args sp own_tf =
     each (\<lambda>nm. case arg_pos sp nm of
         None \<Rightarrow> raise StopIteration
       | Some i \<Rightarrow>
           (let v = setting_value g args sp i;
                step = (case map_of TF_MINUTES own_tf of None \<Rightarrow> 0 | Some m \<Rightarrow> m) in
            if is_number v \<and> 0 < step \<and> step < 375 then
              cbind (lift_res (py_float v)) (\<lambda>f.
                guard (remainder f step) (err ''tf_multiple'' [(''function'', sp_name sp), (''arg'', nm), (''tf'', own_tf)]))
            else ret ())) (sp_tf_multiple_args sp)"

definition ordered_arguments :: "env \<Rightarrow> node list \<Rightarrow> spec \<Rightarrow> unit chk" where
  "ordered_arguments g args sp =
     each (\<lambda>(lo, hi, equal_ok).
         let a = arg_value g args sp lo; b = arg_value g args sp hi in
         case (num_of a, num_of b) of
           (Some x, Some y) \<Rightarrow>
             guard (is_number a \<and> is_number b \<and> (num_less y x \<or> (num_eq x y \<and> \<not> equal_ok)))
               (err ''argument_order'' [(''function'', sp_name sp), (''arg'', lo), (''other'', hi)])
         | _ \<Rightarrow> ret ()) (sp_ordered_args sp)"

text \<open>The bars a call needs at least: its floor, its settings, its swing degrees and its whole sessions.\<close>

definition call_min_bars :: "env \<Rightarrow> spec \<Rightarrow> node list \<Rightarrow> (string \<times> node) list \<Rightarrow> string \<Rightarrow> int chk" where
  "call_min_bars g sp args kwargs own_tf =
     andthen (pattern_direction g args sp)
     (cbind (if sp_degree_min_bars sp = [] then ret (sp_min_bars sp + choice_bars g args sp)
             else cbind (lift_res (degree_bars g args sp (sp_degree_min_bars sp))) (\<lambda>d. ret (max (sp_min_bars sp + choice_bars g args sp) d)))
       (\<lambda>b. cbind (kwarg_degrees g sp kwargs b) (\<lambda>b2.
          andthen (tf_multiples g args sp own_tf)
          (andthen (ordered_arguments g args sp)
          (cbind (lift_res (sessions_needed g args sp)) (\<lambda>n.
             if n = 0 then ret b2
             else cbind (minutes own_tf) (\<lambda>m.
               ret (if m < 375 then max b2 (n * \<lceil>fdiv 375 (of_int m)\<rceil>) else b2))))))))"

definition call_unit :: "spec \<Rightarrow> string option list \<Rightarrow> string option" where
  "call_unit sp us =
     (if sp_unit sp = Some ''same'' then (case find (\<lambda>u. u \<noteq> None) us of None \<Rightarrow> ANY_UNIT | Some u \<Rightarrow> u) else sp_unit sp)"

definition call :: "env \<Rightarrow> nat list \<Rightarrow> string \<Rightarrow> karg list \<Rightarrow> (string \<times> karg) list \<Rightarrow> int \<Rightarrow> json \<Rightarrow> string \<Rightarrow> ty chk" where
  "call g p nm kargs kkwargs off tfj tf =
     (case lookup (registry g) nm of
        None \<Rightarrow>
          andthen (if lookup FIELDS nm \<noteq> None then err ''field_called'' [(''field'', nm)] else err ''unknown_function'' [])
            (ret (T_NUM, ANY_UNIT))
      | Some sp \<Rightarrow>
          (let args = map fst kargs; kwargs = map (\<lambda>(k, a, c). (k, a)) kkwargs; n = length args in
           andthen (guard ((off \<noteq> 0 \<or> json_truthy tfj) \<and> \<not> sp_timeframed sp) (err ''no_offset_tf'' [(''function'', sp_name sp)]))
           (cbind (if json_truthy tfj then tf_of g tfj else ret tf) (\<lambda>own_tf.
            cbind (offset_of off) (\<lambda>offset.
            andthen (upd (\<lambda>s. if sp_cross_sectional sp then s\<lparr>cross_sectional := True\<rparr> else s))
            (andthen (arity sp n)
            (andthen (guard (sp_name sp \<in> set READS_HISTORY) (history_of_last_bar g nm p (args @ map snd kwargs)))
            (andthen (known_kwargs sp (map fst kwargs))
            (andthen (guard (sp_timeframes sp \<noteq> [] \<and> own_tf \<notin> set (sp_timeframes sp))
                        (err ''timeframe_unsupported'' [(''function'', sp_name sp)]))
            (cbind (signatures sp n) (\<lambda>sigs.
             cbind (positional_args g p nm own_tf kargs sigs) (\<lambda>(ws, us).
             cbind (named_args g sp nm p n own_tf kkwargs ws) (\<lambda>ws2.
             andthen (price_units g sp us)
             (andthen (same_units g sp us)
             (cbind (call_min_bars g sp args kwargs own_tf) (\<lambda>min_bars.
              let w = call_window sp own_tf (ws2 @ default_windows sp n) in
              andthen (need_bars own_tf (offset + max (max w 1) min_bars + sp_extra_bars sp))
              (andthen (if sp_fetch_degree_bars sp = [] then ret ()
                        else cbind (lift_res (degree_bars g args sp (sp_fetch_degree_bars sp))) (\<lambda>d.
                          upd (\<lambda>s. s\<lparr>fetch_lookback := bump own_tf (offset + d) (fetch_lookback s)\<rparr>)))
              (andthen (upd (\<lambda>s. s\<lparr>cost := fadd (cost s) (fmul (sp_cost sp) (fadd 1 (fdiv (of_int w) 100)))\<rparr>))
              (ret (if sp_returns sp = T_NUM then (T_NUM, call_unit sp us) else (sp_returns sp, None)))))))))))))))))))))"

definition param_type :: "json \<Rightarrow> ty" where
  "param_type v = (case v of JBool _ \<Rightarrow> (T_BOOL, None) | JInt _ \<Rightarrow> (T_NUM, ANY_UNIT) | JFloat _ \<Rightarrow> (T_NUM, ANY_UNIT) | _ \<Rightarrow> (T_STR, None))"

definition field :: "env \<Rightarrow> string \<Rightarrow> int \<Rightarrow> json \<Rightarrow> string \<Rightarrow> ty chk" where
  "field g nm off tfj tf =
     (case lookup FIELDS nm of
        None \<Rightarrow>
          andthen (if lookup (registry g) nm \<noteq> None then err ''function_without_parens'' [(''function'', nm)] else err ''unknown_field'' [])
            (ret (T_NUM, ANY_UNIT))
      | Some sp \<Rightarrow>
          cbind (if json_truthy tfj then tf_of g tfj else ret tf) (\<lambda>own_tf.
          cbind (offset_of off) (\<lambda>offset.
          andthen (need_bars own_tf (offset + 1))
          (andthen (upd (\<lambda>s. s\<lparr>cost := fadd (cost s) (fmul (sp_cost sp) (flit 1 10))\<rparr>))
          (ret (sp_returns sp, sp_unit sp))))))"

text \<open>The unit of a sum or a product; \<open>op in "+-"\<close> is Python's test for a part of a text.\<close>

definition is_additive :: "string \<Rightarrow> bool" where
  "is_additive op = (op \<in> {[], ''+'', ''-'', ''+-''})"

definition pick_unit :: "string option \<Rightarrow> string option \<Rightarrow> string option" where
  "pick_unit lu ru = (if lu = ANY_UNIT then ru else lu)"

definition arith :: "env \<Rightarrow> string \<Rightarrow> ty \<Rightarrow> ty \<Rightarrow> ty chk" where
  "arith g op l r =
     (if fst l \<noteq> T_NUM \<or> fst r \<noteq> T_NUM then andthen (err ''number_expected'' []) (ret (T_NUM, ANY_UNIT))
      else if is_additive op then
        andthen (guard (snd l \<noteq> snd r \<and> snd l \<noteq> ANY_UNIT \<and> snd r \<noteq> ANY_UNIT \<and> strict_units g) (err ''unit_mismatch'' []))
          (ret (T_NUM, pick_unit (snd l) (snd r)))
      else if snd l = ANY_UNIT \<or> snd r = ANY_UNIT then ret (T_NUM, pick_unit (snd l) (snd r))
      else ret (T_NUM, Some ''ratio''))"

definition in_item :: "env \<Rightarrow> ty \<Rightarrow> nat list \<Rightarrow> string \<Rightarrow> nat \<times> karg \<Rightarrow> unit chk" where
  "in_item g v p tf ic = (case ic of (i, a, c) \<Rightarrow>
     (case a of
        NNum _ \<Rightarrow> cbind (c (p @ [i]) tf) (\<lambda>t. comparable g v t ''IN'')
      | NStr _ \<Rightarrow> cbind (c (p @ [i]) tf) (\<lambda>t. comparable g v t ''IN'')
      | NBool _ \<Rightarrow> cbind (c (p @ [i]) tf) (\<lambda>t. comparable g v t ''IN'')
      | NParam _ \<Rightarrow> cbind (c (p @ [i]) tf) (\<lambda>t. comparable g v t ''IN'')
      | _ \<Rightarrow> err ''in_list'' []))"

definition condition :: "checker \<Rightarrow> nat list \<Rightarrow> string \<Rightarrow> unit chk" where
  "condition c p tf = cbind (c p tf) (\<lambda>t. guard (fst t \<noteq> T_BOOL) (err ''condition_expected'' []))"

fun check :: "env \<Rightarrow> node \<Rightarrow> checker" where
  "check g (NNum v) p tf = andthen (guard (case v of Fin _ \<Rightarrow> False | _ \<Rightarrow> True) (err ''not_finite'' [])) (ret (T_NUM, ANY_UNIT))"
| "check g (NStr s) p tf = ret (T_STR, None)"
| "check g (NBool b) p tf = ret (T_BOOL, None)"
| "check g (NParam nm) p tf = andthen (use_param nm)
     (case map_of (params g) nm of
        None \<Rightarrow> andthen (err ''parameter'' []) (ret (T_NUM, ANY_UNIT))
      | Some v \<Rightarrow> ret (param_type v))"
| "check g (NField nm off tfj) p tf = field g nm off tfj tf"
| "check g (NCall nm args kwargs off tfj) p tf =
     call g p nm (map (\<lambda>a. (a, check g a)) args) (map (\<lambda>kv. (fst kv, snd kv, check g (snd kv))) kwargs) off tfj tf"
| "check g (NUnary op a) p tf = cbind (check g a (p @ [0]) tf) (\<lambda>t.
     andthen (guard (fst t \<noteq> T_NUM) (err ''number_expected'' [])) (ret (T_NUM, snd t)))"
| "check g (NBinary op a b) p tf = cbind (check g a (p @ [0]) tf) (\<lambda>l. cbind (check g b (p @ [1]) tf) (\<lambda>r. arith g op l r))"
| "check g (NCompare op a b) p tf = cbind (check g a (p @ [0]) tf) (\<lambda>l. cbind (check g b (p @ [1]) tf) (\<lambda>r.
     andthen (comparable g l r op) (andthen (domain g a [b]) (andthen (domain g b [a]) (ret (T_BOOL, None))))))"
| "check g (NBetween v a b) p tf =
     cbind (check g v (p @ [0]) tf) (\<lambda>t. cbind (check g a (p @ [1]) tf) (\<lambda>l. cbind (check g b (p @ [2]) tf) (\<lambda>h.
     andthen (comparable g t l ''BETWEEN'') (andthen (comparable g t h ''BETWEEN'')
     (andthen (guard (fst t \<noteq> T_NUM) (err ''number_expected'' [])) (ret (T_BOOL, None)))))))"
| "check g (NIn v items) p tf =
     cbind (check g v (p @ [0]) tf) (\<lambda>t.
     andthen (guard (items = []) (err ''in_list'' []))
     (andthen (each (in_item g t p tf) (enumerate 1 (map (\<lambda>a. (a, check g a)) items)))
     (andthen (domain g v items) (ret (T_BOOL, None)))))"
| "check g (NLogic op items) p tf =
     andthen (guard (op \<notin> {''ALL'', ''ANY''}) (err [] []))
     (andthen (guard (items = []) (err ''condition_expected'' []))
     (andthen (each (\<lambda>(i, c). condition c (p @ [i]) tf) (enumerate 0 (map (check g) items))) (ret (T_BOOL, None))))"
| "check g (NNot a) p tf = andthen (condition (check g a) (p @ [0]) tf) (ret (T_BOOL, None))"

section \<open>The entry points\<close>

definition fresh :: validated where
  "fresh = \<lparr>ok = True, problems = [], timeframes = [], lookback = [], fetch_lookback = [], cost = 0, cross_sectional = False,
     params_used = [], last_bar_reported = []\<rparr>"

definition refused :: "string \<Rightarrow> validated" where
  "refused kd = fresh\<lparr>ok := False, problems := [Problem kd []]\<rparr>"

definition unused_params :: "env \<Rightarrow> validated \<Rightarrow> string list" where
  "unused_params g s = filter (\<lambda>k. k \<notin> set (params_used s)) (map fst (params g))"

definition finish :: "validated \<Rightarrow> validated" where
  "finish s = (if problems s \<noteq> [] then s\<lparr>ok := False\<rparr> else s)"

definition closing :: "env \<Rightarrow> pyfloat \<Rightarrow> unit chk" where
  "closing g cap = andthen (\<lambda>s. guard (unused_params g s \<noteq> []) (err ''parameter'' []) s)
     (\<lambda>s. guard (cap < cost s) (err ''cost'' []) s)"

definition run :: "unit chk \<Rightarrow> py_error + validated" where
  "run m = (case m fresh of Inl e \<Rightarrow> Inl e | Inr (_, s) \<Rightarrow> Inr (finish s))"

definition validate :: "env \<Rightarrow> pyfloat \<Rightarrow> node \<Rightarrow> py_error + validated" where
  "validate g cap ast =
     (if map_of TF_MINUTES (base_tf g) = None then Inr (refused ''unknown_timeframe'')
      else run (cbind (check g ast [] (base_tf g)) (\<lambda>t.
        andthen (guard (fst t \<noteq> T_BOOL) (err ''not_condition'' [])) (closing g cap))))"

definition kind_of :: "spec list \<Rightarrow> string \<Rightarrow> node \<Rightarrow> py_error + string" where
  "kind_of fs tf ast = (case check \<lparr>base_tf = tf, params = [], strict_units = True, registry = fs, all_functions = fs\<rparr> ast [] tf fresh of
     Inl e \<Rightarrow> Inl e | Inr (t, _) \<Rightarrow> Inr (fst t))"

text \<open>A screen as a chart study: also no cross-sectional function and none with a value on the last bar only.\<close>

definition study_call :: "env \<Rightarrow> node \<Rightarrow> unit chk" where
  "study_call g nd = (case nd of
      NCall nm _ _ _ _ \<Rightarrow>
        (case (if nm = [] then None else lookup (registry g) nm) of
           None \<Rightarrow> ret ()
         | Some sp \<Rightarrow> if sp_cross_sectional sp then err [] [] else guard (last_bar_only (all_functions g) nm) (err [] []))
    | _ \<Rightarrow> ret ())"

definition validate_study :: "env \<Rightarrow> pyfloat \<Rightarrow> node \<Rightarrow> py_error + validated \<times> string option \<times> string option" where
  "validate_study g cap ast =
     (if map_of TF_MINUTES (base_tf g) = None then Inr (refused [], None, None)
      else case cbind (check (g\<lparr>strict_units := True\<rparr>) ast [] (base_tf g)) (\<lambda>t.
          andthen (guard (fst t \<noteq> T_NUM \<and> fst t \<noteq> T_BOOL) (err [] []))
          (andthen (each (study_call g) (walk ast))
          (andthen (\<lambda>s. guard (unused_params g s \<noteq> []) (err [] []) s)
          (andthen (\<lambda>s. guard (cap < cost s) (err [] []) s) (ret t))))) fresh of
        Inl e \<Rightarrow> Inl e
      | Inr (t, s) \<Rightarrow> Inr (finish s, Some (fst t), if snd t = ANY_UNIT then None else snd t))"

text \<open>\<open>compile_screen\<close>: a query text or a builder's tree to its validation; \<open>ScreenQLSyntaxError\<close> is a \<open>ValueError\<close>.\<close>

definition compile_screen :: "env \<Rightarrow> pyfloat \<Rightarrow> string + json \<Rightarrow> py_error + node option \<times> validated" where
  "compile_screen g cap source =
     (let go = (\<lambda>ast. rbind (validate g cap ast) (\<lambda>v. Inr (Some ast, v))) in
      case source of
        Inl txt \<Rightarrow> (case parse txt of Inl _ \<Rightarrow> Inr (None, refused ''syntax'') | Inr ast \<Rightarrow> go ast)
      | Inr data \<Rightarrow>
          (case from_json data of
             Inl ValueError \<Rightarrow> Inr (None, refused ''syntax'')
           | Inl e \<Rightarrow> Inl e
           | Inr ast \<Rightarrow> go ast))"

end
