(* ===== verification/ScreenTyped.thy ===== *)
theory ScreenTyped
  imports ScreenValidator
begin

text \<open>
  What an accepted screen means. \<open>typed\<close> is the type and unit system of ScreenQL as rules, with no
  state and no order of checks; the validator (\<open>ScreenValidator\<close>) refines it: a screen it accepts has
  a derivation that ends in a condition. The proof follows the checker's methods with one predicate,
  \<open>quiet\<close>: a method only ever adds problems, and what it has established when it added none.
\<close>

section \<open>The type system\<close>

text \<open>The timeframe a node is read at: its own, known and not finer than the screen's, or the one around it.\<close>

definition own_frame :: "env \<Rightarrow> json \<Rightarrow> string \<Rightarrow> string \<Rightarrow> bool" where
  "own_frame g tfj tf own =
     (if json_truthy tfj then
        tfj = JStr own \<and> (\<exists>m b. map_of TF_MINUTES own = Some m \<and> map_of TF_MINUTES (base_tf g) = Some b \<and> b \<le> m)
      else own = tf)"

definition whole_window :: "json \<Rightarrow> bool" where
  "whole_window v = (is_number v \<and> (\<exists>k. 1 \<le> k \<and> k \<le> MAX_WINDOW \<and> num_of v = Some (Fin (of_int k))))"

definition window_ok :: "env \<Rightarrow> node \<Rightarrow> bool" where
  "window_ok g a = (case a of NNum v \<Rightarrow> whole_window (JFloat v) | NParam nm \<Rightarrow> whole_window (params_get g nm) | _ \<Rightarrow> False)"

definition choice_ok :: "env \<Rightarrow> node \<Rightarrow> arg \<Rightarrow> bool" where
  "choice_ok g a sig = ((case a of NNum _ \<Rightarrow> True | NStr _ \<Rightarrow> True | NParam _ \<Rightarrow> True | _ \<Rightarrow> False)
     \<and> list_ex (py_eq (as_whole (value_of g a))) (a_choices sig))"

definition bounds_ok :: "env \<Rightarrow> node \<Rightarrow> arg \<Rightarrow> bool" where
  "bounds_ok g a sig = (case a_bounds sig of
      None \<Rightarrow> True
    | Some (lo, hi) \<Rightarrow> is_number (num_or_param g a) \<longrightarrow> (\<exists>x. py_float (num_or_param g a) = Inr (Fin x) \<and> lo \<le> x \<and> x \<le> hi))"

text \<open>A setting is one number for the whole series: a literal, possibly negated, or a parameter with a number.\<close>

definition literal_ok :: "env \<Rightarrow> node \<Rightarrow> bool" where
  "literal_ok g a = (case (case a of NUnary _ b \<Rightarrow> b | _ \<Rightarrow> a) of
      NNum _ \<Rightarrow> True
    | NParam nm \<Rightarrow> params_get g nm = JNull \<or> is_number (params_get g nm)
    | _ \<Rightarrow> False)"

definition setting_ok :: "env \<Rightarrow> node \<Rightarrow> arg \<Rightarrow> bool" where
  "setting_ok g a sig =
     (if a_choices sig \<noteq> [] then choice_ok g a sig
      else case a_pattern sig of
        Some pat \<Rightarrow> (\<exists>s. value_of g a = JStr s \<and> fullmatch pat s)
      | None \<Rightarrow> (a_literal_only sig \<longrightarrow> literal_ok g a) \<and> bounds_ok g a sig)"

definition arity_ok :: "spec \<Rightarrow> nat \<Rightarrow> bool" where
  "arity_ok sp k = (if sp_varargs sp then 2 \<le> k \<and> sp_args sp \<noteq> [] else length (needed sp) \<le> k \<and> k \<le> length (sp_args sp))"

definition sigs_of :: "spec \<Rightarrow> nat \<Rightarrow> arg list" where
  "sigs_of sp k = (if sp_varargs sp then replicate k (hd (sp_args sp)) else take k (sp_args sp))"

definition units_ok :: "env \<Rightarrow> spec \<Rightarrow> string option list \<Rightarrow> bool" where
  "units_ok g sp us = (strict_units g \<longrightarrow>
     (\<forall>i\<in>set (sp_price_args sp). i < length us \<longrightarrow> us ! i = Some ''price'' \<or> us ! i = ANY_UNIT)
     \<and> (\<forall>i j. i < length us \<and> j < length us \<and> (sp_varargs sp \<or> i \<in> set (sp_same_unit_args sp) \<and> j \<in> set (sp_same_unit_args sp))
          \<longrightarrow> us ! i = us ! j \<or> us ! i \<in> {None, ANY_UNIT} \<or> us ! j \<in> {None, ANY_UNIT}))"

definition same_unit :: "env \<Rightarrow> string option \<Rightarrow> string option \<Rightarrow> bool" where
  "same_unit g u v = (strict_units g \<longrightarrow> u = v \<or> u = ANY_UNIT \<or> v = ANY_UNIT)"

definition compare_ok :: "env \<Rightarrow> ty \<Rightarrow> ty \<Rightarrow> string \<Rightarrow> bool" where
  "compare_ok g l r op =
     ((fst l = T_NUM \<and> fst r = T_NUM \<and> same_unit g (snd l) (snd r))
      \<or> (op \<in> {''=='', ''!='', ''IN''} \<and> (fst l \<in> {T_CAT, T_STR} \<and> fst r \<in> {T_CAT, T_STR} \<or> fst l = T_BOOL \<and> fst r = T_BOOL)))"

text \<open>No call known for the last bar only inside a function that reads history.\<close>

definition last_bar_free :: "env \<Rightarrow> node list \<Rightarrow> bool" where
  "last_bar_free g kids = (\<forall>a\<in>set kids. \<forall>nd\<in>set (walk a). case nd of
     NCall nm _ _ _ _ \<Rightarrow> \<not> last_bar_only (all_functions g) nm | _ \<Rightarrow> True)"

definition result_type :: "spec \<Rightarrow> string option list \<Rightarrow> ty" where
  "result_type sp us = (if sp_returns sp = T_NUM then (T_NUM, call_unit sp us) else (sp_returns sp, None))"

definition arith_type :: "string \<Rightarrow> string option \<Rightarrow> string option \<Rightarrow> ty" where
  "arith_type op u v = (T_NUM, if is_additive op \<or> u = ANY_UNIT \<or> v = ANY_UNIT then pick_unit u v else Some ''ratio'')"

definition is_lit :: "node \<Rightarrow> bool" where
  "is_lit a = (case a of NNum _ \<Rightarrow> True | NStr _ \<Rightarrow> True | NBool _ \<Rightarrow> True | NParam _ \<Rightarrow> True | _ \<Rightarrow> False)"

inductive typed :: "env \<Rightarrow> string \<Rightarrow> node \<Rightarrow> ty \<Rightarrow> bool"
  and typed_arg :: "env \<Rightarrow> string \<Rightarrow> node \<Rightarrow> arg \<Rightarrow> string option \<Rightarrow> bool" for g where
  t_num: "typed g tf (NNum (Fin x)) (T_NUM, ANY_UNIT)"
| t_str: "typed g tf (NStr s) (T_STR, None)"
| t_bool: "typed g tf (NBool b) (T_BOOL, None)"
| t_param: "map_of (params g) nm = Some v \<Longrightarrow> typed g tf (NParam nm) (param_type v)"
| t_field: "lookup FIELDS nm = Some sp \<Longrightarrow> own_frame g tfj tf own \<Longrightarrow> 0 \<le> off \<Longrightarrow> off \<le> MAX_OFFSET
    \<Longrightarrow> typed g tf (NField nm off tfj) (sp_returns sp, sp_unit sp)"
| t_call: "lookup (registry g) nm = Some sp \<Longrightarrow> own_frame g tfj tf own \<Longrightarrow> 0 \<le> off \<Longrightarrow> off \<le> MAX_OFFSET
    \<Longrightarrow> (off \<noteq> 0 \<or> json_truthy tfj \<longrightarrow> sp_timeframed sp) \<Longrightarrow> arity_ok sp (length args)
    \<Longrightarrow> (sp_timeframes sp \<noteq> [] \<longrightarrow> own \<in> set (sp_timeframes sp))
    \<Longrightarrow> (sp_name sp \<in> set READS_HISTORY \<longrightarrow> last_bar_free g (args @ map snd kwargs))
    \<Longrightarrow> length us = length args \<Longrightarrow> (\<forall>i<length args. typed_arg g own (args ! i) (sigs_of sp (length args) ! i) (us ! i))
    \<Longrightarrow> (\<forall>kv\<in>set kwargs. \<exists>sig u. kwarg_sig sp (fst kv) = Some sig \<and> typed_arg g own (snd kv) sig u)
    \<Longrightarrow> units_ok g sp us
    \<Longrightarrow> typed g tf (NCall nm args kwargs off tfj) (result_type sp us)"
| t_unary: "typed g tf a (T_NUM, u) \<Longrightarrow> typed g tf (NUnary op a) (T_NUM, u)"
| t_binary: "typed g tf a (T_NUM, u) \<Longrightarrow> typed g tf b (T_NUM, v) \<Longrightarrow> (is_additive op \<longrightarrow> same_unit g u v)
    \<Longrightarrow> typed g tf (NBinary op a b) (arith_type op u v)"
| t_compare: "typed g tf a l \<Longrightarrow> typed g tf b r \<Longrightarrow> compare_ok g l r op \<Longrightarrow> typed g tf (NCompare op a b) (T_BOOL, None)"
| t_between: "typed g tf v (T_NUM, u) \<Longrightarrow> typed g tf a (T_NUM, u1) \<Longrightarrow> typed g tf b (T_NUM, u2)
    \<Longrightarrow> same_unit g u u1 \<Longrightarrow> same_unit g u u2 \<Longrightarrow> typed g tf (NBetween v a b) (T_BOOL, None)"
| t_in: "typed g tf v t \<Longrightarrow> items \<noteq> [] \<Longrightarrow> (\<forall>a\<in>set items. is_lit a \<and> (\<exists>r. typed g tf a r \<and> compare_ok g t r ''IN''))
    \<Longrightarrow> typed g tf (NIn v items) (T_BOOL, None)"
| t_logic: "op \<in> {''ALL'', ''ANY''} \<Longrightarrow> items \<noteq> [] \<Longrightarrow> (\<forall>a\<in>set items. \<exists>u. typed g tf a (T_BOOL, u))
    \<Longrightarrow> typed g tf (NLogic op items) (T_BOOL, None)"
| t_not: "typed g tf a (T_BOOL, u) \<Longrightarrow> typed g tf (NNot a) (T_BOOL, None)"
| a_window: "a_type sig = ''window'' \<Longrightarrow> window_ok g a \<Longrightarrow> typed_arg g own a sig None"
| a_value: "a_type sig \<noteq> ''window'' \<Longrightarrow> typed g own a (a_type sig, u) \<Longrightarrow> setting_ok g a sig \<Longrightarrow> typed_arg g own a sig u"

inductive_cases typed_fieldE: "typed g tf (NField nm off tfj) t"
inductive_cases typed_callE: "typed g tf (NCall nm args kwargs off tfj) t"

section \<open>Quiet methods\<close>

definition quiet :: "'a chk \<Rightarrow> ('a \<Rightarrow> bool) \<Rightarrow> bool" where
  "quiet m P = (\<forall>s x s'. m s = Inr (x, s') \<longrightarrow>
     (problems s' = [] \<longrightarrow> problems s = [] \<and> (last_bar_reported s = [] \<longrightarrow> last_bar_reported s' = [] \<and> P x)))"

lemma quietI: "(\<And>s x s'. m s = Inr (x, s') \<Longrightarrow> problems s' = [] \<Longrightarrow>
    problems s = [] \<and> (last_bar_reported s = [] \<longrightarrow> last_bar_reported s' = [] \<and> P x)) \<Longrightarrow> quiet m P"
  by (auto simp: quiet_def)

lemma quiet_weaken: "quiet m P \<Longrightarrow> (\<And>x. P x \<Longrightarrow> Q x) \<Longrightarrow> quiet m Q"
  by (auto simp: quiet_def)

lemma quiet_ret: "P x \<Longrightarrow> quiet (ret x) P"
  by (auto simp: quiet_def ret_def)

lemma quiet_raise: "quiet (raise e) P"
  by (auto simp: quiet_def raise_def)

lemma quiet_err: "quiet (err k ns) P"
  by (auto simp: quiet_def err_def upd_def)

lemma quiet_upd: "(\<And>s. problems (f s) = problems s) \<Longrightarrow> (\<And>s. last_bar_reported (f s) = last_bar_reported s) \<Longrightarrow> P () \<Longrightarrow> quiet (upd f) P"
  by (auto simp: quiet_def upd_def)

lemma quiet_lift: "(\<And>x. r = Inr x \<Longrightarrow> P x) \<Longrightarrow> quiet (lift_res r) P"
  by (auto simp: quiet_def lift_res_def split: sum.splits)

lemma quiet_bind:
  assumes m: "quiet m P" and f: "\<And>x. quiet (f x) (R x)" and q: "\<And>x y. P x \<Longrightarrow> R x y \<Longrightarrow> Q y"
  shows "quiet (cbind m f) Q"
proof (rule quietI)
  fix s y s2
  assume a: "cbind m f s = Inr (y, s2)" "problems s2 = []"
  then obtain x s1 where x: "m s = Inr (x, s1)" "f x s1 = Inr (y, s2)" by (auto simp: cbind_def split: sum.splits)
  have "problems s1 = [] \<and> (last_bar_reported s1 = [] \<longrightarrow> last_bar_reported s2 = [] \<and> R x y)"
    using f [of x] x(2) a(2) unfolding quiet_def by blast
  moreover have "problems s1 = [] \<longrightarrow> problems s = [] \<and> (last_bar_reported s = [] \<longrightarrow> last_bar_reported s1 = [] \<and> P x)"
    using m x(1) unfolding quiet_def by blast
  ultimately show "problems s = [] \<and> (last_bar_reported s = [] \<longrightarrow> last_bar_reported s2 = [] \<and> Q y)" using q by blast
qed

lemma quiet_bindI: "quiet m P \<Longrightarrow> (\<And>x. quiet (f x) (\<lambda>y. P x \<longrightarrow> Q y)) \<Longrightarrow> quiet (cbind m f) Q"
  by (rule quiet_bind [where R = "\<lambda>x y. P x \<longrightarrow> Q y"]) blast+

lemma quiet_thenI: "quiet m (\<lambda>_. P) \<Longrightarrow> quiet k (\<lambda>y. P \<longrightarrow> Q y) \<Longrightarrow> quiet (andthen m k) Q"
  unfolding andthen_def by (rule quiet_bindI)

lemma quiet_guard: "quiet m (\<lambda>_. P) \<Longrightarrow> quiet (guard b m) (\<lambda>_. b \<longrightarrow> P)"
  by (auto simp: guard_def quiet_def ret_def)

lemma quiet_guard_err: "quiet (guard b (err k ns)) (\<lambda>_. \<not> b)"
  by (auto simp: guard_def quiet_def ret_def err_def upd_def)

lemma quiet_err_ret: "quiet (andthen (err kd ns) (ret x)) P"
  by (rule quiet_thenI [OF quiet_err [where P = "\<lambda>_. False"]]) (simp add: quiet_ret)

lemma quiet_each: "(\<And>x. x \<in> set xs \<Longrightarrow> quiet (f x) (\<lambda>_. P x)) \<Longrightarrow> quiet (each f xs) (\<lambda>_. \<forall>x\<in>set xs. P x)"
proof (induction xs)
  case (Cons a xs)
  show ?case unfolding each.simps 
    by (rule quiet_thenI [of _ "P a"], use Cons in simp, rule quiet_weaken [of _ "\<lambda>_. \<forall>x\<in>set xs. P x"]) (use Cons in auto)
qed (auto intro: quiet_ret)

text \<open>A fold whose invariant is threaded through; \<open>J i b\<close> holds after the first \<open>i\<close> elements.\<close>

lemma quiet_fold:
  assumes "\<And>i b. i < length xs \<Longrightarrow> quiet (f (xs ! i) b) (\<lambda>b'. J i b \<longrightarrow> J (Suc i) b')"
  shows "quiet (fold_chk f xs b) (\<lambda>b'. J 0 b \<longrightarrow> J (length xs) b')"
  using assms
proof (induction xs arbitrary: b J)
  case (Cons a xs)
  have h: "quiet (f a b) (\<lambda>b'. J 0 b \<longrightarrow> J (Suc 0) b')" for b using Cons.prems [of 0 b] by simp
  have t: "quiet (fold_chk f xs b) (\<lambda>b'. J (Suc 0) b \<longrightarrow> J (Suc (length xs)) b')" for b
    using Cons.IH [of "\<lambda>i. J (Suc i)" b] Cons.prems [of "Suc _"] by simp
  show ?case unfolding fold_chk.simps by (rule quiet_bind [OF h t]) simp
qed (simp add: quiet_ret)

section \<open>The methods\<close>

lemma quiet_minutes: "quiet (minutes tf) (\<lambda>m. map_of TF_MINUTES tf = Some m)"
  by (auto simp: minutes_def quiet_ret quiet_raise split: option.split)

lemma quiet_tf_of: "quiet (if json_truthy tfj then tf_of g tfj else ret tf) (own_frame g tfj tf)"
proof (cases "json_truthy tfj")
  case True
  have "quiet (cbind (minutes (base_tf g)) (\<lambda>b.
      andthen (guard (m < b) (err ''timeframe_finer'' [(''tf'', t), (''base_tf'', base_tf g)])) (ret t))) (own_frame g tfj tf)"
    if t: "tfj = JStr t" "map_of TF_MINUTES t = Some m" for t m
    by (rule quiet_bindI [OF quiet_minutes], rule quiet_thenI [OF quiet_guard_err], rule quiet_ret) (use t True in \<open>auto simp: own_frame_def\<close>)
  then show ?thesis using True by (auto simp: tf_of_def quiet_raise quiet_err_ret split: json.split option.split)
qed (auto simp: own_frame_def intro: quiet_ret)

lemma quiet_offset: "quiet (offset_of off) (\<lambda>k. k = off \<and> 0 \<le> off \<and> off \<le> MAX_OFFSET)"
  unfolding offset_of_def
  by (auto intro!: quiet_err_ret quiet_thenI [OF quiet_guard_err] quiet_ret)

lemma quiet_window_value: "quiet (window_value owner v) (\<lambda>_. whole_window v)"
proof (cases "is_number v")
  case True
  have w: "whole_window v" if "py_float v = Inr f" "py_int v = Inr k" "num_eq f (Fin (of_int k))" "1 \<le> k" "k \<le> MAX_WINDOW" for f k
    using that True by (auto simp: whole_window_def is_number_def num_eq_def py_float_def split: json.splits)
  have "quiet (cbind (lift_res (py_float v)) (\<lambda>f. cbind (lift_res (py_int v)) (\<lambda>k.
             if \<not> num_eq f (Fin (of_int k)) \<or> \<not> (1 \<le> k \<and> k \<le> MAX_WINDOW)
             then andthen (err ''window_range'' [(''function'', owner)]) (ret 1) else ret k))) (\<lambda>_. whole_window v)"
    apply (rule quiet_bindI [OF quiet_lift [where P = "\<lambda>f. py_float v = Inr f"]], simp)
    apply (rule quiet_bindI [OF quiet_lift [where P = "\<lambda>k. py_int v = Inr k"]], simp)
    apply (auto intro!: quiet_err_ret quiet_ret w)
    done
  then show ?thesis using True by (simp add: window_value_def Let_def)
qed (simp add: window_value_def Let_def quiet_err_ret)

lemma quiet_use_param: "quiet (use_param nm) (\<lambda>_. True)"
  unfolding use_param_def by (rule quiet_upd) simp_all

lemma quiet_window: "quiet (window g a owner) (\<lambda>_. window_ok g a)"
proof -
  have "quiet (andthen (use_param nm) (if params_get g nm = JNull then andthen (err ''parameter'' []) (ret 1)
      else window_value owner (params_get g nm))) (\<lambda>_. whole_window (params_get g nm))" for nm
    by (rule quiet_thenI [OF quiet_use_param]) (auto simp: quiet_window_value intro: quiet_err_ret)
  then show ?thesis by (auto simp: window_def window_ok_def quiet_window_value quiet_err_ret split: node.split)
qed

lemma quiet_choice: "quiet (choice g a sig owner) (\<lambda>_. choice_ok g a sig)"
proof -
  have "quiet (guard (b \<or> \<not> c) (err k ns)) (\<lambda>_. c)" for b c k ns
    by (rule quiet_weaken [OF quiet_guard_err]) simp
  then show ?thesis unfolding choice_def Let_def choice_ok_def by (cases a) (simp_all add: value_of_def quiet_err)
qed

lemma quiet_bounded: "quiet (bounded g a sig owner) (\<lambda>_. bounds_ok g a sig)"
proof (cases "a_bounds sig")
  case (Some b)
  obtain lo hi where b: "b = (lo, hi)" by fastforce
  have f: "\<exists>x. f = Fin x \<and> lo \<le> x \<and> x \<le> hi" if "between lo hi f" for f
    using that by (auto simp: between_def split: pynum.splits)
  have "quiet (cbind (lift_res (py_float (num_or_param g a))) (\<lambda>f.
      guard (\<not> between lo hi f) (err ''out_of_range'' [(''function'', owner), (''arg'', a_name sig)]))) (\<lambda>_. bounds_ok g a sig)"
    by (rule quiet_bindI [OF quiet_lift [where P = "\<lambda>f. py_float (num_or_param g a) = Inr f"]], simp, rule quiet_weaken [OF quiet_guard_err])
      (use f in \<open>auto simp: bounds_ok_def Some b\<close>)
  then show ?thesis by (auto simp: bounded_def Let_def Some b bounds_ok_def intro: quiet_ret)
qed (auto simp: bounded_def Let_def bounds_ok_def intro: quiet_ret)

lemma quiet_form: "quiet (form g a pat) (\<lambda>_. \<exists>s. value_of g a = JStr s \<and> fullmatch pat s)"
  unfolding form_def by (rule quiet_weaken [OF quiet_guard_err]) (auto split: json.splits)

lemma quiet_literal_arg: "quiet (literal_arg g a sig owner) (\<lambda>_. literal_ok g a)"
proof -
  have "quiet (guard (params_get g nm \<noteq> JNull \<and> \<not> is_number (params_get g nm)) (err k ns))
      (\<lambda>_. params_get g nm = JNull \<or> is_number (params_get g nm))" for nm k ns
    by (rule quiet_weaken [OF quiet_guard_err]) auto
  then show ?thesis unfolding literal_arg_def Let_def literal_ok_def by (auto simp: quiet_err intro: quiet_ret split: node.split)
qed

text \<open>The argument lemma: what \<open>argument\<close> establishes, given what the check of its node does.\<close>

lemma quiet_argument:
  assumes c: "\<And>p tf. quiet (c p tf) (typed g tf a)"
  shows "quiet (argument g a c p sig owner own) (\<lambda>(w, u). typed_arg g own a sig u)"
proof (cases "a_type sig = ''window''")
  case True
  have "quiet (cbind (window g a owner) (\<lambda>w. andthen (guard (a_bounds sig \<noteq> None) (bounded g a sig owner)) (ret (Some w, None))))
      (\<lambda>(w, u). typed_arg g own a sig u)"
    by (rule quiet_bindI [OF quiet_window], rule quiet_thenI [OF quiet_guard [OF quiet_bounded]], rule quiet_ret)
      (simp add: typed_typed_arg.a_window True)
  then show ?thesis using True by (simp add: argument_def)
next
  case False
  have s: "quiet (if a_choices sig \<noteq> [] then choice g a sig owner
           else case a_pattern sig of Some pat \<Rightarrow> form g a pat
           | None \<Rightarrow> andthen (guard (a_literal_only sig) (literal_arg g a sig owner)) (guard (a_bounds sig \<noteq> None) (bounded g a sig owner)))
        (\<lambda>_. setting_ok g a sig)"
  proof -
    have b: "a_bounds sig \<noteq> None \<or> bounds_ok g a sig" by (cases "a_bounds sig") (simp_all add: bounds_ok_def)
    have "quiet (andthen (guard (a_literal_only sig) (literal_arg g a sig owner)) (guard (a_bounds sig \<noteq> None) (bounded g a sig owner)))
        (\<lambda>_. (a_literal_only sig \<longrightarrow> literal_ok g a) \<and> bounds_ok g a sig)"
      by (rule quiet_thenI [OF quiet_guard [OF quiet_literal_arg]], rule quiet_weaken [OF quiet_guard [OF quiet_bounded]]) (use b in blast)
    then show ?thesis by (auto simp: setting_ok_def quiet_choice quiet_form split: option.split)
  qed
  have "quiet (cbind (c p own) (\<lambda>(t, u).
        andthen
          (if a_type sig \<noteq> t \<and> \<not> (a_type sig = T_STR \<and> t = T_STR) then
             err ''argument_type'' [(''function'', owner), (''arg'', a_name sig)]
           else if a_choices sig \<noteq> [] then choice g a sig owner
           else case a_pattern sig of
             Some pat \<Rightarrow> form g a pat
           | None \<Rightarrow>
               andthen (guard (a_literal_only sig) (literal_arg g a sig owner))
                 (guard (a_bounds sig \<noteq> None) (bounded g a sig owner)))
          (ret (None, u)))) (\<lambda>(w, u). typed_arg g own a sig u)"
  proof (rule quiet_bindI [OF c], clarify)
    fix t u
    show "quiet (andthen
          (if a_type sig \<noteq> t \<and> \<not> (a_type sig = T_STR \<and> t = T_STR) then
             err ''argument_type'' [(''function'', owner), (''arg'', a_name sig)]
           else if a_choices sig \<noteq> [] then choice g a sig owner
           else case a_pattern sig of
             Some pat \<Rightarrow> form g a pat
           | None \<Rightarrow>
               andthen (guard (a_literal_only sig) (literal_arg g a sig owner))
                 (guard (a_bounds sig \<noteq> None) (bounded g a sig owner)))
          (ret (None, u))) (\<lambda>y. typed g own a (t, u) \<longrightarrow> (case y of (w, u) \<Rightarrow> typed_arg g own a sig u))"
      by (rule quiet_thenI [of _ "a_type sig = t \<and> setting_ok g a sig"])
        (use s False in \<open>auto simp: quiet_err intro!: quiet_ret typed_typed_arg.a_value\<close>)
  qed
  then show ?thesis using False by (simp add: argument_def)
qed

lemma map_snd_walk_at: "map snd (walk_at p n) = walk n"
proof (induction p n rule: walk_at.induct)
  case (1 p n)
  have "map snd (concat (map (\<lambda>(i, c). walk_at (p @ [i]) c) (enumerate k cs))) = concat (map walk cs)"
    if "\<And>i c. (i, c) \<in> set (enumerate k cs) \<Longrightarrow> map snd (walk_at (p @ [i]) c) = walk c" for k cs
    using that by (induction cs arbitrary: k) auto
  then show ?case using 1 by (subst walk_at.simps, subst walk.simps) auto
qed

lemma quiet_report: "quiet (report_last_bar g owner pn) (\<lambda>_. case snd pn of
     NCall nm _ _ _ _ \<Rightarrow> \<not> last_bar_only (all_functions g) nm | _ \<Rightarrow> True)"
  by (cases "snd pn") (auto simp: report_last_bar_def quiet_def ret_def andthen_def cbind_def upd_def err_def split: if_splits)

lemma quiet_history: "quiet (history_of_last_bar g owner p kids) (\<lambda>_. last_bar_free g kids)"
proof -
  have "quiet (each (report_last_bar g owner) (walk_at (p @ [i]) a)) (\<lambda>_. \<forall>nd\<in>set (walk a). case nd of
      NCall nm _ _ _ _ \<Rightarrow> \<not> last_bar_only (all_functions g) nm | _ \<Rightarrow> True)" for i a
    by (rule quiet_weaken [OF quiet_each [OF quiet_report]]) (auto simp: map_snd_walk_at [of "p @ [i]" a, symmetric])
  then have "quiet (history_of_last_bar g owner p kids) (\<lambda>_. \<forall>ia\<in>set (enumerate 0 kids). \<forall>nd\<in>set (walk (snd ia)). case nd of
      NCall nm _ _ _ _ \<Rightarrow> \<not> last_bar_only (all_functions g) nm | _ \<Rightarrow> True)"
    unfolding history_of_last_bar_def by (intro quiet_each) (simp add: case_prod_beta)
  then show ?thesis
  proof (rule quiet_weaken)
    assume e: "\<forall>ia\<in>set (enumerate 0 kids). \<forall>nd\<in>set (walk (snd ia)). case nd of NCall nm _ _ _ _ \<Rightarrow> \<not> last_bar_only (all_functions g) nm | _ \<Rightarrow> True"
    have k: "set kids = snd ` set (enumerate 0 kids)" by (metis list.set_map map_snd_enumerate)
    show "last_bar_free g kids" unfolding last_bar_free_def k using e by blast
  qed
qed

lemma quiet_domain: "quiet (domain g cat others) (\<lambda>_. True)"
proof -
  have g1: "quiet (guard b (err k ns)) (\<lambda>_. True)" for b k ns by (rule quiet_weaken [OF quiet_guard_err]) simp
  have e: "quiet (each f xs) (\<lambda>_. True)" if "\<And>x. quiet (f x) (\<lambda>_. True)" for f :: "node \<Rightarrow> unit chk" and xs
    by (rule quiet_weaken [OF quiet_each [OF that]]) simp
  show ?thesis unfolding domain_def
    by (auto intro!: e g1 quiet_ret split: node.split option.split json.split)
qed

lemma quiet_comparable: "quiet (comparable g l r op) (\<lambda>_. compare_ok g l r op)"
proof -
  have "quiet (guard (snd l \<noteq> snd r \<and> snd l \<noteq> ANY_UNIT \<and> snd r \<noteq> ANY_UNIT \<and> strict_units g) (err ''unit_mismatch'' []))
      (\<lambda>_. same_unit g (snd l) (snd r))"
    by (rule quiet_weaken [OF quiet_guard_err]) (auto simp: same_unit_def)
  then show ?thesis unfolding comparable_def compare_ok_def by (auto simp: quiet_err intro: quiet_ret quiet_weaken)
qed

lemma quiet_arity: "quiet (arity sp k) (\<lambda>_. sp_args sp \<noteq> [] \<or> \<not> sp_varargs sp \<longrightarrow> arity_ok sp k)"
  unfolding arity_def arity_ok_def by (auto intro: quiet_weaken [OF quiet_guard_err])

lemma quiet_signatures: "quiet (signatures sp k) (\<lambda>sigs. sigs = sigs_of sp k \<and> (sp_varargs sp \<longrightarrow> sp_args sp \<noteq> []))"
  unfolding signatures_def sigs_of_def by (auto simp: quiet_raise intro: quiet_ret split: list.split)

lemma quiet_known_kwargs: "quiet (known_kwargs sp keys) (\<lambda>_. \<forall>k\<in>set keys. kwarg_sig sp k \<noteq> None)"
  unfolding known_kwargs_def by (rule quiet_each) (rule quiet_guard_err)

definition arg_sound :: "env \<Rightarrow> karg \<Rightarrow> bool" where
  "arg_sound g ac = (\<forall>p tf. quiet (snd ac p tf) (typed g tf (fst ac)))"

lemma quiet_argument_at:
  assumes "arg_sound g (a, c)"
  shows "quiet (argument g a c p sig owner own) (\<lambda>(w, u). typed_arg g own a sig u)"
  by (rule quiet_argument) (use assms in \<open>simp add: arg_sound_def\<close>)

lemma quiet_positional:
  assumes "\<forall>ac\<in>set args. arg_sound g ac"
  shows "quiet (positional_args g p owner own args sigs) (\<lambda>(ws, us). length us = min (length args) (length sigs)
     \<and> (\<forall>i<length us. typed_arg g own (fst (args ! i)) (sigs ! i) (us ! i)))"
proof -
  define J where "J = (\<lambda>k (wu :: int list \<times> string option list). length (snd wu) = k
     \<and> (\<forall>i<k. typed_arg g own (fst (args ! i)) (sigs ! i) (snd wu ! i)))"
  define F where "F = (\<lambda>(i, (a, c), sig) (ws, us :: string option list).
     cbind (argument g a c (p @ [i]) sig owner own) (\<lambda>(w, u). ret (case w of None \<Rightarrow> ws | Some (k :: int) \<Rightarrow> ws @ [k], us @ [u])))"
  let ?xs = "enumerate 0 (zip args sigs)"
  have "quiet (F (?xs ! i) b) (\<lambda>b'. J i b \<longrightarrow> J (Suc i) b')" if i: "i < length ?xs" for i b
  proof -
    obtain a c where ac: "args ! i = (a, c)" by fastforce
    obtain ws us where b: "b = (ws, us)" by fastforce
    have s: "arg_sound g (a, c)" using assms i ac by (metis length_enumerate length_zip min_less_iff_conj nth_mem)
    have x: "?xs ! i = (i, (a, c), sigs ! i)" using i ac by (simp add: nth_enumerate_eq)
    show ?thesis unfolding x b F_def case_prod_conv
      by (rule quiet_bindI [OF quiet_argument_at [OF s]], clarify, rule quiet_ret)
        (auto simp: J_def nth_append ac less_Suc_eq)
  qed
  then have "quiet (fold_chk F ?xs ([], [])) (\<lambda>b'. J 0 ([], []) \<longrightarrow> J (length ?xs) b')" by (rule quiet_fold)
  then show ?thesis unfolding positional_args_def F_def by (rule quiet_weaken) (auto simp: J_def)
qed

lemma quiet_named:
  assumes "\<forall>kac\<in>set kwargs. arg_sound g (snd kac)"
  shows "quiet (named_args g sp owner p n own kwargs ws) (\<lambda>_. \<forall>kac\<in>set kwargs. kwarg_sig sp (fst kac) \<noteq> None \<longrightarrow>
     (\<exists>sig u. kwarg_sig sp (fst kac) = Some sig \<and> typed_arg g own (fst (snd kac)) sig u))"
proof -
  define ok1 where "ok1 = (\<lambda>kac. kwarg_sig sp (fst kac) \<noteq> None \<longrightarrow>
     (\<exists>sig u. kwarg_sig sp (fst kac) = Some sig \<and> typed_arg g own (fst (snd (kac :: string \<times> karg))) sig u))"
  define F where "F = (\<lambda>(i, key, a, c) ws.
         case kwarg_sig sp key of
           None \<Rightarrow> ret ws
         | Some sig \<Rightarrow>
             if \<not> sp_varargs sp \<and> key \<in> set (map a_name (take n (sp_args sp))) then
               andthen (err ''argument_twice'' [(''function'', sp_name sp), (''arg'', key)]) (ret ws)
             else cbind (argument g a c (p @ [i]) sig owner own) (\<lambda>(w, u).
               ret (case w of None \<Rightarrow> ws | Some j \<Rightarrow> ws @ [j])))"
  let ?xs = "enumerate n kwargs"
  have "quiet (F (?xs ! i) b) (\<lambda>b'. (\<forall>j<i. ok1 (kwargs ! j)) \<longrightarrow> (\<forall>j<Suc i. ok1 (kwargs ! j)))" if i: "i < length ?xs" for i b
  proof -
    obtain key a c where k: "kwargs ! i = (key, a, c)" by (metis prod.exhaust)
    have s: "arg_sound g (a, c)" using assms i k by (metis length_enumerate nth_mem snd_conv)
    have x: "?xs ! i = (n + i, key, a, c)" using i k by (simp add: nth_enumerate_eq)
    have "quiet (F (?xs ! i) b) (\<lambda>_. ok1 (kwargs ! i))"
    proof (cases "kwarg_sig sp key")
      case None
      then show ?thesis unfolding x F_def by (auto simp: ok1_def k intro: quiet_ret)
    next
      case (Some sig)
      have "quiet (cbind (argument g a c (p @ [n + i]) sig owner own) (\<lambda>(w, u). ret (case w of None \<Rightarrow> b | Some j \<Rightarrow> b @ [j])))
          (\<lambda>_. ok1 (kwargs ! i))"
        by (rule quiet_bindI [OF quiet_argument_at [OF s]], clarify, rule quiet_ret) (auto simp: ok1_def k Some)
      then show ?thesis unfolding x F_def by (simp add: Some quiet_err_ret)
    qed
    then show ?thesis by (rule quiet_weaken) (simp add: less_Suc_eq)
  qed
  then have "quiet (fold_chk F ?xs ws) (\<lambda>b'. (\<forall>j<0. ok1 (kwargs ! j)) \<longrightarrow> (\<forall>j<length ?xs. ok1 (kwargs ! j)))" by (rule quiet_fold)
  then show ?thesis unfolding named_args_def F_def by (rule quiet_weaken) (simp add: all_set_conv_all_nth ok1_def)
qed

lemma quiet_price_units: "quiet (price_units g sp us) (\<lambda>_. strict_units g \<longrightarrow>
    (\<forall>i\<in>set (sp_price_args sp). i < length us \<longrightarrow> us ! i = Some ''price'' \<or> us ! i = ANY_UNIT))"
proof -
  have "quiet (price_units g sp us) (\<lambda>_. \<forall>i\<in>set (sp_price_args sp). strict_units g \<longrightarrow> i < length us \<longrightarrow> us ! i = Some ''price'' \<or> us ! i = ANY_UNIT)"
    unfolding price_units_def by (rule quiet_each) (auto simp: quiet_err quiet_raise intro: quiet_ret)
  then show ?thesis by (rule quiet_weaken) blast
qed

lemma few_distinct: "\<not> 1 < length (remdups xs) \<Longrightarrow> x \<in> set xs \<Longrightarrow> y \<in> set xs \<Longrightarrow> x = y"
proof -
  assume a: "\<not> 1 < length (remdups xs)" "x \<in> set xs" "y \<in> set xs"
  then have "card (set xs) \<le> 1" by (simp add: length_remdups_card_conv)
  then show "x = y" using a(2,3) by (metis card_le_Suc0_iff_eq finite_set One_nat_def)
qed

lemma quiet_same_units: "quiet (same_units g sp us) (\<lambda>_. strict_units g \<longrightarrow>
    (\<forall>i j. i < length us \<and> j < length us \<and> (sp_varargs sp \<or> i \<in> set (sp_same_unit_args sp) \<and> j \<in> set (sp_same_unit_args sp))
          \<longrightarrow> us ! i = us ! j \<or> us ! i \<in> {None, ANY_UNIT} \<or> us ! j \<in> {None, ANY_UNIT}))"
proof (cases "sp_varargs sp \<or> sp_same_unit_args sp \<noteq> []")
  case True
  let ?ps = "if sp_varargs sp then [0..<length us] else sp_same_unit_args sp"
  let ?seen = "filter (\<lambda>u. u \<noteq> None \<and> u \<noteq> ANY_UNIT) (map (\<lambda>i. us ! i) (filter (\<lambda>i. i < length us) ?ps))"
  have m: "us ! i \<in> set ?seen" if "i < length us" "sp_varargs sp \<or> i \<in> set (sp_same_unit_args sp)" "us ! i \<notin> {None, ANY_UNIT}" for i
    using that by auto
  have "quiet (guard (1 < length (remdups ?seen) \<and> strict_units g) (err ''unit_mismatch'' [])) (\<lambda>_. strict_units g \<longrightarrow>
    (\<forall>i j. i < length us \<and> j < length us \<and> (sp_varargs sp \<or> i \<in> set (sp_same_unit_args sp) \<and> j \<in> set (sp_same_unit_args sp))
          \<longrightarrow> us ! i = us ! j \<or> us ! i \<in> {None, ANY_UNIT} \<or> us ! j \<in> {None, ANY_UNIT}))"
    by (rule quiet_weaken [OF quiet_guard_err]) (use few_distinct [of ?seen] m in blast)
  then show ?thesis using True by (simp add: same_units_def Let_def)
next
  case False
  then show ?thesis by (auto simp: same_units_def intro: quiet_ret)
qed

lemma quiet_guard_any: "quiet (guard b (err k ns)) (\<lambda>_. True)"
  by (rule quiet_weaken [OF quiet_guard_err]) simp

lemma quiet_each_any: "(\<And>x. quiet (f x) (\<lambda>_. True)) \<Longrightarrow> quiet (each f xs) (\<lambda>_. True)"
  by (rule quiet_weaken [OF quiet_each [where P = "\<lambda>_. True"]]) simp_all

lemma quiet_fold_any: "(\<And>x b. quiet (f x b) (\<lambda>_. True)) \<Longrightarrow> quiet (fold_chk f xs b) (\<lambda>_. True)"
  by (rule quiet_weaken [OF quiet_fold [where J = "\<lambda>_ _. True"]]) (simp_all add: quiet_def)

lemma quiet_lift_any: "quiet (lift_res r) (\<lambda>_. True)"
  by (rule quiet_lift) simp

lemma quiet_bind_any: "quiet m (\<lambda>_. True) \<Longrightarrow> (\<And>x. quiet (f x) (\<lambda>_. True)) \<Longrightarrow> quiet (cbind m f) (\<lambda>_. True)"
  by (rule quiet_bindI [where P = "\<lambda>_. True"]) simp_all

lemma quiet_then_any: "quiet m (\<lambda>_. True) \<Longrightarrow> quiet k (\<lambda>_. True) \<Longrightarrow> quiet (andthen m k) (\<lambda>_. True)"
  by (rule quiet_thenI [where P = True]) simp_all

lemma quiet_ret_any: "quiet (ret x) (\<lambda>_. True)"
  by (rule quiet_ret) simp

lemma quiet_minutes_any: "quiet (minutes tf) (\<lambda>_. True)"
  by (rule quiet_weaken [OF quiet_minutes]) simp

lemmas quiet_any = quiet_guard_any quiet_each_any quiet_fold_any quiet_lift_any quiet_bind_any quiet_then_any quiet_ret_any
  quiet_raise quiet_minutes_any

lemma quiet_kwarg_degrees: "quiet (kwarg_degrees g sp kwargs b) (\<lambda>_. True)"
  unfolding kwarg_degrees_def by (auto intro!: quiet_any split: option.split)

lemma quiet_tf_multiples: "quiet (tf_multiples g args sp own) (\<lambda>_. True)"
  unfolding tf_multiples_def Let_def by (auto intro!: quiet_any split: option.split)

lemma quiet_ordered: "quiet (ordered_arguments g args sp) (\<lambda>_. True)"
  unfolding ordered_arguments_def Let_def by (auto intro!: quiet_any split: option.split)

lemma quiet_call_min_bars: "quiet (call_min_bars g sp args kwargs own) (\<lambda>_. True)"
  unfolding call_min_bars_def pattern_direction_def
  by (auto intro!: quiet_any quiet_kwarg_degrees quiet_tf_multiples quiet_ordered)

lemma quiet_need: "quiet (need_bars tf b) (\<lambda>_. True)"
  unfolding need_bars_def by (rule quiet_upd) simp_all

lemma quiet_call:
  assumes args: "\<forall>ac\<in>set kargs. arg_sound g ac" and kwargs: "\<forall>kac\<in>set kkwargs. arg_sound g (snd kac)"
  shows "quiet (call g p nm kargs kkwargs off tfj tf) (typed g tf (NCall nm (map fst kargs) (map (\<lambda>(k, a, c). (k, a)) kkwargs) off tfj))"
proof (cases "lookup (registry g) nm")
  case None
  then show ?thesis unfolding call_def by (simp add: quiet_err_ret)
next
  case (Some sp)
  let ?args = "map fst kargs" and ?kwargs = "map (\<lambda>(k, a, c). (k, a)) kkwargs"
  let ?n = "length ?args"
  have fin: "typed g tf (NCall nm ?args ?kwargs off tfj) (if sp_returns sp = T_NUM then (T_NUM, call_unit sp us) else (sp_returns sp, None))"
    if h: "\<not> ((off \<noteq> 0 \<or> json_truthy tfj) \<and> \<not> sp_timeframed sp)" "own_frame g tfj tf own" "offset = off \<and> 0 \<le> off \<and> off \<le> MAX_OFFSET"
      "sp_args sp \<noteq> [] \<or> \<not> sp_varargs sp \<longrightarrow> arity_ok sp ?n" "sp_name sp \<in> set READS_HISTORY \<longrightarrow> last_bar_free g (?args @ map snd ?kwargs)"
      "\<forall>k\<in>set (map fst ?kwargs). kwarg_sig sp k \<noteq> None" "\<not> (sp_timeframes sp \<noteq> [] \<and> own \<notin> set (sp_timeframes sp))"
      "sigs = sigs_of sp ?n \<and> (sp_varargs sp \<longrightarrow> sp_args sp \<noteq> [])"
      "length us = min (length kargs) (length sigs) \<and> (\<forall>i<length us. typed_arg g own (fst (kargs ! i)) (sigs ! i) (us ! i))"
      "\<forall>kac\<in>set kkwargs. kwarg_sig sp (fst kac) \<noteq> None \<longrightarrow>
         (\<exists>sig u. kwarg_sig sp (fst kac) = Some sig \<and> typed_arg g own (fst (snd kac)) sig u)"
      "strict_units g \<longrightarrow> (\<forall>i\<in>set (sp_price_args sp). i < length us \<longrightarrow> us ! i = Some ''price'' \<or> us ! i = ANY_UNIT)"
      "strict_units g \<longrightarrow> (\<forall>i j. i < length us \<and> j < length us
          \<and> (sp_varargs sp \<or> i \<in> set (sp_same_unit_args sp) \<and> j \<in> set (sp_same_unit_args sp))
          \<longrightarrow> us ! i = us ! j \<or> us ! i \<in> {None, ANY_UNIT} \<or> us ! j \<in> {None, ANY_UNIT})"
    for own offset sigs us
  proof -
    have ar: "arity_ok sp ?n" using h(4,8) by blast
    then have "length sigs = length kargs" using h(8) by (auto simp: arity_ok_def sigs_of_def)
    then have us: "length us = ?n" using h(9) by simp
    have us2: "\<forall>i<?n. typed_arg g own (?args ! i) (sigs_of sp ?n ! i) (us ! i)"
    proof (intro allI impI)
      fix i
      assume i: "i < ?n"
      then have il: "i < length us" using us by simp
      have "typed_arg g own (fst (kargs ! i)) (sigs ! i) (us ! i)" by (rule conjunct2 [OF h(9), rule_format, OF il])
      moreover have "?args ! i = fst (kargs ! i)" using i by simp
      ultimately show "typed_arg g own (?args ! i) (sigs_of sp ?n ! i) (us ! i)" using conjunct1 [OF h(8)] by simp
    qed
    have kw: "\<forall>kv\<in>set ?kwargs. \<exists>sig u. kwarg_sig sp (fst kv) = Some sig \<and> typed_arg g own (snd kv) sig u"
    proof
      fix kv
      assume kv: "kv \<in> set ?kwargs"
      then obtain kac where k: "kac \<in> set kkwargs" "kv = (fst kac, fst (snd kac))" by auto
      have "fst kv \<in> set (map fst ?kwargs)" using imageI [OF kv, of fst] by (simp only: list.set_map)
      then have "kwarg_sig sp (fst kv) \<noteq> None" by (rule bspec [OF h(6)])
      then show "\<exists>sig u. kwarg_sig sp (fst kv) = Some sig \<and> typed_arg g own (snd kv) sig u"
        using bspec [OF h(10) k(1)] by (simp add: k(2))
    qed
    have "typed g tf (NCall nm ?args ?kwargs off tfj) (result_type sp us)"
    proof (rule typed_typed_arg.t_call [OF Some h(2) _ _ _ ar _ h(5) us us2 kw])
      show "units_ok g sp us" unfolding units_ok_def using h(11,12) by blast
    qed (use h(1,3,7) in auto)
    then show ?thesis by (simp add: result_type_def)
  qed
  show ?thesis
    unfolding call_def Some option.case Let_def
    apply (rule quiet_thenI [OF quiet_guard_err])
    apply (rule quiet_bindI [OF quiet_tf_of], rename_tac own)
    apply (rule quiet_bindI [OF quiet_offset])
    apply (rule quiet_thenI [OF quiet_upd [where P = "\<lambda>_. True"]], simp, simp, simp)
    apply (rule quiet_thenI [OF quiet_arity])
    apply (rule quiet_thenI [OF quiet_guard [OF quiet_history]])
    apply (rule quiet_thenI [OF quiet_known_kwargs])
    apply (rule quiet_thenI [OF quiet_guard_err])
    apply (rule quiet_bindI [OF quiet_signatures])
    apply (rule quiet_bindI [OF quiet_positional [OF args]], clarify, rename_tac ws us)
    apply (rule quiet_bindI [OF quiet_named [OF kwargs]])
    apply (rule quiet_thenI [OF quiet_price_units])
    apply (rule quiet_thenI [OF quiet_same_units])
    apply (rule quiet_bindI [OF quiet_call_min_bars])
    apply (rule quiet_thenI [OF quiet_need])
    apply (rule quiet_thenI [where P = True])
    subgoal by (auto intro!: quiet_any quiet_upd)
    apply (rule quiet_thenI [OF quiet_upd [where P = "\<lambda>_. True"]], simp, simp, simp)
    apply (rule quiet_ret)
    apply (intro impI)
    apply (rule fin, assumption+)
    done
qed

lemma quiet_field: "quiet (field g nm off tfj tf) (typed g tf (NField nm off tfj))"
proof (cases "lookup FIELDS nm")
  case None
  then show ?thesis by (simp add: field_def quiet_err_ret)
next
  case (Some sp)
  show ?thesis
    unfolding field_def Some option.case
    apply (rule quiet_bindI [OF quiet_tf_of])
    apply (rule quiet_bindI [OF quiet_offset])
    apply (rule quiet_thenI [OF quiet_need])
    apply (rule quiet_thenI [OF quiet_upd [where P = "\<lambda>_. True"]], simp, simp, simp)
    apply (rule quiet_ret)
    apply (auto intro: typed_typed_arg.t_field [OF Some])
    done
qed

lemma quiet_arith: "quiet (arith g op l r) (\<lambda>t. typed g tf a l \<longrightarrow> typed g tf b r \<longrightarrow> typed g tf (NBinary op a b) t)"
proof (cases "fst l = T_NUM \<and> fst r = T_NUM")
  case True
  obtain u v where uv: "l = (T_NUM, u)" "r = (T_NUM, v)" using True by (metis prod.collapse)
  have t: "typed g tf a l \<longrightarrow> typed g tf b r \<longrightarrow> typed g tf (NBinary op a b) (arith_type op u v)" if "is_additive op \<longrightarrow> same_unit g u v"
    using that typed_typed_arg.t_binary [of g tf a u b v op] uv by simp
  have "quiet (andthen (guard (u \<noteq> v \<and> u \<noteq> ANY_UNIT \<and> v \<noteq> ANY_UNIT \<and> strict_units g) (err ''unit_mismatch'' []))
      (ret (T_NUM, pick_unit u v))) (\<lambda>t. typed g tf a l \<longrightarrow> typed g tf b r \<longrightarrow> typed g tf (NBinary op a b) t)" if "is_additive op"
    by (rule quiet_thenI [OF quiet_guard_err], rule quiet_ret) (use t that in \<open>auto simp: same_unit_def arith_type_def\<close>)
  then show ?thesis using True uv t by (auto simp: arith_def arith_type_def intro!: quiet_ret)
qed (auto simp: arith_def intro: quiet_err_ret)

lemma quiet_condition:
  assumes "\<And>p tf. quiet (c p tf) (typed g tf a)"
  shows "quiet (condition c p tf) (\<lambda>_. \<exists>u. typed g tf a (T_BOOL, u))"
  unfolding condition_def
  by (rule quiet_bindI [OF assms], rule quiet_weaken [OF quiet_guard_err]) (metis prod.collapse)

lemma quiet_in_item:
  assumes "arg_sound g (a, c)"
  shows "quiet (in_item g v p tf (i, a, c)) (\<lambda>_. is_lit a \<and> (\<exists>r. typed g tf a r \<and> compare_ok g v r ''IN''))"
proof -
  have "quiet (cbind (c (p @ [i]) tf) (\<lambda>t. comparable g v t ''IN'')) (\<lambda>_. \<exists>r. typed g tf a r \<and> compare_ok g v r ''IN'')"
    by (rule quiet_bindI [of _ "typed g tf a"], use assms in \<open>simp add: arg_sound_def\<close>, rule quiet_weaken [OF quiet_comparable]) blast
  then show ?thesis unfolding in_item_def by (cases a) (simp_all add: is_lit_def quiet_err)
qed

lemma snd_in_enumerate: "x \<in> set (enumerate k xs) \<Longrightarrow> snd x \<in> set xs"
  by (cases x) (auto simp: in_set_enumerate_eq)

lemma snds_snd: "snd kv \<in> Basic_BNFs.snds kv"
  by (cases kv) (auto simp: snds.simps)

lemma check_sound: "quiet (check g n p tf) (typed g tf n)"
proof (induction n arbitrary: p tf)
  case (NNum v)
  show ?case unfolding check.simps
    by (rule quiet_thenI [OF quiet_guard_err], rule quiet_ret) (auto split: pynum.splits intro: typed_typed_arg.t_num)
next
  case (NStr s)
  show ?case unfolding check.simps by (rule quiet_ret) (rule typed_typed_arg.t_str)
next
  case (NBool b)
  show ?case unfolding check.simps by (rule quiet_ret) (rule typed_typed_arg.t_bool)
next
  case (NParam nm)
  show ?case unfolding check.simps
    by (rule quiet_thenI [OF quiet_use_param]) (auto intro: quiet_err_ret quiet_ret typed_typed_arg.t_param split: option.split)
next
  case (NField nm off tfj)
  show ?case unfolding check.simps by (rule quiet_field)
next
  case (NCall nm args kwargs off tfj)
  have k: "arg_sound g (snd kv, check g (snd kv))" if "kv \<in> set kwargs" for kv
    unfolding arg_sound_def using NCall(2) [OF that] by (simp add: snds_snd)
  have "quiet (call g p nm (map (\<lambda>a. (a, check g a)) args) (map (\<lambda>kv. (fst kv, snd kv, check g (snd kv))) kwargs) off tfj tf)
      (typed g tf (NCall nm (map fst (map (\<lambda>a. (a, check g a)) args))
        (map (\<lambda>(k, a, c). (k, a)) (map (\<lambda>kv. (fst kv, snd kv, check g (snd kv))) kwargs)) off tfj))"
    by (rule quiet_call) (use NCall(1) k in \<open>auto simp: arg_sound_def\<close>)
  then show ?case by (simp add: comp_def)
next
  case (NUnary op a)
  show ?case unfolding check.simps
    by (rule quiet_bindI [OF NUnary.IH], rule quiet_thenI [OF quiet_guard_err], rule quiet_ret)
      (metis prod.collapse typed_typed_arg.t_unary)
next
  case (NBinary op a b)
  show ?case unfolding check.simps
    by (rule quiet_bindI [OF NBinary.IH(1)], rule quiet_bindI [OF NBinary.IH(2)], rule quiet_weaken [OF quiet_arith]) blast
next
  case (NCompare op a b)
  show ?case unfolding check.simps
    by (rule quiet_bindI [OF NCompare.IH(1)], rule quiet_bindI [OF NCompare.IH(2)], rule quiet_thenI [OF quiet_comparable],
        rule quiet_thenI [OF quiet_domain], rule quiet_thenI [OF quiet_domain], rule quiet_ret) (blast intro: typed_typed_arg.t_compare)
next
  case (NBetween v a b)
  have t: "typed g tf (NBetween v a b) (T_BOOL, None)" if "typed g tf v tv" "typed g tf a l" "typed g tf b h"
      "compare_ok g tv l ''BETWEEN''" "compare_ok g tv h ''BETWEEN''" for tv l h
    using that typed_typed_arg.t_between [of g tf v "snd tv" a "snd l" b "snd h"] by (cases tv, cases l, cases h) (auto simp: compare_ok_def)
  show ?case unfolding check.simps
    by (rule quiet_bindI [OF NBetween.IH(1)], rule quiet_bindI [OF NBetween.IH(2)], rule quiet_bindI [OF NBetween.IH(3)],
        rule quiet_thenI [OF quiet_comparable], rule quiet_thenI [OF quiet_comparable], rule quiet_thenI [OF quiet_guard_err], rule quiet_ret)
      (blast intro: t)
next
  case (NIn v items)
  have e: "quiet (each (in_item g t p tf) (enumerate 1 (map (\<lambda>a. (a, check g a)) items)))
      (\<lambda>_. \<forall>a\<in>set items. is_lit a \<and> (\<exists>r. typed g tf a r \<and> compare_ok g t r ''IN''))" for t
  proof (rule quiet_weaken [OF quiet_each [where P = "\<lambda>(i, a, c). is_lit a \<and> (\<exists>r. typed g tf a r \<and> compare_ok g t r ''IN'')"]])
    fix x
    assume "x \<in> set (enumerate 1 (map (\<lambda>a. (a, check g a)) items))"
    then have "snd x \<in> set (map (\<lambda>a. (a, check g a)) items)" by (rule snd_in_enumerate)
    then obtain i a where x: "x = (i, a, check g a)" "a \<in> set items" by (cases x) auto
    then have "arg_sound g (a, check g a)" using NIn(2) by (simp add: arg_sound_def)
    then show "quiet (in_item g t p tf x) (\<lambda>_. case x of (i, a, c) \<Rightarrow> is_lit a \<and> (\<exists>r. typed g tf a r \<and> compare_ok g t r ''IN''))"
      using quiet_in_item x(1) by simp
  next
    assume l: "\<forall>x\<in>set (enumerate 1 (map (\<lambda>a. (a, check g a)) items)). case x of (i, a, c) \<Rightarrow> is_lit a \<and> (\<exists>r. typed g tf a r \<and> compare_ok g t r ''IN'')"
    show "\<forall>a\<in>set items. is_lit a \<and> (\<exists>r. typed g tf a r \<and> compare_ok g t r ''IN'')"
    proof
      fix a
      assume "a \<in> set items"
      then obtain i where i: "i < length items" "a = items ! i" by (metis in_set_conv_nth)
      then have "(1 + i, a, check g a) \<in> set (enumerate 1 (map (\<lambda>a. (a, check g a)) items))" by (simp add: in_set_enumerate_eq)
      from bspec [OF l this] show "is_lit a \<and> (\<exists>r. typed g tf a r \<and> compare_ok g t r ''IN'')" by simp
    qed
  qed
  show ?case unfolding check.simps
    by (rule quiet_bindI [OF NIn(1)], rule quiet_thenI [OF quiet_guard_err], rule quiet_thenI [OF e], rule quiet_thenI [OF quiet_domain],
        rule quiet_ret) (blast intro: typed_typed_arg.t_in)
next
  case (NLogic op items)
  have e: "quiet (each (\<lambda>(i, c). condition c (p @ [i]) tf) (enumerate 0 (map (check g) items))) (\<lambda>_. \<forall>a\<in>set items. \<exists>u. typed g tf a (T_BOOL, u))"
  proof (rule quiet_weaken [OF quiet_each [where P = "\<lambda>x. \<exists>u. typed g tf (items ! fst x) (T_BOOL, u)"]])
    fix x
    assume "x \<in> set (enumerate 0 (map (check g) items))"
    then have x: "fst x < length items" "snd x = check g (items ! fst x)" by (auto simp: in_set_enumerate_eq)
    then have "\<And>p tf. quiet (snd x p tf) (typed g tf (items ! fst x))" using NLogic by simp
    then show "quiet (case x of (i, c) \<Rightarrow> condition c (p @ [i]) tf) (\<lambda>_. \<exists>u. typed g tf (items ! fst x) (T_BOOL, u))"
      using quiet_condition [of "snd x" g "items ! fst x"] by (simp add: case_prod_beta)
  next
    assume l: "\<forall>x\<in>set (enumerate 0 (map (check g) items)). \<exists>u. typed g tf (items ! fst x) (T_BOOL, u)"
    show "\<forall>a\<in>set items. \<exists>u. typed g tf a (T_BOOL, u)"
    proof
      fix a
      assume "a \<in> set items"
      then obtain i where i: "i < length items" "a = items ! i" by (metis in_set_conv_nth)
      then have "(i, check g a) \<in> set (enumerate 0 (map (check g) items))" by (simp add: in_set_enumerate_eq)
      then show "\<exists>u. typed g tf a (T_BOOL, u)" using l i(2) by fastforce
    qed
  qed
  show ?case unfolding check.simps
    by (rule quiet_thenI [OF quiet_guard_err], rule quiet_thenI [OF quiet_guard_err], rule quiet_thenI [OF e], rule quiet_ret)
      (blast intro: typed_typed_arg.t_logic)
next
  case (NNot a)
  show ?case unfolding check.simps
    by (rule quiet_thenI [OF quiet_condition [OF NNot.IH]], rule quiet_ret) (blast intro: typed_typed_arg.t_not)
qed

section \<open>Accepted screens\<close>

lemma fresh_lbr: "problems fresh = []" "last_bar_reported fresh = []"
  by (simp_all add: fresh_def)

lemma finish_ok: "ok (finish s) \<Longrightarrow> problems s = [] \<and> finish s = s"
  by (auto simp: finish_def split: if_splits)

lemma validate_ok:
  assumes "validate g cap n = Inr v" "ok v"
  shows "map_of TF_MINUTES (base_tf g) \<noteq> None \<and> (\<exists>u. typed g (base_tf g) n (T_BOOL, u)) \<and> cost v \<le> cap \<and> set (map fst (params g)) \<subseteq> set (params_used v)"
proof -
  have b: "map_of TF_MINUTES (base_tf g) \<noteq> None" using assms by (auto simp: validate_def refused_def split: if_splits)
  let ?m = "cbind (check g n [] (base_tf g)) (\<lambda>t. andthen (guard (fst t \<noteq> T_BOOL) (err ''not_condition'' [])) (closing g cap))"
  obtain x s where m: "?m fresh = Inr (x, s)" "v = finish s"
    using assms(1) b by (auto simp: validate_def run_def split: sum.splits prod.splits)
  have s: "problems s = []" "v = s" using finish_ok [of s] assms(2) m(2) by auto
  have c: "quiet (closing g cap) (\<lambda>_. True)"
    unfolding closing_def by (rule quiet_then_any; simp add: quiet_def guard_def ret_def err_def upd_def)
  have "quiet ?m (\<lambda>_. \<exists>u. typed g (base_tf g) n (T_BOOL, u))"
    by (rule quiet_bindI [OF check_sound], rule quiet_thenI [OF quiet_guard_err], rule quiet_weaken [OF c]) (metis prod.collapse)
  then have t: "\<exists>u. typed g (base_tf g) n (T_BOOL, u)" using m(1) s(1) unfolding quiet_def by (metis fresh_lbr)
  obtain s1 where s1: "closing g cap s1 = Inr (x, s)" using m(1) by (auto simp: cbind_def andthen_def split: sum.splits prod.splits)
  then have "cost s \<le> cap \<and> unused_params g s = []" using s(1)
    by (auto simp: closing_def andthen_def cbind_def guard_def ret_def err_def upd_def not_le split: if_splits)
  then show ?thesis using b t s(2) by (auto simp: unused_params_def filter_empty_conv)
qed

text \<open>
  C31. The validator refines the type system: a screen it accepts has a derivation by the rules of
  \<open>typed\<close> that ends in a condition, for any registry of functions. In particular every name is known,
  every call has an arity and arguments of the types and units its signature asks for, windows are
  whole numbers from 1 to 500 and settings literals from their choices and bounds; the cost is within
  the cap and every parameter given is used.
\<close>
theorem validate_sound:
  assumes "validate g cap n = Inr v" "ok v"
  shows "(\<exists>u. typed g (base_tf g) n (''bool'', u)) \<and> cost v \<le> cap \<and> set (map fst (params g)) \<subseteq> set (params_used v)"
  using validate_ok [OF assms] by simp

text \<open>No accepted screen reads a future bar, or a timeframe finer than its own.\<close>

definition node_safe :: "env \<Rightarrow> node \<Rightarrow> bool" where
  "node_safe g nd = (case nd of
      NField nm off tfj \<Rightarrow> lookup FIELDS nm \<noteq> None \<and> 0 \<le> off \<and> off \<le> 500 \<and> (json_truthy tfj \<longrightarrow> (\<exists>own. own_frame g tfj [] own))
    | NCall nm args kwargs off tfj \<Rightarrow> lookup (registry g) nm \<noteq> None \<and> 0 \<le> off \<and> off \<le> 500
        \<and> (json_truthy tfj \<longrightarrow> (\<exists>own. own_frame g tfj [] own))
    | _ \<Rightarrow> True)"


definition walk_safe :: "env \<Rightarrow> node \<Rightarrow> bool" where
  "walk_safe g n = (\<forall>nd\<in>set (walk n). node_safe g nd)"

lemma walk_safeI: "node_safe g n \<Longrightarrow> (\<forall>c\<in>set (children n). walk_safe g c) \<Longrightarrow> walk_safe g n"
  unfolding walk_safe_def by (subst walk.simps) auto

lemma own_frame_any: "own_frame g tfj tf own \<Longrightarrow> json_truthy tfj \<longrightarrow> (\<exists>own. own_frame g tfj [] own)"
  by (auto simp: own_frame_def)

lemma walk_args: "(\<forall>i<length args. typed_arg g own (args ! i) (sigs ! i) (us ! i) \<and> walk_safe g (args ! i)) \<Longrightarrow> \<forall>c\<in>set args. walk_safe g c"
  by (simp add: all_set_conv_all_nth)

lemma typed_safe:
  "typed g tf n t \<Longrightarrow> walk_safe g n"
  "typed_arg g own a sig u \<Longrightarrow> walk_safe g a"
proof (induction rule: typed_typed_arg.inducts)
  case (t_field nm sp tfj tf own off)
  then have "node_safe g (NField nm off tfj)" using own_frame_any [of g tfj tf own] by (simp add: node_safe_def MAX_OFFSET_def)
  then show ?case by (rule walk_safeI) simp
next
  case (t_call nm sp tfj tf own off args kwargs us)
  then have "node_safe g (NCall nm args kwargs off tfj)" using own_frame_any [of g tfj tf own] by (simp add: node_safe_def MAX_OFFSET_def)
  moreover have "\<forall>c\<in>set args. walk_safe g c" by (rule walk_args) (use t_call.IH in blast)
  moreover have "\<forall>kv\<in>set kwargs. walk_safe g (snd kv)" using t_call.IH by blast
  ultimately show ?case by (intro walk_safeI) auto
next
  case (a_window sig a own)
  then show ?case by (cases a) (simp_all add: window_ok_def walk_safeI node_safe_def)
next
  case (t_num tf x)
  show ?case by (rule walk_safeI) (simp_all add: node_safe_def)
next
  case (t_str tf s)
  show ?case by (rule walk_safeI) (simp_all add: node_safe_def)
next
  case (t_bool tf b)
  show ?case by (rule walk_safeI) (simp_all add: node_safe_def)
next
  case (t_param nm v tf)
  show ?case by (rule walk_safeI) (simp_all add: node_safe_def)
next
  case (t_unary tf a u op)
  then show ?case by (intro walk_safeI) (simp_all add: node_safe_def)
next
  case (t_binary tf a u b v op)
  then show ?case by (intro walk_safeI) (simp_all add: node_safe_def)
next
  case (t_compare tf a l b r op)
  then show ?case by (intro walk_safeI) (simp_all add: node_safe_def)
next
  case (t_between tf v u a u1 b u2)
  then show ?case by (intro walk_safeI) (simp_all add: node_safe_def)
next
  case (t_not tf a u)
  then show ?case by (intro walk_safeI) (simp_all add: node_safe_def)
next
  case (t_in tf v t items)
  then have "\<forall>c\<in>set items. walk_safe g c" by blast
  then show ?case using t_in.IH by (intro walk_safeI) (simp_all add: node_safe_def)
next
  case (t_logic op items tf)
  then have "\<forall>c\<in>set items. walk_safe g c" by blast
  then show ?case by (intro walk_safeI) (simp_all add: node_safe_def)
next
  case (a_value sig own a u)
  show ?case by (rule a_value.IH)
qed

text \<open>
  C32. No look-ahead: in an accepted screen every field and every call, however deep, has a name of
  the registry, an offset from 0 to 500 bars back, and a timeframe that is known and not finer than the
  screen's own, so that its value is known on the bar the screen runs on.
\<close>
theorem accepted_no_look_ahead:
  assumes "validate g cap n = Inr v" "ok v" "nd \<in> set (walk n)"
  shows "node_safe g nd"
  using validate_ok [OF assms(1,2)] typed_safe(1) assms(3) unfolding walk_safe_def by blast

section \<open>A registry\<close>

text \<open>Entries of the source's registry, for concrete screens.\<close>

definition demo_registry :: "spec list" where
  "demo_registry =
     [(new_spec ''SMA'' ''factor'' ''num'' (Some ''same''))\<lparr>sp_args := [new_arg ''x'' ''num'', new_arg ''n'' ''window'']\<rparr>,
      (new_spec ''RSI'' ''factor'' ''num'' (Some ''index''))\<lparr>sp_args := [(new_arg ''n'' ''window'')\<lparr>a_default := JInt 14, a_required := False\<rparr>]\<rparr>,
      (new_spec ''Greatest'' ''factor'' ''num'' (Some ''same''))\<lparr>sp_args := [new_arg ''x'' ''num''], sp_varargs := True, sp_timeframed := False\<rparr>,
      (new_spec ''CrossAbove'' ''filter'' ''bool'' None)\<lparr>sp_args := [new_arg ''a'' ''num'', new_arg ''b'' ''num''], sp_same_unit_args := [0, 1],
        sp_extra_bars := 1\<rparr>,
      (new_spec ''Sector'' ''classifier'' ''cat'' None)\<lparr>sp_timeframed := False\<rparr>]"

definition demo_env :: env where
  "demo_env = \<lparr>base_tf = ''1d'', params = [(''n'', JInt 50)], strict_units = True, registry = demo_registry, all_functions = demo_registry\<rparr>"

definition demo_ast :: node where
  "demo_ast = NLogic ''ALL'' [NCompare ''>'' (NField ''close'' 1 (JStr ''1w'')) (NCall ''SMA'' [NField ''close'' 0 JNull, NParam ''n''] [] 2 JNull),
     NCompare ''=='' (NCall ''Sector'' [] [] 0 JNull) (NStr ''IT''), NCompare ''<'' (NCall ''RSI'' [] [] 0 JNull) (NNum (Fin 30))]"

definition verdict :: "py_error + validated \<Rightarrow> validated" where
  "verdict r = (case r of Inl _ \<Rightarrow> refused [] | Inr v \<Rightarrow> v)"

text \<open>
  Evaluation of the checker on a concrete screen: the equations of its operators applied to a state,
  and congruences that keep the simplifier out of what has not been reached yet.
\<close>

lemma cbind_lazy: "cbind m f s = cbind m f s" by simp
lemma andthen_lazy: "andthen m k s = andthen m k s" by simp
lemma each_lazy: "xs = xs' \<Longrightarrow> each f xs s = each f xs' s" by simp
lemma fold_lazy: "xs = xs' \<Longrightarrow> fold_chk f xs b s = fold_chk f xs' b s" by simp
lemma guard_lazy: "b = b' \<Longrightarrow> guard b m s = guard b' m s" by simp
lemma call_lazy: "call g p nm ka kk off tfj tf s = call g p nm ka kk off tfj tf s" by simp
lemma cbind_run: "cbind m f s = (case m s of Inl e \<Rightarrow> Inl e | Inr p \<Rightarrow> f (fst p) (snd p))"
  by (simp add: cbind_def split: sum.split prod.split)
lemma andthen_run: "andthen m k s = (case m s of Inl e \<Rightarrow> Inl e | Inr p \<Rightarrow> k (snd p))"
  by (simp add: andthen_def cbind_def split: sum.split prod.split)
lemma ret_run: "ret x s = Inr (x, s)" by (simp add: ret_def)
lemma upd_run: "upd f s = Inr ((), f s)" by (simp add: upd_def)
lemma guard_run: "guard True m s = m s" "guard False m s = Inr ((), s)" by (simp_all add: guard_def ret_def)
lemma lift_run: "lift_res (Inr x) s = Inr (x, s)" "lift_res (Inl e) s = Inl e" by (simp_all add: lift_res_def)
lemma each_run: "each f [] s = Inr ((), s)" "each f (x # xs) s = andthen (f x) (each f xs) s" by (simp_all add: ret_def)
lemma fold_run: "fold_chk f [] b s = Inr (b, s)" "fold_chk f (x # xs) b s = cbind (f x b) (fold_chk f xs) s" by (simp_all add: ret_def)
lemma err_run: "err k ns s = Inr ((), s\<lparr>ok := False, problems := problems s @ [Problem k ns]\<rparr>)" by (simp add: err_def upd_def)
lemmas evals = cbind_run andthen_run ret_run upd_run guard_run lift_run each_run fold_run err_run
  check.simps field_def call_def tf_of_def minutes_def offset_of_def need_bars_def bump_def use_param_def params_get_def
  window_def window_value_def is_number_def py_float_def argument_def comparable_def domain_def arity_def signatures_def
  known_kwargs_def positional_args_def named_args_def price_units_def same_units_def default_windows_def call_window_def
  pattern_direction_def call_min_bars_def kwarg_degrees_def tf_multiples_def ordered_arguments_def sessions_needed_def
  history_of_last_bar_def report_last_bar_def condition_def in_item_def arith_def lookup_def FIELDS_def new_spec_def new_arg_def
  TF_MINUTES_def add_new_def dict_get_def MAX_OFFSET_def READS_HISTORY_def needed_def choice_bars_def call_unit_def
  num_eq_def trunc_def MAX_WINDOW_def enumerate_eq_zip ANY_UNIT_def fresh_def walk_at.simps Let_def
lemmas lazy = cbind_lazy andthen_lazy each_lazy fold_lazy guard_lazy call_lazy


lemma pynum_of_small: "fl x = x \<Longrightarrow> \<bar>x\<bar> \<le> 10 ^ 15 \<Longrightarrow> pynum_of x = Fin x"
proof -
  assume x: "fl x = x" "\<bar>x\<bar> \<le> 10 ^ 15"
  have "(10 ^ 15 :: rat) < 2 ^ 1024" by simp
  then have "\<bar>x\<bar> < 2 ^ 1024" using x(2) by (rule order_le_less_trans [rotated])
  then have "\<not> 2 ^ 1024 \<le> x" "\<not> x \<le> - (2 ^ 1024)" by linarith+
  then show ?thesis by (simp only: pynum_of_def x(1) if_False)
qed

lemma demo_window: "pynum_of 50 = Fin 50"
  by (rule pynum_of_small, code_simp) simp

lemma validate_accepts:
  assumes "map_of TF_MINUTES (base_tf g) \<noteq> None"
    "case check g n [] (base_tf g) fresh of Inl _ \<Rightarrow> False
     | Inr (t, s) \<Rightarrow> fst t = ''bool'' \<and> ok s \<and> problems s = [] \<and> unused_params g s = [] \<and> cost s \<le> cap"
  shows "case validate g cap n of Inl _ \<Rightarrow> False | Inr v \<Rightarrow> ok v"
  using assms by (auto simp: validate_def run_def closing_def cbind_def andthen_def guard_def ret_def finish_def split: sum.splits prod.splits)

lemma demo_run: "case validate demo_env 200 demo_ast of Inl _ \<Rightarrow> False | Inr v \<Rightarrow> ok v"
  apply (rule validate_accepts)
   apply (simp add: demo_env_def TF_MINUTES_def)
  apply (simp add: evals demo_env_def demo_ast_def demo_registry_def demo_window unused_params_def cong: lazy)
  apply code_simp
  done

lemma demo_accepted: "validate demo_env 200 demo_ast = Inr (verdict (validate demo_env 200 demo_ast))" "ok (verdict (validate demo_env 200 demo_ast))"
  using demo_run by (auto simp: verdict_def split: sum.splits)

theorem validate_sound_witness:
  "(\<exists>u. typed demo_env (base_tf demo_env) demo_ast (''bool'', u)) \<and> cost (verdict (validate demo_env 200 demo_ast)) \<le> 200
     \<and> set (map fst (params demo_env)) \<subseteq> set (params_used (verdict (validate demo_env 200 demo_ast)))"
  by (rule validate_sound [OF demo_accepted])

theorem accepted_no_look_ahead_witness: "node_safe demo_env (NField ''close'' 1 (JStr ''1w''))"
proof (rule accepted_no_look_ahead [OF demo_accepted])
  show "NField ''close'' 1 (JStr ''1w'') \<in> set (walk demo_ast)" by code_simp
qed

lemma fl_powi_ge: "- 1022 \<le> k \<Longrightarrow> 2 powi k \<le> fl (2 powi k)"
proof (rule fl_ge_powi)
  assume k: "- 1022 \<le> k"
  have "flog2 (2 powi k) = k" by (rule flog2_unique) (simp_all add: power_int_add)
  then show "ulp_exp (2 powi k) \<le> k" using k by (simp add: ulp_exp_def)
qed simp_all

lemma pynum_of_big: "2 powi 1024 \<le> x \<Longrightarrow> pynum_of x = PInf"
proof -
  assume "2 powi 1024 \<le> x"
  then have "2 powi 1024 \<le> fl x" using order_trans [OF fl_powi_ge fl_mono, of 1024 x] by linarith
  moreover have "(2 :: rat) powi 1024 = 2 ^ 1024" by (simp only: power_int_numeral)
  ultimately show ?thesis by (simp only: pynum_of_def if_True)
qed

lemma powi_ten_big: "0 \<le> e \<Longrightarrow> k \<le> 3 * e \<Longrightarrow> (2 :: rat) powi k \<le> 10 powi e"
proof -
  assume e: "0 \<le> e" "k \<le> 3 * e"
  have "(2 :: rat) powi k \<le> 2 powi (3 * e)" using e(2) by (rule powi2_mono)
  also have "\<dots> = (2 powi 3) powi e" by (rule power_int_mult)
  also have "(2 powi 3) powi e \<le> (10 :: rat) powi e" using e(1) by (simp add: power_int_def power_mono)
  finally show ?thesis .
qed

lemma num_value_power: "num_value ''1'' [] e = 10 powi e"
  by (simp add: num_value_def digits_int_def)

lemma huge_literal: "float_of_text ''1e999'' = PInf"
proof -
  have "num_parts ''1e999'' = (''1'', [], 999, [])" by code_simp
  then have "float_of_text ''1e999'' = pynum_of (10 powi 999)" by (simp only: float_of_text_def prod.case num_value_power)
  moreover have "(2 :: rat) powi 1024 \<le> 10 powi 999" by (rule powi_ten_big) simp_all
  ultimately show ?thesis by (simp only: pynum_of_big)
qed

text \<open>The parse of the screen, with the number's text kept unevaluated.\<close>

lemma rbind_lazy: "r = r' \<Longrightarrow> rbind r f = rbind r' f"
  by simp

lemmas parser_evals = or_expr.simps and_expr.simps not_expr.simps comparison.simps additive.simps tterm.simps unary.simps
  postfix.simps primary.simps items_of_def items_loop.simps binary_loop.simps args_loop.simps suffixes.simps map_fst_res_def
  group_of_def is_tok_def is_kind_def cur_text_def atom_node_def call_node_def expect_def kwarg_ahead_def is_series_def COMPARE_OPS_def

lemma infinite_tokens: "tokenize ''close > SMA(close, 1e999)'' =
    Inr [(Tok TName ''close'', 0), (Tok TOp ''>'', 6), (Tok TName ''SMA'', 8), (Tok TOp ''('', 11), (Tok TName ''close'', 12),
      (Tok TOp '','', 17), (Tok TNum ''1e999'', 19), (Tok TOp '')'', 24), (Tok TEof [], 25)]"
  by code_simp

lemma infinite_tree: "screen [Tok TName ''close'', Tok TOp ''>'', Tok TName ''SMA'', Tok TOp ''('', Tok TName ''close'', Tok TOp '','',
      Tok TNum ''1e999'', Tok TOp '')'', Tok TEof []] =
    Inr (NCompare ''>'' (NField ''close'' 0 JNull) (NCall ''SMA'' [NField ''close'' 0 JNull, NNum PInf] [] 0 JNull))"
  by (simp add: screen_def MAX_DEPTH_def parser_evals huge_literal py_upper_def char_upper_def cong: rbind_lazy)

text \<open>
  An infinite window crashes the validator: the screen \<open>close > SMA(close, 1e999)\<close> parses (the literal
  is a float infinity), and \<open>validate\<close> raises \<open>OverflowError\<close> where it should refuse the window, because
  \<open>window\<close> converts the literal with \<open>int\<close> before any test that it is finite. With every base timeframe,
  cost cap and registry whose \<open>SMA\<close> takes a number and a window the screen is never refused.
\<close>
theorem infinite_window_raises:
  assumes "lookup (registry g) ''SMA'' = Some ((new_spec ''SMA'' ''factor'' ''num'' (Some ''same''))\<lparr>sp_args := [new_arg ''x'' ''num'', new_arg ''n'' ''window'']\<rparr>)"
    "map_of TF_MINUTES (base_tf g) \<noteq> None"
  shows "compile_screen g cap (Inl ''close > SMA(close, 1e999)'') = Inl OverflowError"
proof -
  have "py_strip ''close > SMA(close, 1e999)'' \<noteq> []" by code_simp
  then have "parse ''close > SMA(close, 1e999)'' =
      Inr (NCompare ''>'' (NField ''close'' 0 JNull) (NCall ''SMA'' [NField ''close'' 0 JNull, NNum PInf] [] 0 JNull))"
    by (simp add: parse_def infinite_tokens infinite_tree)
  then show ?thesis using assms
    by (simp add: compile_screen_def validate_def run_def evals cong: lazy)
qed

theorem infinite_window_raises_witness: "compile_screen demo_env 200 (Inl ''close > SMA(close, 1e999)'') = Inl OverflowError"
proof (rule infinite_window_raises)
  show "lookup (registry demo_env) ''SMA'' =
      Some ((new_spec ''SMA'' ''factor'' ''num'' (Some ''same''))\<lparr>sp_args := [new_arg ''x'' ''num'', new_arg ''n'' ''window'']\<rparr>)"
    by (simp add: demo_env_def demo_registry_def lookup_def new_spec_def)
  show "map_of TF_MINUTES (base_tf demo_env) \<noteq> None" by (simp add: demo_env_def TF_MINUTES_def)
qed

end
