(* ===== verification/RiskGate.thy ===== *)
theory RiskGate
  imports PyRepr
begin

text \<open>
  What stands between a signal and an entry order: the kill switches
  (\<open>app/kill_switch/checks.py\<close>), the trader's risk limits (\<open>RiskConfig\<close> of \<open>app/core/models.py\<close>, the
  switches of \<open>app/risk_engine/risk_limits.py\<close> and \<open>RiskManager\<close> of \<open>app/risk_engine/risk_manager.py\<close>) and
  the losses-in-a-row counters (\<open>app/risk_engine/loss_streak.py\<close>, \<open>app/trading/persistence.py\<close>). The
  levels of a signal may be any Python float; the other numbers are finite. The sentences of a block
  are left out, its numbers are kept. Engaging a switch first asks the brokers to cancel GTT orders; that
  call changes no switch and its failure is ignored, so it is not part of the model. The floor division of two floats is the floor of their exact
  quotient, as in Python for quotients below \<open>2 ^ 52\<close>.
\<close>

section \<open>Kill switches\<close>

datatype switch_scope = SC_GLOBAL | SC_TENANT | SC_STRATEGY

record kill_switch =
  ks_tenant :: "int option"
  ks_scope :: switch_scope
  ks_strategy :: "string option"
  ks_engaged :: bool
  ks_reason :: string
  ks_engaged_by :: "int option"
  ks_engaged_at :: "int option"
  ks_disengaged_at :: "int option"

definition is_switch :: "switch_scope \<Rightarrow> int option \<Rightarrow> string option \<Rightarrow> kill_switch \<Rightarrow> bool" where
  "is_switch sc tn sy r = (ks_scope r = sc \<and> ks_tenant r = tn \<and> ks_strategy r = sy)"

definition get_switch :: "kill_switch list \<Rightarrow> switch_scope \<Rightarrow> int option \<Rightarrow> string option \<Rightarrow> kill_switch option" where
  "get_switch rows sc tn sy = find (is_switch sc tn sy) rows"

text \<open>The changed row is the one \<open>get_switch\<close> returned: the first with the key.\<close>

fun change_first :: "('a \<Rightarrow> bool) \<Rightarrow> ('a \<Rightarrow> 'a) \<Rightarrow> 'a list \<Rightarrow> 'a list" where
  "change_first P f [] = []"
| "change_first P f (x # xs) = (if P x then f x # xs else x # change_first P f xs)"

definition engaged_row :: "int \<Rightarrow> string \<Rightarrow> int \<Rightarrow> kill_switch \<Rightarrow> kill_switch" where
  "engaged_row user reason now r = r\<lparr>ks_engaged := True, ks_reason := reason, ks_engaged_by := Some user,
     ks_engaged_at := Some now, ks_disengaged_at := None\<rparr>"

definition engage :: "kill_switch list \<Rightarrow> switch_scope \<Rightarrow> int option \<Rightarrow> int \<Rightarrow> string \<Rightarrow> string option \<Rightarrow> int \<Rightarrow> kill_switch list" where
  "engage rows sc tn user reason sy now =
     (case get_switch rows sc tn sy of
        Some _ \<Rightarrow> change_first (is_switch sc tn sy) (engaged_row user reason now) rows
      | None \<Rightarrow> rows @ [engaged_row user reason now \<lparr>ks_tenant = tn, ks_scope = sc, ks_strategy = sy, ks_engaged = False,
          ks_reason = [], ks_engaged_by = None, ks_engaged_at = None, ks_disengaged_at = None\<rparr>])"

definition disengage :: "kill_switch list \<Rightarrow> switch_scope \<Rightarrow> int option \<Rightarrow> string option \<Rightarrow> int \<Rightarrow> kill_switch list" where
  "disengage rows sc tn sy now =
     (case get_switch rows sc tn sy of
        None \<Rightarrow> rows
      | Some r \<Rightarrow> if \<not> ks_engaged r then rows
          else change_first (is_switch sc tn sy) (\<lambda>r. r\<lparr>ks_engaged := False, ks_disengaged_at := Some now\<rparr>) rows)"

definition engaged_reason :: "kill_switch list \<Rightarrow> switch_scope \<Rightarrow> int option \<Rightarrow> string option \<Rightarrow> string option" where
  "engaged_reason rows sc tn sy = (case get_switch rows sc tn sy of None \<Rightarrow> None | Some r \<Rightarrow> if ks_engaged r then Some (ks_reason r) else None)"

definition is_global_kill_switch_engaged :: "kill_switch list \<Rightarrow> string option" where
  "is_global_kill_switch_engaged rows = engaged_reason rows SC_GLOBAL None None"

text \<open>\<open>text.rstrip(": ")\<close>.\<close>

definition rstrip_colon :: "string \<Rightarrow> string" where
  "rstrip_colon s = rev (dropWhile (\<lambda>c. c = CHR '':'' \<or> c = CHR '' '') (rev s))"

definition active_kill_switch_reasons :: "kill_switch list \<Rightarrow> int \<Rightarrow> string \<Rightarrow> string list" where
  "active_kill_switch_reasons rows tn sy =
     (case engaged_reason rows SC_GLOBAL None None of None \<Rightarrow> [] | Some r \<Rightarrow> [rstrip_colon (''Global kill switch engaged: '' @ r)])
     @ (case engaged_reason rows SC_TENANT (Some tn) None of None \<Rightarrow> [] | Some r \<Rightarrow> [rstrip_colon (''Account kill switch engaged: '' @ r)])
     @ (case engaged_reason rows SC_STRATEGY (Some tn) (Some sy) of None \<Rightarrow> []
        | Some r \<Rightarrow> [rstrip_colon (''Strategy kill switch engaged for '' @ sy @ '': '' @ r)])"

text \<open>The guard of the anonymous paper execution, \<open>app/strategy_engine/console_routes.py\<close>: a truth test of the reason.\<close>

definition anonymous_entry_blocked :: "kill_switch list \<Rightarrow> bool" where
  "anonymous_entry_blocked rows = truthy (is_global_kill_switch_engaged rows)"

section \<open>The trader's limits\<close>

record risk_config =
  rc_capital :: "pyfloat option"
  rc_risk_per_trade_pct :: "pyfloat option"
  rc_max_daily_loss_pct :: "pyfloat option"
  rc_max_trades_per_day :: "int option"
  rc_max_open_positions :: "int option"
  rc_max_consecutive_losses :: "int option"
  rc_min_risk_reward :: pyfloat
  rc_lot_size :: "int option"
  rc_max_portfolio_risk_pct :: "pyfloat option"
  rc_stop_cooldown_minutes :: "int option"
  rc_dd_level_1_pct :: "pyfloat option"
  rc_dd_level_2_pct :: "pyfloat option"
  rc_event_size_cut_pct :: "pyfloat option"
  rc_dd_cut_pct :: "pyfloat option"
  rc_loss_streak_pause :: "string option"
  rc_max_lots_per_order :: "int option"
  rc_daily_loss_rupees :: "pyfloat option"
  rc_risk_per_trade_rupees :: "pyfloat option"
  rc_loss_cooldown_minutes :: "int option"
  rc_margin_safety_pct :: "pyfloat option"
  rc_event_rules :: bool
  rc_opposite_positions :: "string option"

definition with_capital :: "pyfloat option \<Rightarrow> risk_config \<Rightarrow> risk_config" where
  "with_capital balance cfg = (case (rc_capital cfg, balance) of
      (None, Some b) \<Rightarrow> if 0 < b then cfg\<lparr>rc_capital := Some b\<rparr> else cfg
    | _ \<Rightarrow> cfg)"

definition smaller :: "pyfloat option \<Rightarrow> pyfloat option \<Rightarrow> pyfloat option" where
  "smaller a b = (case (a, b) of (Some x, Some y) \<Rightarrow> Some (min x y) | (Some x, None) \<Rightarrow> Some x | (None, y) \<Rightarrow> y)"

definition positive_only :: "pyfloat option \<Rightarrow> pyfloat option" where
  "positive_only v = (case v of Some x \<Rightarrow> if 0 < x then Some x else None | None \<Rightarrow> None)"

definition pct_of_capital :: "risk_config \<Rightarrow> pyfloat option \<Rightarrow> pyfloat option" where
  "pct_of_capital cfg pct = (case (rc_capital cfg, pct) of (Some c, Some p) \<Rightarrow> Some (fdiv (fmul c p) 100) | _ \<Rightarrow> None)"

definition risk_amount :: "risk_config \<Rightarrow> pyfloat option" where
  "risk_amount cfg = smaller (pct_of_capital cfg (rc_risk_per_trade_pct cfg)) (positive_only (rc_risk_per_trade_rupees cfg))"

definition daily_loss_amount :: "risk_config \<Rightarrow> pyfloat option" where
  "daily_loss_amount cfg = smaller (map_option abs (pct_of_capital cfg (rc_max_daily_loss_pct cfg)))
     (map_option abs (positive_only (rc_daily_loss_rupees cfg)))"

definition margin_share :: "risk_config \<Rightarrow> pyfloat" where
  "margin_share cfg = (case rc_margin_safety_pct cfg of
      Some p \<Rightarrow> if 0 < p \<and> p \<le> 100 then fdiv p 100 else 1
    | None \<Rightarrow> 1)"

text \<open>The checks with the fields each one switches, and a config with the fields of switched-off checks not set.\<close>

definition CHECKS :: "(string \<times> string list) list" where
  "CHECKS =
     [(''max_lots_per_order'', [''max_lots_per_order'']), (''max_open_positions'', [''max_open_positions'']),
      (''daily_loss'', [''max_daily_loss_pct'', ''daily_loss_rupees'']), (''max_entries_per_day'', [''max_trades_per_day'']),
      (''loss_cooldown'', [''max_consecutive_losses'', ''loss_cooldown_minutes'']), (''min_reward_risk'', [''min_risk_reward'']),
      (''margin_safety'', [''margin_safety_pct'']), (''risk_sizing'', [''risk_per_trade_pct'', ''risk_per_trade_rupees'']),
      (''portfolio_risk'', [''max_portfolio_risk_pct'']), (''stop_cooldown'', [''stop_cooldown_minutes'']),
      (''drawdown'', [''dd_level_1_pct'', ''dd_cut_pct'', ''dd_level_2_pct'']), (''event_rules'', [''event_size_cut_pct''])]"

definition clear_field :: "string \<Rightarrow> risk_config \<Rightarrow> risk_config" where
  "clear_field key cfg =
     (if key = ''max_lots_per_order'' then cfg\<lparr>rc_max_lots_per_order := None\<rparr>
      else if key = ''max_open_positions'' then cfg\<lparr>rc_max_open_positions := None\<rparr>
      else if key = ''max_daily_loss_pct'' then cfg\<lparr>rc_max_daily_loss_pct := None\<rparr>
      else if key = ''daily_loss_rupees'' then cfg\<lparr>rc_daily_loss_rupees := None\<rparr>
      else if key = ''max_trades_per_day'' then cfg\<lparr>rc_max_trades_per_day := None\<rparr>
      else if key = ''max_consecutive_losses'' then cfg\<lparr>rc_max_consecutive_losses := None\<rparr>
      else if key = ''loss_cooldown_minutes'' then cfg\<lparr>rc_loss_cooldown_minutes := None\<rparr>
      else if key = ''min_risk_reward'' then cfg\<lparr>rc_min_risk_reward := 0\<rparr>
      else if key = ''margin_safety_pct'' then cfg\<lparr>rc_margin_safety_pct := None\<rparr>
      else if key = ''risk_per_trade_pct'' then cfg\<lparr>rc_risk_per_trade_pct := None\<rparr>
      else if key = ''risk_per_trade_rupees'' then cfg\<lparr>rc_risk_per_trade_rupees := None\<rparr>
      else if key = ''max_portfolio_risk_pct'' then cfg\<lparr>rc_max_portfolio_risk_pct := None\<rparr>
      else if key = ''stop_cooldown_minutes'' then cfg\<lparr>rc_stop_cooldown_minutes := None\<rparr>
      else if key = ''dd_level_1_pct'' then cfg\<lparr>rc_dd_level_1_pct := None\<rparr>
      else if key = ''dd_cut_pct'' then cfg\<lparr>rc_dd_cut_pct := None\<rparr>
      else if key = ''dd_level_2_pct'' then cfg\<lparr>rc_dd_level_2_pct := None\<rparr>
      else if key = ''event_size_cut_pct'' then cfg\<lparr>rc_event_size_cut_pct := None\<rparr>
      else cfg)"

definition apply_switches :: "string list \<Rightarrow> risk_config \<Rightarrow> risk_config" where
  "apply_switches enabled cfg =
     fold clear_field (concat (map snd (filter (\<lambda>c. fst c \<notin> set enabled) CHECKS)))
       (cfg\<lparr>rc_event_rules := (''event_rules'' \<in> set enabled)\<rparr>)"

section \<open>The check before every entry\<close>

datatype trade_direction = GO_LONG | GO_SHORT | NO_TRADE

record risk_signal =
  rs_direction :: trade_direction
  rs_entry :: "pynum option"
  rs_stop_loss :: "pynum option"
  rs_target1 :: "pynum option"
  rs_target2 :: "pynum option"
  rs_risk_reward :: "pyfloat option"

record day_state =
  ds_trades_today :: int
  ds_daily_pnl :: pyfloat
  ds_consecutive_losses :: int
  ds_open_positions :: int
  ds_last_loss_at :: "pydt option"
  ds_as_of :: "pydt option"

datatype pause_end = MinutesAfterLoss int | UntilClock int int | UntilResume | UntilNextSession

datatype risk_block =
    RewardRiskBlock pyfloat pyfloat
  | EntriesBlock int int
  | OpenPositionsBlock int int
  | CooldownBlock int int pause_end
  | DailyLossBlock pyfloat pyfloat
  | NoDistanceBlock
  | BelowOneLotBlock pyfloat pyfloat
  | MaxLotsBlock int pyfloat

datatype refusal = SaysNoTrade | NoLevel | NotFinite "(string \<times> pynum) list" | NeedsLots | Blocked "risk_block list"
datatype risk_warning = NoStopWarning pyfloat | LoweredToMaxLots pyfloat int
datatype risk_decision = Approved pyfloat "risk_warning list" | Refused refusal "risk_warning list"

text \<open>The unit of a size: a whole number of shares, or the lot of a contract, a float.\<close>

datatype unit_size = WholeUnit int | LotUnit pyfloat

record contract_spec =
  ct_lot_size :: pyfloat
  ct_fractional :: bool

definition is_finite :: "pynum \<Rightarrow> bool" where
  "is_finite v = (case v of Fin _ \<Rightarrow> True | _ \<Rightarrow> False)"

definition nonfinite_levels :: "risk_signal \<Rightarrow> (string \<times> pynum) list" where
  "nonfinite_levels sg = concat (map (\<lambda>(nm, v). case v of None \<Rightarrow> [] | Some x \<Rightarrow> if is_finite x then [] else [(nm, x)])
     [(''entry'', rs_entry sg), (''stop loss'', rs_stop_loss sg), (''target1'', rs_target1 sg), (''target2'', rs_target2 sg)])"

definition cooldown_until :: "risk_config \<Rightarrow> day_state \<Rightarrow> pause_end option" where
  "cooldown_until cfg st =
     (case rc_max_consecutive_losses cfg of
        None \<Rightarrow> None
      | Some limit \<Rightarrow>
         (if ds_consecutive_losses st < limit then None
          else
            (let standing = Some (if rc_loss_streak_pause cfg = Some ''until_resume'' then UntilResume else UntilNextSession) in
             case rc_loss_cooldown_minutes cfg of
               None \<Rightarrow> standing
             | Some m \<Rightarrow>
                (if \<not> 0 < m then standing
                 else case (ds_last_loss_at st, ds_as_of st) of
                   (Some l, Some n) \<Rightarrow>
                     (let ends = utc_instant l + m * US_MINUTE in
                      if ends \<le> utc_instant n then None else Some (UntilClock m ends))
                 | _ \<Rightarrow> Some (MinutesAfterLoss m)))))"

definition limit_blocks :: "risk_config \<Rightarrow> risk_signal \<Rightarrow> day_state \<Rightarrow> risk_block list" where
  "limit_blocks cfg sg st =
     (case rs_risk_reward sg of
        Some r \<Rightarrow> if 0 < rc_min_risk_reward cfg \<and> r < rc_min_risk_reward cfg then [RewardRiskBlock r (rc_min_risk_reward cfg)] else []
      | None \<Rightarrow> [])
     @ (case rc_max_trades_per_day cfg of
          Some l \<Rightarrow> if l \<le> ds_trades_today st then [EntriesBlock (ds_trades_today st) l] else [] | None \<Rightarrow> [])
     @ (case rc_max_open_positions cfg of
          Some l \<Rightarrow> if l \<le> ds_open_positions st then [OpenPositionsBlock (ds_open_positions st) l] else [] | None \<Rightarrow> [])
     @ (case (cooldown_until cfg st, rc_max_consecutive_losses cfg) of
          (Some u, Some l) \<Rightarrow> [CooldownBlock (ds_consecutive_losses st) l u] | _ \<Rightarrow> [])
     @ (case daily_loss_amount cfg of
          Some d \<Rightarrow> if ds_daily_pnl st \<le> - d then [DailyLossBlock (- ds_daily_pnl st) d] else [] | None \<Rightarrow> [])"

definition unit_value :: "unit_size \<Rightarrow> pyfloat" where
  "unit_value u = (case u of WholeUnit n \<Rightarrow> fl (of_int n) | LotUnit x \<Rightarrow> x)"

definition unit_of :: "risk_config \<Rightarrow> contract_spec option \<Rightarrow> unit_size" where
  "unit_of cfg spec = (case spec of
      Some c \<Rightarrow> LotUnit (ct_lot_size c)
    | None \<Rightarrow> WholeUnit (case rc_lot_size cfg of None \<Rightarrow> 1 | Some n \<Rightarrow> if n = 0 then 1 else n))"

definition EPS9 :: pyfloat where "EPS9 = flit 1 1000000000"

definition lot_of :: "unit_size \<Rightarrow> pyfloat" where
  "lot_of u = (if 0 < unit_value u then unit_value u else 1)"

definition size_checked :: "risk_config \<Rightarrow> rat \<Rightarrow> unit_size \<Rightarrow> risk_warning list \<Rightarrow> bool \<Rightarrow> risk_decision" where
  "size_checked cfg quantity unit warnings typed =
     (let lot = lot_of unit in
      case rc_max_lots_per_order cfg of
        Some l \<Rightarrow>
          (if 0 < l \<and> fadd (fmul (fl (of_int l)) lot) EPS9 < quantity then
             (if typed then Refused (Blocked [MaxLotsBlock l (fdiv (fl quantity) lot)]) warnings
              else Approved (fmul (fl (of_int l)) lot) (warnings @ [LoweredToMaxLots (fdiv (fl quantity) lot) l]))
           else Approved (fl quantity) warnings)
      | None \<Rightarrow> Approved (fl quantity) warnings)"

text \<open>\<open>lots * unit\<close>: exact for a whole unit, a float product for a contract's lot; and \<open>round(x, 8)\<close>.\<close>

definition times_unit :: "int \<Rightarrow> unit_size \<Rightarrow> rat" where
  "times_unit k u = (case u of WholeUnit n \<Rightarrow> of_int (k * n) | LotUnit x \<Rightarrow> fmul (fl (of_int k)) x)"

definition py_round8 :: "pyfloat \<Rightarrow> pyfloat" where
  "py_round8 x = fl (of_int (rhe (x * 100000000)) / 100000000)"

definition risk_quantity :: "pyfloat \<Rightarrow> unit_size \<Rightarrow> bool \<Rightarrow> rat" where
  "risk_quantity raw unit fractional =
     (if fractional then
        (let q = fdiv raw (unit_value unit); k = (if 0 \<le> q then \<lfloor>q\<rfloor> else \<lceil>q\<rceil>) in py_round8 (times_unit k unit))
      else times_unit \<lfloor>raw / unit_value unit\<rfloor> unit)"

definition validate_and_size ::
  "risk_config \<Rightarrow> bool \<Rightarrow> risk_signal \<Rightarrow> day_state \<Rightarrow> contract_spec option \<Rightarrow> pyfloat option \<Rightarrow> risk_decision" where
  "validate_and_size cfg one_lot sg st spec requested =
     (if rs_direction sg = NO_TRADE then Refused SaysNoTrade []
      else case (rs_entry sg, rs_stop_loss sg) of
        (Some e, Some s) \<Rightarrow>
          (if nonfinite_levels sg \<noteq> [] then Refused (NotFinite (nonfinite_levels sg)) []
           else if limit_blocks cfg sg st \<noteq> [] then Refused (Blocked (limit_blocks cfg sg st)) []
           else
             (let unit = unit_of cfg spec;
                  typed = positive_only requested;
                  own = (case typed of Some q \<Rightarrow> q | None \<Rightarrow> unit_value unit);
                  unsized = (typed = None \<and> \<not> one_lot) in
              case (risk_amount cfg, e, s) of
                (Some r, Fin en, Fin sl) \<Rightarrow>
                  (if rs_direction sg = GO_SHORT \<and> sl \<le> 0 then
                     (if unsized then Refused NeedsLots []
                      else size_checked cfg own unit
                        [NoStopWarning (if unit_value unit \<noteq> 0 then fdiv own (unit_value unit) else own)] True)
                   else
                     (let risk_per_unit = \<bar>fsub en sl\<bar> in
                      if risk_per_unit \<le> 0 then Refused (Blocked [NoDistanceBlock]) []
                      else
                        (let quantity = risk_quantity (fdiv r risk_per_unit) unit (case spec of Some c \<Rightarrow> ct_fractional c | None \<Rightarrow> False) in
                         if quantity \<le> 0 then Refused (Blocked [BelowOneLotBlock r (fmul risk_per_unit (unit_value unit))]) []
                         else size_checked cfg quantity unit [] False)))
              | _ \<Rightarrow> if unsized then Refused NeedsLots [] else size_checked cfg own unit [] True))
      | _ \<Rightarrow> Refused NoLevel [])"

section \<open>Losses in a row\<close>

definition is_loss :: "pyfloat option \<Rightarrow> bool" where
  "is_loss pnl = (case pnl of Some x \<Rightarrow> x \<le> 0 | None \<Rightarrow> False)"

definition streak_of :: "pyfloat option list \<Rightarrow> int" where
  "streak_of pnls = int (length (takeWhile is_loss pnls))"

definition is_paused :: "int \<Rightarrow> int option \<Rightarrow> bool" where
  "is_paused losses limit = (case limit of Some l \<Rightarrow> l \<le> losses | None \<Rightarrow> False)"

definition PAUSE_MODES :: "string list" where
  "PAUSE_MODES = [''next_session'', ''until_resume'']"

definition counted_since :: "string \<Rightarrow> int \<Rightarrow> int option \<Rightarrow> int option" where
  "counted_since md session_start resumed_at = (if md = ''until_resume'' then resumed_at else Some session_start)"

text \<open>The stored trades of an organisation; the live counter reads the newest ones of its window.\<close>

record closed_trade =
  cl_pnl :: "pyfloat option"
  cl_exit_time :: "int option"

definition in_window :: "string \<Rightarrow> int option \<Rightarrow> int \<Rightarrow> bool" where
  "in_window md since t = (case since of None \<Rightarrow> True | Some b \<Rightarrow> if md = ''next_session'' then b \<le> t else b < t)"

definition closed_newest_first :: "string \<Rightarrow> int option \<Rightarrow> closed_trade list \<Rightarrow> (pyfloat option \<times> int) list" where
  "closed_newest_first md since trades =
     rev (sort_key snd (concat (map (\<lambda>t. case cl_exit_time t of None \<Rightarrow> [] | Some x \<Rightarrow> if in_window md since x then [(cl_pnl t, x)] else []) trades)))"

definition loss_streak_count :: "string option \<Rightarrow> int option \<Rightarrow> int option \<Rightarrow> int \<Rightarrow> closed_trade list \<Rightarrow> int \<times> int option" where
  "loss_streak_count saved_mode resumed_at limit session_start trades =
     (let md = (case saved_mode of Some m \<Rightarrow> if m \<in> set PAUSE_MODES then m else ''next_session'' | None \<Rightarrow> ''next_session'');
          since = counted_since md session_start resumed_at;
          rows = take (nat (max 20 ((case limit of None \<Rightarrow> 0 | Some l \<Rightarrow> l) + 1))) (closed_newest_first md since trades);
          count = streak_of (map fst rows)
      in (count, if 0 < count \<and> rows \<noteq> [] then Some (snd (hd rows)) else None))"

text \<open>The counter of a backtest run.\<close>

record streak =
  sk_mode :: string
  sk_limit :: "int option"
  sk_count :: int
  sk_pauses :: int
  sk_first_paused_at :: "int option"
  sk_last_loss_at :: "int option"

definition new_streak :: "string \<Rightarrow> int option \<Rightarrow> streak" where
  "new_streak md limit = \<lparr>sk_mode = (if md \<in> set PAUSE_MODES then md else ''next_session''), sk_limit = limit, sk_count = 0, sk_pauses = 0,
     sk_first_paused_at = None, sk_last_loss_at = None\<rparr>"

definition new_session :: "streak \<Rightarrow> streak" where
  "new_session k = (if sk_mode k = ''next_session'' then k\<lparr>sk_count := 0\<rparr> else k)"

definition trade_closed :: "pyfloat option \<Rightarrow> int \<Rightarrow> streak \<Rightarrow> streak" where
  "trade_closed pnl now k =
     (let n = (if is_loss pnl then sk_count k + 1 else 0);
          k1 = k\<lparr>sk_count := n, sk_last_loss_at := (if n \<noteq> 0 then Some now else None)\<rparr>
      in if sk_limit k = Some n then
           k1\<lparr>sk_pauses := sk_pauses k + 1,
             sk_first_paused_at := (case sk_first_paused_at k of None \<Rightarrow> Some now | Some t \<Rightarrow> Some t)\<rparr>
         else k1)"

definition held_to_end :: "streak \<Rightarrow> bool option" where
  "held_to_end k = (if sk_pauses k = 0 then None else Some (sk_mode k = ''until_resume''))"

datatype streak_event = NewSession | TradeClosed "pyfloat option" int

fun streak_step :: "streak_event \<Rightarrow> streak \<Rightarrow> streak" where
  "streak_step NewSession k = new_session k"
| "streak_step (TradeClosed pnl now) k = trade_closed pnl now k"

definition streak_run :: "string \<Rightarrow> int option \<Rightarrow> streak_event list \<Rightarrow> streak" where
  "streak_run md limit evs = fold streak_step evs (new_streak md limit)"

section \<open>Facts about the kill switches\<close>

lemma find_change_first: "(\<And>x. P x \<Longrightarrow> P (f x)) \<Longrightarrow> find P (change_first P f xs) = map_option f (find P xs)"
  by (induction xs) auto


lemma engaged_key [simp]: "is_switch sc tn sy (engaged_row u r now x) = is_switch sc tn sy x"
  by (simp add: is_switch_def engaged_row_def)

lemma engage_same: "engaged_reason (engage rows sc tn u r sy now) sc tn sy = Some r"
proof (cases "get_switch rows sc tn sy")
  case None
  have "find (is_switch sc tn sy) (rows @ [x]) = Some x" if "is_switch sc tn sy x" for x
    using None that unfolding get_switch_def by (induction rows) (auto split: if_splits)
  then show ?thesis using None by (simp add: engage_def engaged_reason_def get_switch_def engaged_row_def is_switch_def)
next
  case (Some k)
  have "find (is_switch sc tn sy) (change_first (is_switch sc tn sy) (engaged_row u r now) rows) = map_option (engaged_row u r now) (Some k)"
    using Some unfolding get_switch_def by (subst find_change_first) simp_all
  then show ?thesis using Some by (simp add: engage_def engaged_reason_def get_switch_def engaged_row_def)
qed


lemma disengage_same: "engaged_reason (disengage rows sc tn sy now) sc tn sy = None"
proof (cases "get_switch rows sc tn sy")
  case (Some k)
  have "find (is_switch sc tn sy) (change_first (is_switch sc tn sy) (\<lambda>r. r\<lparr>ks_engaged := False, ks_disengaged_at := Some now\<rparr>) rows)
      = map_option (\<lambda>r. r\<lparr>ks_engaged := False, ks_disengaged_at := Some now\<rparr>) (Some k)"
    using Some unfolding get_switch_def by (subst find_change_first) (simp_all add: is_switch_def)
  then show ?thesis using Some by (auto simp: disengage_def engaged_reason_def get_switch_def)
qed (simp add: disengage_def engaged_reason_def)

lemma reasons_empty_iff: "active_kill_switch_reasons rows tn sy = [] \<longleftrightarrow> engaged_reason rows SC_GLOBAL None None = None
    \<and> engaged_reason rows SC_TENANT (Some tn) None = None \<and> engaged_reason rows SC_STRATEGY (Some tn) (Some sy) = None"
  by (auto simp: active_kill_switch_reasons_def split: option.splits)



text \<open>
  The GLOBAL kill switch does not stop an anonymous paper entry when it was engaged with no reason,
  the default of the request: \<open>is_global_kill_switch_engaged\<close> answers with the empty text, and its
  caller takes an empty text for "not engaged". Every entry with a login is stopped by the same switch.
\<close>
theorem global_switch_without_reason_leaks:
  "let rows' = engage rows SC_GLOBAL None u [] None now in
   is_global_kill_switch_engaged rows' \<noteq> None \<and> active_kill_switch_reasons rows' tn sy \<noteq> [] \<and> \<not> anonymous_entry_blocked rows'"
  by (simp add: Let_def is_global_kill_switch_engaged_def reasons_empty_iff anonymous_entry_blocked_def engage_same truthy_def)

section \<open>Facts about the risk check\<close>

lemma EPS9_pos: "0 \<le> EPS9"
  unfolding EPS9_def flit_def by (intro fl_nonneg) simp

lemma fadd_ge_left: "fl x = x \<Longrightarrow> 0 \<le> y \<Longrightarrow> x \<le> fadd x y"
  using fl_mono [of x "x + y"] by (simp add: fadd_def)

lemma fl_fmul [simp]: "fl (fmul x y) = fmul x y" and fl_fdiv [simp]: "fl (fdiv x y) = fdiv x y" and fl_fadd [simp]: "fl (fadd x y) = fadd x y"
  by (simp_all add: fmul_def fdiv_def fadd_def)

text \<open>What an approved size may be: the size asked for, or, for a worked-out size, the smaller max lots.\<close>

lemma size_checked_cases:
  assumes "size_checked cfg quantity u ws typed = Approved q ws'"
  obtains "q = fl quantity" and "\<And>l. rc_max_lots_per_order cfg = Some l \<Longrightarrow> 0 < l \<Longrightarrow> quantity \<le> fadd (fmul (fl (of_int l)) (lot_of u)) EPS9"
  | l where "rc_max_lots_per_order cfg = Some l" and "fadd (fmul (fl (of_int l)) (lot_of u)) EPS9 < quantity" and "q = fmul (fl (of_int l)) (lot_of u)"
  using assms unfolding size_checked_def Let_def by (cases "rc_max_lots_per_order cfg") (auto split: if_splits)

lemma size_checked_within:
  assumes "size_checked cfg quantity u ws typed = Approved q ws'" and "rc_max_lots_per_order cfg = Some l" and "0 < l"
  shows "q \<le> fadd (fmul (fl (of_int l)) (lot_of u)) EPS9"
  using assms(1)
proof (cases rule: size_checked_cases)
  case 1
  have "fl quantity \<le> fl (fadd (fmul (fl (of_int l)) (lot_of u)) EPS9)" by (rule fl_mono) (use 1 assms in blast)
  then show ?thesis using 1 by simp
next
  case (2 k)
  then show ?thesis using fadd_ge_left [of q EPS9] EPS9_pos assms(2) by simp
qed


text \<open>An approval has passed every earlier return of the check, and ends in \<open>size_checked\<close>.\<close>

lemma approved_passed:
  assumes "validate_and_size cfg one_lot sg st spec req = Approved q ws"
  shows "rs_direction sg \<noteq> NO_TRADE \<and> nonfinite_levels sg = [] \<and> limit_blocks cfg sg st = []
    \<and> (\<exists>quantity ws' typed. size_checked cfg quantity (unit_of cfg spec) ws' typed = Approved q ws)"
  using assms unfolding validate_and_size_def Let_def
  by (auto split: if_splits option.splits pynum.splits)

lemma no_blocks:
  assumes "limit_blocks cfg sg st = []"
  shows "(\<forall>l. rc_max_trades_per_day cfg = Some l \<longrightarrow> ds_trades_today st < l)
    \<and> (\<forall>l. rc_max_open_positions cfg = Some l \<longrightarrow> ds_open_positions st < l)
    \<and> (rc_max_consecutive_losses cfg \<noteq> None \<longrightarrow> cooldown_until cfg st = None)
    \<and> (\<forall>d. daily_loss_amount cfg = Some d \<longrightarrow> - d < ds_daily_pnl st)
    \<and> (\<forall>r. rs_risk_reward sg = Some r \<longrightarrow> 0 < rc_min_risk_reward cfg \<longrightarrow> rc_min_risk_reward cfg \<le> r)"
  using assms unfolding limit_blocks_def by (auto split: option.splits if_splits)

text \<open>
  C33. No limit the trader set is passed by an approved entry: the entries of the day and the open
  positions are below their maximum, the losses-in-a-row pause does not hold, the day's loss has not
  reached its limit, the reward:risk of the signal is at least the minimum, and the size is at most the
  maximum lots of one order.
\<close>
theorem approved_within_limits:
  assumes "validate_and_size cfg one_lot sg st spec req = Approved q ws"
  shows "(\<forall>l. rc_max_trades_per_day cfg = Some l \<longrightarrow> ds_trades_today st < l)
    \<and> (\<forall>l. rc_max_open_positions cfg = Some l \<longrightarrow> ds_open_positions st < l)
    \<and> (rc_max_consecutive_losses cfg \<noteq> None \<longrightarrow> cooldown_until cfg st = None)
    \<and> (\<forall>d. daily_loss_amount cfg = Some d \<longrightarrow> - d < ds_daily_pnl st)
    \<and> (\<forall>r. rs_risk_reward sg = Some r \<longrightarrow> 0 < rc_min_risk_reward cfg \<longrightarrow> rc_min_risk_reward cfg \<le> r)
    \<and> (\<forall>l. rc_max_lots_per_order cfg = Some l \<longrightarrow> 0 < l \<longrightarrow> q \<le> fadd (fmul (fl (of_int l)) (lot_of (unit_of cfg spec))) EPS9)"
proof -
  note p = approved_passed [OF assms]
  from p obtain quantity ws' typed where "size_checked cfg quantity (unit_of cfg spec) ws' typed = Approved q ws" by blast
  then show ?thesis using no_blocks [of cfg sg st] p size_checked_within [of cfg quantity "unit_of cfg spec" ws' typed q ws] by blast
qed

definition ex_config :: risk_config where
  "ex_config = \<lparr>rc_capital = Some 100000, rc_risk_per_trade_pct = None, rc_max_daily_loss_pct = None, rc_max_trades_per_day = Some 3,
     rc_max_open_positions = Some 2, rc_max_consecutive_losses = Some 2, rc_min_risk_reward = 1, rc_lot_size = Some 25,
     rc_max_portfolio_risk_pct = None, rc_stop_cooldown_minutes = None, rc_dd_level_1_pct = None, rc_dd_level_2_pct = None,
     rc_event_size_cut_pct = None, rc_dd_cut_pct = None, rc_loss_streak_pause = None, rc_max_lots_per_order = Some 2,
     rc_daily_loss_rupees = Some 5000, rc_risk_per_trade_rupees = Some 1000, rc_loss_cooldown_minutes = None,
     rc_margin_safety_pct = None, rc_event_rules = False, rc_opposite_positions = None\<rparr>"

definition ex_signal :: risk_signal where
  "ex_signal = \<lparr>rs_direction = GO_LONG, rs_entry = Some (Fin 100), rs_stop_loss = Some (Fin 90), rs_target1 = None, rs_target2 = None,
     rs_risk_reward = Some 2\<rparr>"

definition ex_day :: day_state where
  "ex_day = \<lparr>ds_trades_today = 1, ds_daily_pnl = - 200, ds_consecutive_losses = 1, ds_open_positions = 1, ds_last_loss_at = None, ds_as_of = None\<rparr>"

lemma ex_approved: "validate_and_size ex_config False ex_signal ex_day None None = Approved 50 [LoweredToMaxLots 4 2]"
  by code_simp

theorem approved_within_limits_witness:
  "ds_trades_today ex_day < 3 \<and> (50::rat) \<le> fadd (fmul (fl (of_int 2)) (lot_of (unit_of ex_config None))) EPS9"
  using approved_within_limits [OF ex_approved] by (simp add: ex_config_def)




section \<open>Facts about the losses in a row\<close>

text \<open>The P&L of the trades the counter of a test should see, newest first: those of the session, or all of them.\<close>

fun counted_newest :: "string \<Rightarrow> streak_event list \<Rightarrow> pyfloat option list" where
  "counted_newest md [] = []"
| "counted_newest md (NewSession # es) = (if md = ''until_resume'' then counted_newest md es else [])"
| "counted_newest md (TradeClosed p t # es) = p # counted_newest md es"

lemma streak_run_last: "streak_run md limit (rev (e # es)) = streak_step e (streak_run md limit (rev es))"
  by (simp add: streak_run_def)

lemma streak_mode: "sk_mode (streak_run md limit (rev es)) = (if md = ''until_resume'' then ''until_resume'' else ''next_session'')"
proof (induction es)
  case Nil
  then show ?case by (simp add: streak_run_def new_streak_def PAUSE_MODES_def)
next
  case (Cons e es)
  then show ?case unfolding streak_run_last by (cases e) (auto simp: new_session_def trade_closed_def Let_def split: if_splits)
qed

text \<open>
  C36. The counter of a backtest run counts what the live one counts: after any sequence of day rolls and
  closed trades its count is the losses at the newest end of the trades of the session ("next session"),
  or of all trades ("until resume").
\<close>
theorem streak_counts_newest_losses:
  "sk_count (streak_run md limit (rev es)) = streak_of (counted_newest md es)"
proof (induction es rule: list.induct)
  case Nil
  then show ?case by (simp add: streak_run_def new_streak_def streak_of_def)
next
  case (Cons e es)
  then show ?case unfolding streak_run_last
    by (cases e) (simp_all add: new_session_def trade_closed_def Let_def streak_mode streak_of_def)
qed

lemma takeWhile_take: "takeWhile P (take n xs) = take n (takeWhile P xs)"
  by (induction xs arbitrary: n) (auto simp: take_Cons split: nat.split)

text \<open>
  The live counter reads a bounded number of trades and still never misses a pause: with the rows
  it reads it pauses exactly when all trades of its window would.
\<close>
theorem bounded_read_finds_pause:
  "is_paused (fst (loss_streak_count m resumed limit start trades)) limit
   \<longleftrightarrow> is_paused (streak_of (map fst (closed_newest_first
         (case m of Some x \<Rightarrow> if x \<in> set PAUSE_MODES then x else ''next_session'' | None \<Rightarrow> ''next_session'')
         (counted_since (case m of Some x \<Rightarrow> if x \<in> set PAUSE_MODES then x else ''next_session'' | None \<Rightarrow> ''next_session'') start resumed)
         trades))) limit"
  by (auto simp: loss_streak_count_def Let_def is_paused_def streak_of_def take_map [symmetric] takeWhile_take min_def split: option.splits)

end
