(* ===== verification/Venue.thy ===== *)
theory Venue
  imports BrokerHealth AccountPlan
begin

text \<open>
  An order and the place it is sent to. An order request, a row of a broker's order book and the answers
  of \<open>app/brokers/models.py\<close>; a venue as the three calls of \<open>app/brokers/base.py\<close> that the order path
  makes (place, read the book, cancel), as functions on a state of the venue's own, since a broker lives
  outside the program; and the two loops of \<open>app/execution/router.py\<close> that read a fill back from the
  book. The prices on the tick grid are those of \<open>app/execution/marketable_limit.py\<close>,
  \<open>app/execution/router.py\<close> and \<open>app/brokers/base.py\<close>. Sentences and log lines are left out.
\<close>

section \<open>Orders and answers\<close>

datatype order_side = BUY | SELL

record order_request =
  or_symbol :: string
  or_exchange :: string
  or_side :: order_side
  or_quantity :: pyfloat
  or_type :: string
  or_product :: string
  or_price :: "pyfloat option"
  or_trigger :: "pyfloat option"
  or_validity :: string
  or_tag :: "string option"
  or_intent :: "string option"
  or_client_ref :: "string option"
  or_protection_pct :: "pyfloat option"

record book_row =
  bk_id :: string
  bk_symbol :: string
  bk_side :: order_side
  bk_quantity :: pyfloat
  bk_filled :: pyfloat
  bk_type :: string
  bk_status :: string
  bk_price :: "pyfloat option"
  bk_average :: "pyfloat option"
  bk_tag :: "string option"
  bk_product :: "string option"
  bk_exchange :: "string option"

datatype place_answer = PlaceRaised broker_exc | Placed string string

text \<open>
  The venue: its name, the broker it practises for (a practice venue), whether it is the practice venue, whether it takes market orders, whether it
  records its own calls on the circuit breaker, and its calls. A book that cannot be read is \<open>None\<close>; a
  cancel answers whether the request was accepted (\<open>False\<close>: the call raised).
\<close>

record 'v venue_ops =
  vo_name :: string
  vo_venue :: "string option"
  vo_paper :: bool
  vo_market_ok :: bool
  vo_stop_market :: bool
  vo_stop_market_on_options :: bool
  vo_records_circuit :: bool
  vo_place :: "order_request \<Rightarrow> 'v \<Rightarrow> place_answer \<times> 'v"
  vo_book :: "'v \<Rightarrow> book_row list option \<times> 'v"
  vo_cancel :: "string \<Rightarrow> 'v \<Rightarrow> bool \<times> 'v"

definition FILLED_STATUSES :: "string list" where
  "FILLED_STATUSES = [''COMPLETE'', ''FILLED'', ''TRADED'', ''EXECUTED'']"

definition REJECTED_STATUSES :: "string list" where
  "REJECTED_STATUSES = [''REJECTED'', ''CANCELLED'', ''CANCELED'', ''EXPIRED'', ''LAPSED'']"

definition FILL_POLL_ATTEMPTS :: nat where "FILL_POLL_ATTEMPTS = 3"

section \<open>Reading a fill back from the book\<close>

definition book_match :: "string \<Rightarrow> book_row list \<Rightarrow> book_row option" where
  "book_match oid book = find (\<lambda>r. bk_id r = oid) book"

text \<open>\<open>match.average_price and match.filled_quantity > 0\<close>.\<close>

definition fill_shown :: "book_row option \<Rightarrow> (pyfloat \<times> pyfloat) option" where
  "fill_shown m = (case m of None \<Rightarrow> None | Some r \<Rightarrow>
      (case bk_average r of None \<Rightarrow> None | Some p \<Rightarrow> if p \<noteq> 0 \<and> 0 < bk_filled r then Some (p, bk_filled r) else None))"

definition ended :: "book_row option \<Rightarrow> bool" where
  "ended m = (case m of None \<Rightarrow> False | Some r \<Rightarrow> py_upper (bk_status r) \<in> set REJECTED_STATUSES)"

text \<open>The result: price, quantity, the last row seen and whether the book could be read.\<close>

fun resolve_fill_with_status ::
  "'v venue_ops \<Rightarrow> nat \<Rightarrow> string \<Rightarrow> pyfloat \<Rightarrow> book_row option \<Rightarrow> 'v \<Rightarrow> (pyfloat \<times> pyfloat \<times> book_row option \<times> bool) \<times> 'v" where
  "resolve_fill_with_status ops 0 oid fallback seen v = ((fallback, 0, seen, True), v)"
| "resolve_fill_with_status ops (Suc n) oid fallback seen v =
     (case vo_book ops v of
        (None, v') \<Rightarrow> ((fallback, 0, None, False), v')
      | (Some book, v') \<Rightarrow>
          (let m = book_match oid book in
           case fill_shown m of
             Some (price, quantity) \<Rightarrow> ((price, quantity, m, True), v')
           | None \<Rightarrow> if ended m then ((fallback, 0, m, True), v') else resolve_fill_with_status ops n oid fallback m v'))"

fun confirm_cancel :: "'v venue_ops \<Rightarrow> nat \<Rightarrow> string \<Rightarrow> pyfloat \<Rightarrow> 'v \<Rightarrow> (bool \<times> pyfloat \<times> pyfloat) \<times> 'v" where
  "confirm_cancel ops 0 oid fallback v = ((False, fallback, 0), v)"
| "confirm_cancel ops (Suc n) oid fallback v =
     (case vo_book ops v of
        (None, v') \<Rightarrow> ((False, fallback, 0), v')
      | (Some book, v') \<Rightarrow>
          (let m = book_match oid book in
           case fill_shown m of
             Some (price, quantity) \<Rightarrow> ((False, price, quantity), v')
           | None \<Rightarrow> if ended m then ((True, fallback, 0), v') else confirm_cancel ops n oid fallback v'))"

text \<open>A cancel that raises is ignored: the book decides.\<close>

definition cancel_unfilled :: "'v venue_ops \<Rightarrow> nat \<Rightarrow> string \<Rightarrow> pyfloat \<Rightarrow> 'v \<Rightarrow> (bool \<times> pyfloat \<times> pyfloat) \<times> 'v" where
  "cancel_unfilled ops n oid fallback v = (let (_, v') = vo_cancel ops oid v in confirm_cancel ops n oid fallback v')"

section \<open>Prices on the tick grid\<close>

text \<open>\<open>round(x, n)\<close>; the decimals of the default tick 0.05 are 2.\<close>

definition py_rounds :: "nat \<Rightarrow> pyfloat \<Rightarrow> pyfloat" where
  "py_rounds n x = fl (of_int (rhe (x * 10 ^ n)) / 10 ^ n)"

definition TICK :: pyfloat where "TICK = flit 5 100"

definition protected_limit_price :: "pyfloat \<Rightarrow> order_side \<Rightarrow> pyfloat \<Rightarrow> pyfloat" where
  "protected_limit_price reference side pct =
     (let band = fdiv (max 0 pct) 100;
          raw = (if side = BUY then fmul reference (fadd 1 band) else fmul reference (fsub 1 band))
      in max TICK (py_rounds 2 (fmul (fl (of_int (rhe (fdiv raw TICK)))) TICK)))"

text \<open>\<open>None\<close>: the reference is not a positive number and the code raises \<open>ValueError\<close>.\<close>

definition marketable_limit_price :: "pyfloat \<Rightarrow> order_side \<Rightarrow> pyfloat \<Rightarrow> pyfloat option" where
  "marketable_limit_price reference side pct =
     (if reference \<le> 0 then None
      else
        (let band = fdiv (max 0 pct) 100;
             steps = (if side = BUY then \<lceil>py_rounds 6 (fdiv (fmul reference (fadd 1 band)) TICK)\<rceil>
                      else \<lfloor>py_rounds 6 (fdiv (fmul reference (fsub 1 band)) TICK)\<rfloor>)
         in Some (py_rounds 2 (max TICK (fmul (fl (of_int steps)) TICK)))))"

text \<open>
  A stop trigger on the grid, away from the market. \<open>tick\<close> is the tick of the registry for the symbol;
  \<open>decimals\<close> the digits of that tick, at least two.
\<close>

definition round_stop_trigger :: "pyfloat option \<Rightarrow> nat \<Rightarrow> pyfloat \<Rightarrow> order_side \<Rightarrow> pyfloat" where
  "round_stop_trigger tick decimals trigger side =
     (case tick of
        None \<Rightarrow> trigger
      | Some t \<Rightarrow>
          (let steps = (if side = SELL then \<lfloor>py_rounds 6 (fdiv trigger t)\<rfloor> else \<lceil>py_rounds 6 (fdiv trigger t)\<rceil>)
           in py_rounds decimals (max t (fmul (fl (of_int steps)) t))))"

section \<open>What a venue promises\<close>

text \<open>
  The laws the order path relies on, whatever happens at the exchange between two calls: what has filled
  stays filled, the book shows the fills of an order truly, an order it shows as ended is over, and a new
  order that is refused is over with nothing filled (an order with a reference \<open>used\<close> before is not new). Nothing is said about how fast an order fills or a cancel works.
\<close>

locale venue =
  fixes ops :: "'v venue_ops"
    and good :: "'v \<Rightarrow> bool"
    and filled :: "'v \<Rightarrow> string \<Rightarrow> pyfloat"
    and over :: "'v \<Rightarrow> string \<Rightarrow> bool"
    and used :: "'v \<Rightarrow> string \<Rightarrow> bool"
  assumes place_good: "good v \<Longrightarrow> vo_place ops r v = (a, v') \<Longrightarrow> good v'"
    and book_good: "good v \<Longrightarrow> vo_book ops v = (b, v') \<Longrightarrow> good v'"
    and cancel_good: "good v \<Longrightarrow> vo_cancel ops oid v = (c, v') \<Longrightarrow> good v'"
    and book_grows: "good v \<Longrightarrow> vo_book ops v = (b, v') \<Longrightarrow> filled v oid \<le> filled v' oid"
    and cancel_grows: "good v \<Longrightarrow> vo_cancel ops oid' v = (c, v') \<Longrightarrow> filled v oid \<le> filled v' oid"
    and place_refused: "good v \<Longrightarrow> vo_place ops r v = (Placed oid st, v') \<Longrightarrow> st = ''REJECTED'' \<or> st = ''CANCELLED'' \<Longrightarrow>
          (\<forall>ref. or_client_ref r = Some ref \<longrightarrow> \<not> used v ref) \<Longrightarrow> over v' oid \<and> filled v' oid = 0"
    and filled_float: "good v \<Longrightarrow> is64 (filled v oid)"
    and book_truth: "good v \<Longrightarrow> vo_book ops v = (Some book, v') \<Longrightarrow> book_match oid book = Some row \<Longrightarrow>
          bk_filled row = filled v' oid \<and> 0 \<le> filled v' oid \<and> (0 < filled v' oid \<longrightarrow> fill_shown (Some row) \<noteq> None)
          \<and> (py_upper (bk_status row) \<in> set REJECTED_STATUSES \<union> set FILLED_STATUSES \<longrightarrow> over v' oid)"
begin

lemma shown_true:
  assumes "good v" and "vo_book ops v = (Some book, v')" and "fill_shown (book_match oid book) = Some (p, q)"
  shows "filled v' oid = q \<and> 0 < q"
proof -
  from assms(3) obtain r where r: "book_match oid book = Some r" by (cases "book_match oid book") (simp_all add: fill_shown_def)
  then show ?thesis using book_truth [OF assms(1,2) r] assms(3) by (auto simp: fill_shown_def split: option.splits if_splits)
qed

lemma ended_true:
  assumes "good v" and "vo_book ops v = (Some book, v')" and "fill_shown (book_match oid book) = None" and "ended (book_match oid book)"
  shows "over v' oid \<and> filled v' oid = 0"
proof -
  from assms(4) obtain r where r: "book_match oid book = Some r" "py_upper (bk_status r) \<in> set REJECTED_STATUSES"
    by (cases "book_match oid book") (simp_all add: ended_def)
  then show ?thesis using book_truth [OF assms(1,2) r(1)] assms(3) by auto
qed

text \<open>What the two loops report is what the venue holds when they return.\<close>

lemma resolve_true:
  assumes "good v" and "resolve_fill_with_status ops n oid fb seen v = ((p, q, m, readable), v')"
  shows "good v' \<and> (0 < q \<longrightarrow> filled v' oid = q) \<and> 0 \<le> q"
  using assms
proof (induction n arbitrary: v seen)
  case (Suc n)
  obtain b w where b: "vo_book ops v = (b, w)" by fastforce
  have w: "good w" by (rule book_good [OF Suc.prems(1) b])
  show ?case
  proof (cases b)
    case None
    then show ?thesis using Suc.prems(2) b w by simp
  next
    case (Some book)
    show ?thesis
    proof (cases "fill_shown (book_match oid book)")
      case None
      then show ?thesis using Suc.prems(2) b w Some Suc.IH [OF w] by (auto simp: Let_def split: if_splits)
    next
      case (Some pq)
      then show ?thesis using Suc.prems b w \<open>b = Some book\<close> shown_true [OF Suc.prems(1), of book w oid]
        by (cases pq) (auto simp: Let_def)
    qed
  qed
qed simp

lemma resolve_ended:
  assumes "good v" and "resolve_fill_with_status ops n oid fb seen v = ((p, q, m, readable), v')" and "\<not> 0 < q" and "ended m"
    and "\<not> ended seen"
  shows "over v' oid \<and> filled v' oid = 0"
  using assms
proof (induction n arbitrary: v seen)
  case (Suc n)
  obtain b w where b: "vo_book ops v = (b, w)" by fastforce
  have w: "good w" by (rule book_good [OF Suc.prems(1) b])
  show ?case
  proof (cases b)
    case None
    then show ?thesis using Suc.prems(2,4) b by (simp add: ended_def)
  next
    case (Some book)
    note sb = this
    show ?thesis
    proof (cases "fill_shown (book_match oid book)")
      case None
      show ?thesis
      proof (cases "ended (book_match oid book)")
        case True
        then show ?thesis using Suc.prems b sb None ended_true [OF Suc.prems(1), of book w oid] by (simp add: Let_def)
      next
        case False
        then show ?thesis using Suc.prems b sb None by (intro Suc.IH [OF w, of "book_match oid book"]) (simp_all add: Let_def)
      qed
    next
      case (Some pq)
      then show ?thesis using Suc.prems b sb shown_true [OF Suc.prems(1), of book w oid] by (cases pq) (simp add: Let_def)
    qed
  qed
qed simp

text \<open>The last row read shows the state the loop returns in.\<close>

lemma resolve_row:
  assumes "good v" and "resolve_fill_with_status ops n oid fb seen v = ((p, q, m, readable), v')" and "m \<noteq> None" and "seen = None"
  shows "filled v' oid = q \<and> (py_upper (bk_status (the m)) \<in> set REJECTED_STATUSES \<union> set FILLED_STATUSES \<longrightarrow> over v' oid)"
proof -
  have "(m = seen \<and> v' = v \<and> q = 0 \<and> n = 0) \<or> m = None
      \<or> (filled v' oid = q \<and> (py_upper (bk_status (the m)) \<in> set REJECTED_STATUSES \<union> set FILLED_STATUSES \<longrightarrow> over v' oid))"
    if "good v" and "resolve_fill_with_status ops n oid fb seen v = ((p, q, m, readable), v')" for n v seen
    using that
  proof (induction n arbitrary: v seen)
    case (Suc n)
    obtain b w where b: "vo_book ops v = (b, w)" by fastforce
    have w: "good w" by (rule book_good [OF Suc.prems(1) b])
    show ?case
    proof (cases b)
      case None
      then show ?thesis using Suc.prems(2) b by simp
    next
      case (Some book)
      note sb = this
      let ?m = "book_match oid book"
      have here: "filled w oid = q' \<and> (py_upper (bk_status (the ?m)) \<in> set REJECTED_STATUSES \<union> set FILLED_STATUSES \<longrightarrow> over w oid)"
        if "?m \<noteq> None" "q' = (case fill_shown ?m of Some (p, x) \<Rightarrow> x | None \<Rightarrow> 0)" for q'
      proof -
        from that(1) obtain r where r: "?m = Some r" by blast
        note t = book_truth [OF Suc.prems(1) b [unfolded sb] r]
        then show ?thesis using that(2) r shown_true [OF Suc.prems(1), of book w oid] b sb
          by (auto split: option.splits)
      qed
      show ?thesis
      proof (cases "fill_shown ?m")
        case None
        note fn = this
        show ?thesis
        proof (cases "ended ?m")
          case True
          then have "?m \<noteq> None" by (auto simp: ended_def split: option.splits)
          then show ?thesis using Suc.prems b sb fn True here [of 0] by (auto simp: Let_def)
        next
          case False
          then have "resolve_fill_with_status ops n oid fb ?m w = ((p, q, m, readable), v')" using Suc.prems b sb fn by (simp add: Let_def)
          from Suc.IH [OF w this] show ?thesis using here [of 0] fn by auto
        qed
      next
        case (Some pq)
        then have "?m \<noteq> None" by (auto simp: fill_shown_def split: option.splits)
        then show ?thesis using Suc.prems b sb Some here [of "snd pq"] by (cases pq) (auto simp: Let_def)
      qed
    qed
  qed simp
  from this [OF assms(1,2)] show ?thesis using assms(3,4) by auto
qed

lemma confirm_true:
  assumes "good v" and "confirm_cancel ops n oid fb v = ((c, p, q), v')"
  shows "good v' \<and> (0 < q \<longrightarrow> filled v' oid = q) \<and> 0 \<le> q \<and> (c \<longrightarrow> over v' oid \<and> filled v' oid = 0)"
  using assms
proof (induction n arbitrary: v)
  case (Suc n)
  obtain b w where b: "vo_book ops v = (b, w)" by fastforce
  have w: "good w" by (rule book_good [OF Suc.prems(1) b])
  show ?case
  proof (cases b)
    case None
    then show ?thesis using Suc.prems(2) b w by simp
  next
    case (Some book)
    note sb = this
    show ?thesis
    proof (cases "fill_shown (book_match oid book)")
      case None
      then show ?thesis using Suc.prems b w sb Suc.IH [OF w] ended_true [OF Suc.prems(1), of book w oid]
        by (auto simp: Let_def split: if_splits)
    next
      case (Some pq)
      then show ?thesis using Suc.prems b w sb shown_true [OF Suc.prems(1), of book w oid]
        by (cases pq) (auto simp: Let_def)
    qed
  qed
qed simp

lemma cancel_true:
  assumes "good v" and "cancel_unfilled ops n oid fb v = ((c, p, q), v')"
  shows "good v' \<and> (0 < q \<longrightarrow> filled v' oid = q) \<and> 0 \<le> q \<and> (c \<longrightarrow> over v' oid \<and> filled v' oid = 0)"
proof -
  obtain a w where w: "vo_cancel ops oid v = (a, w)" by fastforce
  show ?thesis by (rule confirm_true [OF cancel_good [OF assms(1) w]]) (use assms(2) w in \<open>simp add: cancel_unfilled_def\<close>)
qed

end

text \<open>
  A venue where nothing moves between two calls of the order path: reading the book and cancelling fill
  nothing, an accepted cancel ends its order, and an order with a reference not yet used is a new one and
  changes no other.
\<close>

locale still_venue = venue ops good filled over used
  for ops :: "'v venue_ops" and good :: "'v \<Rightarrow> bool" and filled :: "'v \<Rightarrow> string \<Rightarrow> pyfloat" and over :: "'v \<Rightarrow> string \<Rightarrow> bool"
    and used :: "'v \<Rightarrow> string \<Rightarrow> bool" +
  assumes book_still: "good v \<Longrightarrow> vo_book ops v = (b, v') \<Longrightarrow> filled v' = filled v \<and> used v' = used v"
    and cancel_still: "good v \<Longrightarrow> vo_cancel ops oid v = (c, v') \<Longrightarrow> filled v' = filled v \<and> used v' = used v"
    and cancel_ends: "good v \<Longrightarrow> vo_cancel ops oid v = (True, v') \<Longrightarrow> over v' oid"
    and place_raised: "good v \<Longrightarrow> vo_place ops r v = (PlaceRaised e, v') \<Longrightarrow> filled v' = filled v"
    and place_new: "good v \<Longrightarrow> vo_place ops r v = (Placed oid st, v') \<Longrightarrow> (\<forall>ref. or_client_ref r = Some ref \<longrightarrow> \<not> used v ref) \<Longrightarrow>
          filled v oid = 0 \<and> (\<forall>oid'. oid' \<noteq> oid \<longrightarrow> filled v' oid' = filled v oid')"
    and place_uses: "good v \<Longrightarrow> vo_place ops r v = (a, v') \<Longrightarrow> used v' ref \<Longrightarrow> used v ref \<or> or_client_ref r = Some ref"
begin

lemma resolve_still: "good v \<Longrightarrow> resolve_fill_with_status ops n oid fb seen v = (x, v') \<Longrightarrow> filled v' = filled v \<and> used v' = used v"
proof (induction n arbitrary: v seen)
  case (Suc n)
  obtain b w where b: "vo_book ops v = (b, w)" by fastforce
  show ?case using Suc.prems(2) b book_good [OF Suc.prems(1) b] book_still [OF Suc.prems(1) b] Suc.IH [of w]
    by (auto simp: Let_def split: option.splits if_splits)
qed simp

lemma confirm_still: "good v \<Longrightarrow> confirm_cancel ops n oid fb v = (x, v') \<Longrightarrow> filled v' = filled v \<and> used v' = used v"
proof (induction n arbitrary: v)
  case (Suc n)
  obtain b w where b: "vo_book ops v = (b, w)" by fastforce
  show ?case using Suc.prems(2) b book_good [OF Suc.prems(1) b] book_still [OF Suc.prems(1) b] Suc.IH [of w]
    by (auto simp: Let_def split: option.splits if_splits)
qed simp

lemma cancel_unfilled_still: "good v \<Longrightarrow> cancel_unfilled ops n oid fb v = (x, v') \<Longrightarrow> filled v' = filled v \<and> used v' = used v"
proof -
  assume a: "good v" "cancel_unfilled ops n oid fb v = (x, v')"
  obtain c w where w: "vo_cancel ops oid v = (c, w)" by fastforce
  show ?thesis using a w confirm_still [OF cancel_good [OF a(1) w]] cancel_still [OF a(1) w] by (simp add: cancel_unfilled_def)
qed

end

text \<open>
  A venue that always answers: it takes every call, shows every order it took, and shows an order that is
  over with nothing filled as ended.
\<close>

locale answering_venue = still_venue ops good filled over used
  for ops :: "'v venue_ops" and good :: "'v \<Rightarrow> bool" and filled :: "'v \<Rightarrow> string \<Rightarrow> pyfloat" and over :: "'v \<Rightarrow> string \<Rightarrow> bool"
    and used :: "'v \<Rightarrow> string \<Rightarrow> bool" +
  fixes known :: "'v \<Rightarrow> string \<Rightarrow> bool"
  assumes place_answers: "good v \<Longrightarrow> vo_place ops r v = (a, v') \<Longrightarrow> \<exists>oid st. a = Placed oid st \<and> known v' oid"
    and book_answers: "good v \<Longrightarrow> \<exists>book. vo_book ops v = (Some book, v)"
    and cancel_answers: "good v \<Longrightarrow> known v oid \<Longrightarrow> \<exists>v'. vo_cancel ops oid v = (True, v') \<and> known v' oid"
    and book_shows: "good v \<Longrightarrow> known v oid \<Longrightarrow> vo_book ops v = (Some book, v') \<Longrightarrow>
          \<exists>row. book_match oid book = Some row \<and> (over v oid \<and> filled v oid = 0 \<longrightarrow> ended (Some row))"
begin

lemma resolve_answers:
  assumes "good v" and "resolve_fill_with_status ops n oid fb seen v = ((p, q, m, readable), v')"
  shows "v' = v \<and> readable"
  using assms(2)
proof (induction n arbitrary: seen)
  case (Suc n)
  obtain book where "vo_book ops v = (Some book, v)" using book_answers [OF assms(1)] by blast
  then show ?case using Suc by (auto simp: Let_def split: option.splits if_splits)
qed simp

lemma confirm_answers:
  assumes "good v" and "known v oid" and "over v oid" and "confirm_cancel ops (Suc n) oid fb v = ((c, p, q), v')"
  shows "v' = v \<and> (0 < q \<or> c)"
proof -
  obtain book where b: "vo_book ops v = (Some book, v)" using book_answers [OF assms(1)] by blast
  show ?thesis
  proof (cases "fill_shown (book_match oid book)")
    case None
    obtain row where r: "book_match oid book = Some row" "over v oid \<and> filled v oid = 0 \<longrightarrow> ended (Some row)"
      using book_shows [OF assms(1,2) b] by blast
    then have "filled v oid = 0" using book_truth [OF assms(1) b r(1)] None by auto
    then show ?thesis using assms b None r by (auto simp: Let_def)
  next
    case (Some pq)
    then show ?thesis using assms b shown_true [OF assms(1) b] by (cases pq) (auto simp: Let_def)
  qed
qed

end

end
