(* ===== verification/Router.thy ===== *)
theory Router
  imports Venue RiskGate
begin

text \<open>
  The order router of \<open>app/execution/router.py\<close>: \<open>execute\<close> (risk check, cap, pre-place check) and
  \<open>_route\<close>, the one path of a PAPER and a LIVE entry (settings, circuit breaker, order-type policy,
  freeze-quantity slices, the fill read back, the broker-side stop), with the order-type policy of
  \<open>app/compliance/order_policy.py\<close> and the protective stop of \<open>app/brokers/base.py\<close>. The venue is the
  interface of theory Venue. The circuit breakers are the registry of theory BrokerHealth; the readings
  of their clock are an argument. The texts of reasons and notes, the trade's timing and the counters of
  the caller's day state are left out.
\<close>

section \<open>One order at the venue\<close>

datatype leg_kind = KIND_FILLED | KIND_NONE | KIND_REJECTED | KIND_FAILED

record order_leg =
  lk_kind :: leg_kind
  lk_id :: "string option"
  lk_filled :: pyfloat
  lk_price :: pyfloat
  lk_uncertain :: bool

definition unfilled_leg :: "leg_kind \<Rightarrow> string option \<Rightarrow> order_leg" where
  "unfilled_leg k oid = \<lparr>lk_kind = k, lk_id = oid, lk_filled = 0, lk_price = 0, lk_uncertain = False\<rparr>"

text \<open>Nothing filled in the poll window: \<open>None\<close> when the order is over with nothing filled, else price, quantity, uncertain.\<close>

definition settle_unfilled ::
  "'v venue_ops \<Rightarrow> order_request \<Rightarrow> string \<Rightarrow> pyfloat \<Rightarrow> pyfloat \<Rightarrow> book_row option \<Rightarrow> bool \<Rightarrow> 'v \<Rightarrow> (pyfloat \<times> pyfloat \<times> bool) option \<times> 'v" where
  "settle_unfilled ops req oid fallback price entry readable v =
     (if ended entry then (None, v)
      else if entry = None \<and> \<not> readable then (Some (price, or_quantity req, True), v)
      else
        (let ((cancelled, late_price, late_quantity), v') = cancel_unfilled ops FILL_POLL_ATTEMPTS oid fallback v in
         if 0 < late_quantity then (Some (late_price, late_quantity, False), v')
         else if cancelled then (None, v')
         else (Some (price, or_quantity req, True), v')))"

text \<open>A partly filled order: the remainder is cancelled unless the row read before was terminal. \<open>True\<close>: the cancel failed.\<close>

definition cancel_remainder :: "'v venue_ops \<Rightarrow> order_request \<Rightarrow> string \<Rightarrow> pyfloat \<Rightarrow> book_row option \<Rightarrow> 'v \<Rightarrow> bool \<times> 'v" where
  "cancel_remainder ops req oid quantity entry v =
     (if 0 < quantity \<and> quantity < or_quantity req
         \<and> (case entry of None \<Rightarrow> [] | Some r \<Rightarrow> py_upper (bk_status r)) \<notin> set FILLED_STATUSES \<union> set REJECTED_STATUSES
      then (let (accepted, v') = vo_cancel ops oid v in (\<not> accepted, v'))
      else (False, v))"

type_synonym breakers = "(string, breaker) dict"

definition place_one ::
  "'v venue_ops \<Rightarrow> breaker \<Rightarrow> pyfloat \<times> pyfloat \<Rightarrow> order_request \<Rightarrow> pyfloat \<Rightarrow> breakers \<times> 'v \<Rightarrow> order_leg \<times> breakers \<times> 'v" where
  "place_one ops fresh clock req fallback = (\<lambda>(reg, v).
     let note = (\<lambda>exc. if vo_records_circuit ops then reg else observe_call fresh (Some (vo_name ops)) exc (fst clock) (snd clock) reg) in
     case vo_place ops req v of
       (PlaceRaised exc, v1) \<Rightarrow> (unfilled_leg KIND_FAILED None, note (Some exc), v1)
     | (Placed oid st, v1) \<Rightarrow>
         (if st = ''REJECTED'' \<or> st = ''CANCELLED'' then (unfilled_leg KIND_REJECTED (Some oid), note None, v1)
          else
            (let ((price, quantity, entry, readable), v2) = resolve_fill_with_status ops FILL_POLL_ATTEMPTS oid fallback None v1;
                 (found, v3) = (if quantity \<le> 0 then settle_unfilled ops req oid fallback price entry readable v2
                                else (Some (price, quantity, False), v2)) in
             case found of
               None \<Rightarrow> (unfilled_leg KIND_NONE (Some oid), note None, v3)
             | Some (p, q, uncertain) \<Rightarrow>
                 (let (failed, v4) = cancel_remainder ops req oid q entry v3 in
                  (\<lparr>lk_kind = KIND_FILLED, lk_id = Some oid, lk_filled = q, lk_price = p, lk_uncertain = uncertain \<or> failed\<rparr>,
                   note None, v4)))))"

section \<open>The slices of an entry\<close>

definition filled_of :: "order_leg list \<Rightarrow> pyfloat" where
  "filled_of legs = foldl (\<lambda>a l. fadd a (lk_filled l)) 0 legs"

definition value_of_legs :: "order_leg list \<Rightarrow> pyfloat" where
  "value_of_legs legs = foldl (\<lambda>a l. fadd a (fmul (lk_filled l) (lk_price l))) 0 legs"

text \<open>
  The loop over the slices. \<open>Inl\<close>: nothing is open and the answer of the slice is the answer of the entry.
  \<open>Inr\<close>: the legs that filled and whether a later slice failed at the broker.
\<close>

fun send_slices ::
  "'v venue_ops \<Rightarrow> breaker \<Rightarrow> (nat \<Rightarrow> pyfloat \<times> pyfloat) \<Rightarrow> order_request \<Rightarrow> pyfloat \<Rightarrow> bool \<Rightarrow> nat \<Rightarrow> pyfloat list
     \<Rightarrow> order_leg list \<Rightarrow> breakers \<times> 'v \<Rightarrow> (order_leg + (order_leg list \<times> bool)) \<times> breakers \<times> 'v" where
  "send_slices ops fresh clock req fallback many n [] legs s = (Inr (legs, False), s)"
| "send_slices ops fresh clock req fallback many n (part # parts) legs s =
     (let r = (if many then req\<lparr>or_quantity := part, or_client_ref := Some (''slice-'' @ show_nat n)\<rparr> else req);
          (leg, s') = place_one ops fresh (clock n) r fallback s in
      if filled_of legs \<le> 0 \<and> lk_kind leg \<noteq> KIND_FILLED then (Inl leg, s')
      else if lk_kind leg \<noteq> KIND_FILLED then (Inr (legs, lk_kind leg = KIND_FAILED), s')
      else if lk_uncertain leg then (Inr (legs @ [leg], False), s')
      else if fadd (lk_filled leg) EPS9 < part then (Inr (legs @ [leg], False), s')
      else send_slices ops fresh clock req fallback many (Suc n) parts (legs @ [leg]) s')"

section \<open>The order-type policy of a broker\<close>

datatype market_choice = ALLOW_MARKET | MAP_TO_LIMIT | REFUSE_MARKET

record entry_policy =
  ep_market :: market_choice
  ep_validity :: "string list"

datatype policy_answer = PolicySends order_request | PolicyRefuses | PolicyNeedsBand

text \<open>\<open>limit\<close>: the marketable limit, or \<open>None\<close> when the band is not set.\<close>

definition apply_entry_policy :: "entry_policy \<Rightarrow> order_request \<Rightarrow> pyfloat option \<Rightarrow> policy_answer" where
  "apply_entry_policy pol req limit =
     (if ep_validity pol \<noteq> []
         \<and> py_upper (if or_validity req = [] then ''DAY'' else or_validity req) \<notin> set (map py_upper (ep_validity pol)) then PolicyRefuses
      else if py_upper (or_type req) = ''MARKET'' then
        (case ep_market pol of
           REFUSE_MARKET \<Rightarrow> PolicyRefuses
         | MAP_TO_LIMIT \<Rightarrow> (case limit of None \<Rightarrow> PolicyNeedsBand | Some p \<Rightarrow> PolicySends (req\<lparr>or_type := ''LIMIT'', or_price := Some p\<rparr>))
         | ALLOW_MARKET \<Rightarrow> PolicySends req)
      else PolicySends req)"

section \<open>The broker-side stop\<close>

fun digit_then :: "(string \<Rightarrow> bool) \<Rightarrow> string \<Rightarrow> bool" where
  "digit_then P [] = False"
| "digit_then P (c # cs) = (is_digit c \<and> P cs \<or> digit_then P cs)"

definition ce_or_pe :: "string \<Rightarrow> bool" where
  "ce_or_pe s = (take 2 s \<in> {''CE'', ''PE''} \<and> (drop 2 s = [] \<or> hd (drop 2 s) = CHR '' ''))"

definition decimal_tail :: "string \<Rightarrow> bool" where
  "decimal_tail s = (let r = dropWhile is_digit s in
     takeWhile is_digit s \<noteq> [] \<and> (r = [] \<or> (hd r = CHR ''.'' \<and> tl r \<noteq> [] \<and> list_all is_digit (tl r))))"

definition looks_like_option :: "string \<Rightarrow> bool" where
  "looks_like_option symbol =
     (let t = py_upper (py_strip symbol) in
      digit_then (\<lambda>r. ce_or_pe r \<or> (r \<noteq> [] \<and> (hd r = CHR '' '' \<or> hd r = CHR ''-'') \<and> ce_or_pe (tl r))) t
      \<or> digit_then (\<lambda>r. r \<noteq> [] \<and> (hd r = CHR ''C'' \<or> hd r = CHR ''P'') \<and> decimal_tail (tl r)) t)"

definition stop_limit :: "order_side \<Rightarrow> pyfloat \<Rightarrow> pyfloat option \<Rightarrow> pyfloat" where
  "stop_limit side trigger band_pct =
     (case band_pct of
        Some pct \<Rightarrow>
          (let tr = py_rounds 2 (fmul (fl (of_int (rhe (fdiv trigger TICK)))) TICK); band = fdiv (max 0 pct) 100 in
           if side = SELL then
             py_rounds 2 (max TICK (min (fmul (fl (of_int \<lfloor>py_rounds 6 (fdiv (fmul tr (fsub 1 band)) TICK)\<rfloor>)) TICK) (fsub tr TICK)))
           else
             py_rounds 2 (max (fmul (fl (of_int \<lceil>py_rounds 6 (fdiv (fmul tr (fadd 1 band)) TICK)\<rceil>)) TICK) (fadd tr TICK)))
      | None \<Rightarrow>
          (let raw = (if side = SELL then fmul trigger (fsub 1 (flit 1 100)) else fmul trigger (fadd 1 (flit 1 100)));
               limit = py_rounds 2 (fmul (fl (of_int (rhe (fdiv raw TICK)))) TICK) in
           if side = SELL then max TICK (min limit (py_rounds 2 trigger)) else max limit (py_rounds 2 trigger)))"

definition stop_order_params :: "'v venue_ops \<Rightarrow> string \<Rightarrow> order_side \<Rightarrow> pyfloat \<Rightarrow> bool option \<Rightarrow> pyfloat option \<Rightarrow> string \<times> pyfloat option" where
  "stop_order_params ops symbol side trigger is_opt band_pct =
     (let opt = (case is_opt of None \<Rightarrow> looks_like_option symbol | Some b \<Rightarrow> b) in
      if vo_stop_market ops \<and> (vo_stop_market_on_options ops \<or> \<not> opt) then (''SL-M'', None)
      else (''SL'', Some (stop_limit side trigger band_pct)))"

fun is_clear_rejection :: "broker_exc \<Rightarrow> bool" where
  "is_clear_rejection OrderRejected = True"
| "is_clear_rejection (ApiError (Some code)) = (400 \<le> code \<and> code < 500 \<and> code \<noteq> 408 \<and> code \<noteq> 429)"
| "is_clear_rejection _ = False"

datatype stop_result = StopNotSent | StopPlaced string | StopFailed bool

section \<open>The route of an entry\<close>

record route_cfg =
  rt_exchange :: string
  rt_product :: "string option"
  rt_style :: "string option"
  rt_band :: "pyfloat option"
  rt_freeze :: "int option"
  rt_stop :: bool
  rt_is_option :: "bool option"
  rt_stop_band :: "pyfloat option"
  rt_entry_tag :: "string option"
  rt_stop_tag :: "string option"

record entry_order =
  eo_symbol :: string
  eo_side :: order_side
  eo_entry :: pyfloat
  eo_stop :: "pyfloat option"

record opened =
  op_quantity :: pyfloat
  op_price :: pyfloat
  op_order_id :: "string option"
  op_partial :: bool
  op_uncertain :: bool
  op_stop :: stop_result

datatype not_sent = NeedsSetting string | BreakerOpen | PolicyRefused
datatype route_result = NotSent not_sent | RouteRaised | Declined order_leg | Opened opened

definition opposite :: "order_side \<Rightarrow> order_side" where
  "opposite s = (case s of BUY \<Rightarrow> SELL | SELL \<Rightarrow> BUY)"

text \<open>
  The tick of a stop: of the instrument (the registry's answer for the symbol), else 0.05 on NSE, BSE,
  NFO and BFO; with the decimals of the tick.
\<close>

definition stop_tick :: "(string \<Rightarrow> (pyfloat \<times> nat) option) \<Rightarrow> string \<Rightarrow> string \<Rightarrow> pyfloat option \<times> nat" where
  "stop_tick ticks symbol exchange =
     (case ticks symbol of
        Some (t, d) \<Rightarrow> (Some t, d)
      | None \<Rightarrow> if py_upper exchange \<in> {''NSE'', ''BSE'', ''NFO'', ''BFO''} then (Some TICK, 2) else (None, 2))"

definition protective_stop ::
  "'v venue_ops \<Rightarrow> (string \<Rightarrow> (pyfloat \<times> nat) option) \<Rightarrow> route_cfg \<Rightarrow> string \<Rightarrow> entry_order \<Rightarrow> pyfloat \<Rightarrow> 'v \<Rightarrow> stop_result \<times> 'v" where
  "protective_stop ops ticks cfg product sg quantity v =
     (case eo_stop sg of
        Some level \<Rightarrow>
          (if rt_stop cfg \<and> \<not> vo_paper ops \<and> 0 < level then
             (let side = opposite (eo_side sg);
                  (tick, decimals) = stop_tick ticks (eo_symbol sg) (rt_exchange cfg);
                  trigger = round_stop_trigger tick decimals (round_stop_trigger tick decimals level side) side;
                  (kind, limit) = stop_order_params ops (eo_symbol sg) side trigger (rt_is_option cfg) (rt_stop_band cfg);
                  req = \<lparr>or_symbol = eo_symbol sg, or_exchange = rt_exchange cfg, or_side = side, or_quantity = quantity, or_type = kind,
                         or_product = product, or_price = limit, or_trigger = Some trigger, or_validity = ''DAY'', or_tag = rt_stop_tag cfg,
                         or_intent = None, or_client_ref = None, or_protection_pct = None\<rparr> in
              case vo_place ops req v of
                (Placed oid st, v') \<Rightarrow> (StopPlaced oid, v')
              | (PlaceRaised exc, v') \<Rightarrow> (StopFailed (is_clear_rejection exc), v'))
           else (StopNotSent, v))
      | None \<Rightarrow> (StopNotSent, v))"

text \<open>The slices of the quantity: whole lots below the freeze quantity when the caller states one.\<close>

definition route_parts :: "route_cfg \<Rightarrow> contract_spec option \<Rightarrow> pyfloat \<Rightarrow> pyfloat list" where
  "route_parts cfg spec quantity =
     (case rt_freeze cfg of
        None \<Rightarrow> [quantity]
      | Some f \<Rightarrow>
          (if f = 0 then [quantity]
           else (let lot = (case spec of Some c \<Rightarrow> if ct_lot_size c = 0 then 1 else \<lfloor>ct_lot_size c\<rfloor> | None \<Rightarrow> 1);
                     slices = slice_units (rhe quantity) lot (Some f) in
                 if slices = [] then [quantity] else map (\<lambda>u. fl (of_int u)) slices)))"

text \<open>The request of an entry after the protected-limit style, the policy and the venue's own rule; \<open>Inl None\<close>: a raise.\<close>

definition entry_request :: "route_cfg \<Rightarrow> entry_policy \<Rightarrow> 'v venue_ops \<Rightarrow> entry_order \<Rightarrow> string \<Rightarrow> string \<Rightarrow> pyfloat \<Rightarrow> not_sent option + order_request" where
  "entry_request cfg pol ops sg product style quantity =
     (let limit = (case rt_band cfg of Some b \<Rightarrow> Some (protected_limit_price (eo_entry sg) (eo_side sg) b) | None \<Rightarrow> None);
          base = \<lparr>or_symbol = eo_symbol sg, or_exchange = rt_exchange cfg, or_side = eo_side sg, or_quantity = quantity, or_type = ''MARKET'',
                  or_product = product, or_price = None, or_trigger = None, or_validity = ''DAY'', or_tag = rt_entry_tag cfg,
                  or_intent = Some ''ENTRY'', or_client_ref = None, or_protection_pct = None\<rparr>;
          styled = (if style = ''PROTECTED_LIMIT'' \<and> limit \<noteq> None then base\<lparr>or_type := ''LIMIT'', or_price := limit\<rparr> else base) in
      case apply_entry_policy pol styled limit of
        PolicyRefuses \<Rightarrow> Inl (Some PolicyRefused)
      | PolicyNeedsBand \<Rightarrow> Inl (Some (NeedsSetting ''price_protection_pct''))
      | PolicySends r \<Rightarrow>
          (if py_upper (or_type r) = ''MARKET'' \<and> \<not> vo_market_ok ops then
             (case rt_band cfg of
                None \<Rightarrow> Inl (Some (NeedsSetting ''price_protection_pct''))
              | Some b \<Rightarrow> (case marketable_limit_price (eo_entry sg) (eo_side sg) b of
                             None \<Rightarrow> Inl None
                           | Some p \<Rightarrow> Inr (r\<lparr>or_type := ''LIMIT'', or_price := Some p\<rparr>)))
           else Inr r))"

definition settle_entry ::
  "'v venue_ops \<Rightarrow> (string \<Rightarrow> (pyfloat \<times> nat) option) \<Rightarrow> route_cfg \<Rightarrow> string \<Rightarrow> entry_order \<Rightarrow> pyfloat \<Rightarrow> order_leg list \<Rightarrow> bool \<Rightarrow> 'v \<Rightarrow> opened \<times> 'v" where
  "settle_entry ops ticks cfg product sg quantity legs failed v =
     (let total = filled_of legs;
          price = (case legs of [l] \<Rightarrow> lk_price l | _ \<Rightarrow> fdiv (value_of_legs legs) total);
          (stop, v') = protective_stop ops ticks cfg product sg total v in
      (\<lparr>op_quantity = total, op_price = py_round2 price,
        op_order_id = (if vo_paper ops then None else (case find (\<lambda>l. truthy (lk_id l)) legs of Some l \<Rightarrow> lk_id l | None \<Rightarrow> None)),
        op_partial = (fadd total EPS9 < quantity),
        op_uncertain = (failed \<or> (\<exists>l \<in> set legs. lk_uncertain l)), op_stop = stop\<rparr>, v'))"

definition route ::
  "'v venue_ops \<Rightarrow> entry_policy \<Rightarrow> (string \<Rightarrow> (pyfloat \<times> nat) option) \<Rightarrow> breaker \<Rightarrow> pyfloat \<Rightarrow> (nat \<Rightarrow> pyfloat \<times> pyfloat) \<Rightarrow> route_cfg
     \<Rightarrow> entry_order \<Rightarrow> contract_spec option \<Rightarrow> pyfloat \<Rightarrow> breakers \<times> 'v \<Rightarrow> route_result \<times> breakers \<times> 'v" where
  "route ops pol ticks fresh now clock cfg sg spec quantity = (\<lambda>(reg, v).
     case (rt_product cfg, rt_style cfg) of
       (None, _) \<Rightarrow> (NotSent (NeedsSetting ''holding''), reg, v)
     | (_, None) \<Rightarrow> (NotSent (NeedsSetting ''order_type''), reg, v)
     | (Some product, Some style) \<Rightarrow>
         (if rt_band cfg = None \<and> (style = ''PROTECTED_LIMIT'' \<or> \<not> vo_market_ok ops) then (NotSent (NeedsSetting ''price_protection_pct''), reg, v)
          else
            (let (key, b) = breaker_for fresh reg (Some (vo_name ops));
                 (b', ok) = allow_submission now b;
                 reg' = dict_set key b' reg in
             if \<not> ok then (NotSent BreakerOpen, reg', v)
             else
               (case entry_request cfg pol ops sg product style quantity of
                  Inl None \<Rightarrow> (RouteRaised, reg', v)
                | Inl (Some why) \<Rightarrow> (NotSent why, reg', v)
                | Inr req \<Rightarrow>
                    (let parts = route_parts cfg spec quantity;
                         (sent, reg2, v2) = send_slices ops fresh clock req (eo_entry sg) (length parts \<noteq> 1) 1 parts [] (reg', v) in
                     case sent of
                       Inl leg \<Rightarrow> (Declined leg, reg2, v2)
                     | Inr (legs, failed) \<Rightarrow>
                         (let (pos, v3) = settle_entry ops ticks cfg product sg quantity legs failed v2 in (Opened pos, reg2, v3)))))))"

section \<open>The venue of a mode, and the whole entry\<close>

text \<open>PAPER: the broker handed in when it is itself a practice venue, else the paper venue. LIVE: only a real broker; \<open>None\<close> is the raise.\<close>

definition venue_for :: "bool \<Rightarrow> 'v venue_ops option \<Rightarrow> 'v venue_ops \<Rightarrow> 'v venue_ops option" where
  "venue_for paper_mode broker paper_venue =
     (if paper_mode then (case broker of Some b \<Rightarrow> if vo_paper b then Some b else Some paper_venue | None \<Rightarrow> Some paper_venue)
      else (case broker of Some b \<Rightarrow> if vo_paper b then None else Some b | None \<Rightarrow> None))"

datatype exec_result = RiskRefused refusal | BelowOneLot | CheckRefused | LiveNotConfigured | Routed route_result

text \<open>The cap on the sized quantity: \<open>None\<close> when less than one lot is left.\<close>

definition cap_quantity :: "contract_spec option \<Rightarrow> pyfloat option \<Rightarrow> pyfloat \<Rightarrow> pyfloat option" where
  "cap_quantity spec cap q =
     (case cap of
        None \<Rightarrow> Some q
      | Some m \<Rightarrow>
          (if \<not> m < q then Some q
           else (let capped = (case spec of
                     Some c \<Rightarrow> if ct_lot_size c = 0 then m else fmul (fl (of_int \<lfloor>m / ct_lot_size c\<rfloor>)) (ct_lot_size c)
                   | None \<Rightarrow> of_int \<lfloor>m\<rfloor>) in
                 if capped \<le> 0 then None else Some capped)))"

definition level_of :: "pynum option \<Rightarrow> pyfloat option" where
  "level_of v = (case v of Some (Fin x) \<Rightarrow> Some x | _ \<Rightarrow> None)"

definition execute ::
  "bool \<Rightarrow> 'v venue_ops option \<Rightarrow> 'v venue_ops \<Rightarrow> (string \<Rightarrow> string \<Rightarrow> pyfloat \<Rightarrow> 'v \<Rightarrow> 'v) \<Rightarrow> (string \<Rightarrow> entry_policy)
     \<Rightarrow> (string \<Rightarrow> (pyfloat \<times> nat) option) \<Rightarrow> breaker \<Rightarrow> pyfloat \<Rightarrow> (nat \<Rightarrow> pyfloat \<times> pyfloat) \<Rightarrow> route_cfg \<Rightarrow> risk_config
     \<Rightarrow> (pyfloat \<Rightarrow> bool) \<Rightarrow> string \<Rightarrow> risk_signal \<Rightarrow> day_state \<Rightarrow> contract_spec option \<Rightarrow> pyfloat option
     \<Rightarrow> breakers \<times> 'v \<Rightarrow> exec_result \<times> breakers \<times> 'v" where
  "execute paper_mode broker paper_venue mark policy ticks fresh now clock cfg risk allowed symbol sg st spec cap = (\<lambda>(reg, v).
     case validate_and_size risk False sg st spec cap of
       Refused why _ \<Rightarrow> (RiskRefused why, reg, v)
     | Approved q _ \<Rightarrow>
         (case cap_quantity spec cap q of
            None \<Rightarrow> (BelowOneLot, reg, v)
          | Some quantity \<Rightarrow>
              (if \<not> allowed quantity then (CheckRefused, reg, v)
               else case venue_for paper_mode broker paper_venue of
                 None \<Rightarrow> (LiveNotConfigured, reg, v)
               | Some ops \<Rightarrow>
                   (let entry = (case level_of (rs_entry sg) of Some x \<Rightarrow> x | None \<Rightarrow> 0);
                        eo = \<lparr>eo_symbol = symbol, eo_side = (if rs_direction sg = GO_LONG then BUY else SELL), eo_entry = entry,
                              eo_stop = level_of (rs_stop_loss sg)\<rparr>;
                        v' = (if paper_mode then mark symbol (rt_exchange cfg) entry v else v);
                        (r, s) = route ops (policy (str_or (vo_venue ops) (vo_name ops))) ticks fresh now clock cfg eo spec quantity (reg, v') in
                    (Routed r, s)))))"

section \<open>What one order comes to\<close>

lemma place_one_cases:
  assumes "place_one ops fresh clock req fb (reg, v) = (leg, reg', v')"
  obtains (failed) e where "vo_place ops req v = (PlaceRaised e, v')" and "leg = unfilled_leg KIND_FAILED None"
  | (rejected) oid st where "vo_place ops req v = (Placed oid st, v')" and "st = ''REJECTED'' \<or> st = ''CANCELLED''" and "leg = unfilled_leg KIND_REJECTED (Some oid)"
  | (looked) oid st v1 p q m readable v2 found v3 where "vo_place ops req v = (Placed oid st, v1)" and "st \<noteq> ''REJECTED''" and "st \<noteq> ''CANCELLED''"
      and "resolve_fill_with_status ops FILL_POLL_ATTEMPTS oid fb None v1 = ((p, q, m, readable), v2)"
      and "(if q \<le> 0 then settle_unfilled ops req oid fb p m readable v2 else (Some (p, q, False), v2)) = (found, v3)"
      and "case found of None \<Rightarrow> leg = unfilled_leg KIND_NONE (Some oid) \<and> v' = v3
           | Some (p', q', u) \<Rightarrow> (\<exists>failed. cancel_remainder ops req oid q' m v3 = (failed, v')
               \<and> leg = \<lparr>lk_kind = KIND_FILLED, lk_id = Some oid, lk_filled = q', lk_price = p', lk_uncertain = u \<or> failed\<rparr>)"
proof -
  obtain a v1 where a: "vo_place ops req v = (a, v1)" by fastforce
  show ?thesis
  proof (cases a)
    case (PlaceRaised e)
    then show ?thesis using assms a failed by (simp add: place_one_def Let_def)
  next
    case (Placed oid st)
    show ?thesis
    proof (cases "st = ''REJECTED'' \<or> st = ''CANCELLED''")
      case True
      then show ?thesis using assms a Placed rejected by (simp add: place_one_def Let_def)
    next
      case False
      obtain p q m readable v2 where r: "resolve_fill_with_status ops FILL_POLL_ATTEMPTS oid fb None v1 = ((p, q, m, readable), v2)"
        by (metis prod.exhaust)
      obtain found v3 where f: "(if q \<le> 0 then settle_unfilled ops req oid fb p m readable v2 else (Some (p, q, False), v2)) = (found, v3)"
        by fastforce
      show ?thesis
        by (rule looked [OF a [unfolded Placed] _ _ r f])
          (use False assms a Placed r f in \<open>auto simp: place_one_def Let_def split: option.splits prod.splits if_splits\<close>)
    qed
  qed
qed

context venue
begin

lemma settle_true:
  assumes "good v" and "settle_unfilled ops req oid fb p m readable v = (found, v')" and "ended m \<longrightarrow> over v oid \<and> filled v oid = 0"
  shows "good v' \<and> (found = None \<longrightarrow> over v' oid \<and> filled v' oid = 0)
    \<and> (\<forall>p' q' u. found = Some (p', q', u) \<longrightarrow> (u \<and> q' = or_quantity req) \<or> (\<not> u \<and> 0 < q' \<and> filled v' oid = q'))"
proof (cases "ended m \<or> m = None \<and> \<not> readable")
  case True
  then show ?thesis using assms by (auto simp: settle_unfilled_def split: if_splits)
next
  case False
  obtain c lp lq w where w: "cancel_unfilled ops FILL_POLL_ATTEMPTS oid fb v = ((c, lp, lq), w)" by (metis prod.exhaust)
  note t = cancel_true [OF assms(1) w]
  show ?thesis using False assms(2) w t by (auto simp: settle_unfilled_def split: if_splits)
qed

lemma remainder_good:
  assumes "good v" and "cancel_remainder ops req oid q m v = (failed, v')"
  shows "good v' \<and> filled v oid \<le> filled v' oid"
  using assms cancel_good [OF assms(1)] cancel_grows [OF assms(1)]
  by (auto simp: cancel_remainder_def split: prod.splits if_splits)

lemma place_one_true:
  assumes "good v" and "place_one ops fresh clock req fb (reg, v) = (leg, reg', v')"
    and "\<forall>ref. or_client_ref req = Some ref \<longrightarrow> \<not> used v ref"
  shows "good v' \<and> (lk_kind leg \<in> {KIND_NONE, KIND_REJECTED} \<longrightarrow> (\<exists>oid. lk_id leg = Some oid \<and> over v' oid \<and> filled v' oid = 0))
    \<and> (lk_kind leg = KIND_FILLED \<longrightarrow> (\<exists>oid. lk_id leg = Some oid \<and>
          (if lk_uncertain leg then 0 < lk_filled leg \<or> lk_filled leg = or_quantity req else 0 < lk_filled leg \<and> lk_filled leg \<le> filled v' oid)))"
  using assms(2)
proof (cases rule: place_one_cases)
  case (failed e)
  then show ?thesis using place_good [OF assms(1)] by (simp add: unfilled_leg_def)
next
  case (rejected oid st)
  then show ?thesis using place_good [OF assms(1)] place_refused [OF assms(1) _ _ assms(3)] by (simp add: unfilled_leg_def)
next
  case (looked oid st v1 p q m readable v2 found v3)
  have g1: "good v1" by (rule place_good [OF assms(1) looked(1)])
  note r = resolve_true [OF g1 looked(4)]
  have e: "ended m \<longrightarrow> q \<le> 0 \<longrightarrow> over v2 oid \<and> filled v2 oid = 0"
    using resolve_ended [OF g1 looked(4)] by (simp add: ended_def)
  have s: "good v3 \<and> (found = None \<longrightarrow> over v3 oid \<and> filled v3 oid = 0)
      \<and> (\<forall>p' q' u. found = Some (p', q', u) \<longrightarrow> (u \<and> q' = or_quantity req) \<or> (\<not> u \<and> 0 < q' \<and> filled v3 oid = q'))"
  proof (cases "q \<le> 0")
    case True
    then show ?thesis using settle_true [of v2 req oid fb p m readable found v3] r e looked(5) by simp
  next
    case False
    then show ?thesis using looked(5) r by auto
  qed
  show ?thesis
  proof (cases found)
    case None
    then show ?thesis using looked(6) s by (simp add: unfilled_leg_def)
  next
    case (Some f)
    obtain p' q' u where f: "f = (p', q', u)" by (cases f)
    from looked(6) Some f obtain failed where c: "cancel_remainder ops req oid q' m v3 = (failed, v')"
      and l: "leg = \<lparr>lk_kind = KIND_FILLED, lk_id = Some oid, lk_filled = q', lk_price = p', lk_uncertain = u \<or> failed\<rparr>" by auto
    have q: "(u \<and> q' = or_quantity req) \<or> (\<not> u \<and> 0 < q' \<and> filled v3 oid = q')" using s Some f by blast
    show ?thesis using remainder_good [of v3 req oid q' m failed v'] s c q l by auto
  qed
qed

end

section \<open>What an entry comes to, at a still venue\<close>

text \<open>The legs are different orders that filled between two states of the venue, each exactly as booked, and nothing else filled.\<close>

definition booked :: "('v \<Rightarrow> string \<Rightarrow> pyfloat) \<Rightarrow> 'v \<Rightarrow> 'v \<Rightarrow> order_leg list \<Rightarrow> bool" where
  "booked filled v v' legs =
     (distinct (map lk_id legs) \<and> (\<forall>l \<in> set legs. lk_id l \<noteq> None \<and> 0 < lk_filled l \<and> filled v (the (lk_id l)) = 0 \<and> filled v' (the (lk_id l)) = lk_filled l)
      \<and> (\<forall>oid. Some oid \<notin> lk_id ` set legs \<longrightarrow> filled v' oid = filled v oid))"

lemma filled_of_snoc: "filled_of (legs @ [l]) = fadd (filled_of legs) (lk_filled l)"
  by (simp add: filled_of_def)

lemma filled_of_pos: "legs \<noteq> [] \<Longrightarrow> \<forall>l \<in> set legs. 0 < lk_filled l \<and> is64 (lk_filled l) \<Longrightarrow> 0 < filled_of legs"
proof (induction legs rule: rev_induct)
  case (snoc l legs)
  have "0 \<le> filled_of legs" using snoc by (cases "legs = []") (auto simp: filled_of_def)
  then have "fl (lk_filled l) \<le> fl (filled_of legs + lk_filled l)" by (intro fl_mono) simp
  then show ?case using snoc.prems by (simp add: filled_of_snoc fadd_def is64_def)
qed simp

lemma send_keeps:
  "legs \<noteq> [] \<Longrightarrow> send_slices ops fresh clock req fb many n parts legs s = (Inr x, t) \<Longrightarrow> fst x \<noteq> []"
proof (induction parts arbitrary: n legs s)
  case (Cons part parts)
  obtain leg s' where p: "place_one ops fresh (clock n)
      (if many then req\<lparr>or_quantity := part, or_client_ref := Some (''slice-'' @ show_nat n)\<rparr> else req) fb s = (leg, s')" by (metis prod.exhaust)
  show ?case using Cons.prems Cons.IH [of "legs @ [leg]" "Suc n" s']
    unfolding send_slices.simps Let_def p prod.case split by (auto split: if_splits)
qed auto

context still_venue
begin

lemma settle_good: "good v \<Longrightarrow> settle_unfilled ops req oid fb p m readable v = (found, v') \<Longrightarrow> good v'"
  using cancel_true [of v FILL_POLL_ATTEMPTS oid fb] by (auto simp: settle_unfilled_def Let_def split: if_splits prod.splits)

lemma settle_still:
  "good v \<Longrightarrow> settle_unfilled ops req oid fb p m readable v = (found, v') \<Longrightarrow> filled v' = filled v \<and> used v' = used v"
  using cancel_unfilled_still [of v FILL_POLL_ATTEMPTS oid fb]
  by (auto simp: settle_unfilled_def Let_def split: if_splits prod.splits)

lemma remainder_still:
  assumes "good v" and "cancel_remainder ops req oid q m v = (failed, v')"
  shows "filled v' = filled v \<and> used v' = used v \<and> (0 < q \<longrightarrow> q < or_quantity req \<longrightarrow> \<not> failed \<longrightarrow> m = None \<longrightarrow> over v' oid)"
  using assms cancel_still [OF assms(1)] cancel_ends [OF assms(1)]
  by (auto simp: cancel_remainder_def FILLED_STATUSES_def REJECTED_STATUSES_def split: prod.splits if_splits)

lemma place_one_exact:
  assumes "good v" and "place_one ops fresh clock req fb (reg, v) = (leg, reg', v')"
    and "\<forall>ref. or_client_ref req = Some ref \<longrightarrow> \<not> used v ref"
  shows "(lk_kind leg \<noteq> KIND_FILLED \<longrightarrow> filled v' = filled v)
    \<and> (lk_kind leg = KIND_FILLED \<longrightarrow> \<not> lk_uncertain leg \<longrightarrow> booked filled v v' [leg])
    \<and> (\<forall>ref. used v' ref \<longrightarrow> used v ref \<or> or_client_ref req = Some ref)"
  using assms(2)
proof (cases rule: place_one_cases)
  case (failed e)
  then show ?thesis using place_raised [OF assms(1)] place_uses [OF assms(1)] by (auto simp: unfilled_leg_def)
next
  case (rejected oid st)
  note n = place_new [OF assms(1) rejected(1) assms(3)] and z = place_refused [OF assms(1) rejected(1,2) assms(3)]
  have "filled v' x = filled v x" for x using n z by (cases "x = oid") auto
  then show ?thesis using rejected place_uses [OF assms(1) rejected(1)] by (auto simp: unfilled_leg_def fun_eq_iff)
next
  case (looked oid st v1 p q m readable v2 found v3)
  have g1: "good v1" by (rule place_good [OF assms(1) looked(1)])
  note n = place_new [OF assms(1) looked(1) assms(3)]
  note r = resolve_true [OF g1 looked(4)] resolve_still [OF g1 looked(4)]
  have e: "ended m \<longrightarrow> q \<le> 0 \<longrightarrow> over v2 oid \<and> filled v2 oid = 0"
    using resolve_ended [OF g1 looked(4)] by (simp add: ended_def)
  have s: "good v3 \<and> filled v3 = filled v1 \<and> used v3 = used v1 \<and> (found = None \<longrightarrow> filled v3 oid = 0)
      \<and> (\<forall>p' q' u. found = Some (p', q', u) \<longrightarrow> u \<or> (0 < q' \<and> filled v3 oid = q'))"
  proof (cases "q \<le> 0")
    case True
    then show ?thesis using settle_true [of v2 req oid fb p m readable found v3] settle_still [of v2 req oid fb p m readable found v3]
        r e looked(5) by auto
  next
    case False
    then show ?thesis using looked(5) r by auto
  qed
  have u: "used v3 ref \<longrightarrow> used v ref \<or> or_client_ref req = Some ref" for ref using s place_uses [OF assms(1) looked(1)] by auto
  show ?thesis
  proof (cases found)
    case None
    have "filled v3 x = filled v x" for x using n s None by (cases "x = oid") auto
    then show ?thesis using looked(6) None u by (auto simp: unfilled_leg_def fun_eq_iff)
  next
    case (Some f)
    obtain p' q' w where f: "f = (p', q', w)" by (cases f)
    from looked(6) Some f obtain failed where c: "cancel_remainder ops req oid q' m v3 = (failed, v')"
      and l: "leg = \<lparr>lk_kind = KIND_FILLED, lk_id = Some oid, lk_filled = q', lk_price = p', lk_uncertain = w \<or> failed\<rparr>" by auto
    note k = remainder_still [of v3 req oid q' m failed v']
    have "booked filled v v' [leg]" if "\<not> lk_uncertain leg" using that s Some f l k c n by (auto simp: booked_def)
    then show ?thesis using l u k c s by auto
  qed
qed

definition refs_free :: "nat \<Rightarrow> 'v \<Rightarrow> bool" where
  "refs_free n v = (\<forall>k \<ge> n. \<not> used v (''slice-'' @ show_nat k))"

lemma refs_free_step:
  assumes "good v" and "or_client_ref req = None" and "refs_free n v"
    and "place_one ops fresh clk (if many then req\<lparr>or_quantity := part, or_client_ref := Some (''slice-'' @ show_nat n)\<rparr> else req) fb (reg, v) = (leg, regp, vp)"
      (is "place_one _ _ _ ?r _ _ = _")
  shows "refs_free (Suc n) vp"
  unfolding refs_free_def
proof (intro allI impI notI)
  have unused: "\<forall>ref. or_client_ref ?r = Some ref \<longrightarrow> \<not> used v ref" using assms(2,3) by (simp add: refs_free_def)
  fix k assume k: "Suc n \<le> k" "used vp (''slice-'' @ show_nat k)"
  then have "used v (''slice-'' @ show_nat k) \<or> or_client_ref ?r = Some (''slice-'' @ show_nat k)"
    using place_one_exact [OF assms(1,4) unused] by blast
  then show False using k assms(2,3) show_nat_inj [of n k] by (auto simp: refs_free_def split: if_splits)
qed

lemma booked_snoc:
  assumes "booked filled v0 v legs" and "booked filled v v' [leg]"
  shows "booked filled v0 v' (legs @ [leg])"
proof -
  obtain oid where o: "lk_id leg = Some oid" "0 < lk_filled leg" "filled v oid = 0" "filled v' oid = lk_filled leg"
      "\<And>x. x \<noteq> oid \<Longrightarrow> filled v' x = filled v x"
    using assms(2) by (auto simp: booked_def)
  have new: "lk_id leg \<notin> lk_id ` set legs" using assms(1) o by (auto simp: booked_def)
  then have old: "filled v' (the (lk_id l)) = lk_filled l" if "l \<in> set legs" for l
  proof -
    have "lk_id l \<noteq> None" "filled v (the (lk_id l)) = lk_filled l" using assms(1) that by (auto simp: booked_def)
    moreover from this that new o(1) have "the (lk_id l) \<noteq> oid" by force
    ultimately show ?thesis using o(5) by simp
  qed
  show ?thesis using assms(1) o new old by (auto simp: booked_def)
qed

lemma booked_floats: "good v \<Longrightarrow> booked filled v0 v legs \<Longrightarrow> \<forall>l \<in> set legs. 0 < lk_filled l \<and> is64 (lk_filled l)"
proof
  fix l assume g: "good v" "booked filled v0 v legs" and l: "l \<in> set legs"
  then have "0 < lk_filled l" "filled v (the (lk_id l)) = lk_filled l" by (auto simp: booked_def)
  then show "0 < lk_filled l \<and> is64 (lk_filled l)" using filled_float [OF g(1), of "the (lk_id l)"] by simp
qed

lemma send_exact:
  assumes "good v" and "or_client_ref req = None" and "refs_free n v" and "booked filled v0 v legs"
    and "send_slices ops fresh clock req fb many n parts legs (reg, v) = (res, reg', v')"
  shows "good v' \<and> (case res of
      Inl leg \<Rightarrow> lk_kind leg \<noteq> KIND_FILLED \<and> filled v' = filled v0
    | Inr (ls, failed) \<Rightarrow> (legs = [] \<longrightarrow> parts \<noteq> [] \<longrightarrow> ls \<noteq> []) \<and> ((\<forall>l \<in> set ls. \<not> lk_uncertain l) \<longrightarrow> booked filled v0 v' ls))"
  using assms
proof (induction parts arbitrary: n legs reg v)
  case (Cons part parts)
  let ?r = "if many then req\<lparr>or_quantity := part, or_client_ref := Some (''slice-'' @ show_nat n)\<rparr> else req"
  obtain leg regp vp where p: "place_one ops fresh (clock n) ?r fb (reg, v) = (leg, regp, vp)" by (metis prod.exhaust)
  have unused: "\<forall>ref. or_client_ref ?r = Some ref \<longrightarrow> \<not> used v ref" using Cons.prems(2,3) by (simp add: refs_free_def)
  note ex = place_one_exact [OF Cons.prems(1) p unused]
  have gp: "good vp" using place_one_true [OF Cons.prems(1) p unused] by blast
  note free = refs_free_step [OF Cons.prems(1,2,3) p]
  have empty: "filled_of legs \<le> 0 \<Longrightarrow> legs = []"
    using filled_of_pos [of legs] booked_floats [OF Cons.prems(1,4)] by force
  have base: "legs = [] \<Longrightarrow> filled v = filled v0" using Cons.prems(4) by (auto simp: booked_def fun_eq_iff)
  note step = Cons.prems(5) [unfolded send_slices.simps Let_def p prod.case split]
  show ?case
  proof (cases "lk_kind leg = KIND_FILLED")
    case False
    show ?thesis
    proof (cases "filled_of legs \<le> 0")
      case True
      then show ?thesis using step False gp ex empty base by auto
    next
      case nonempty: False
      have "legs \<noteq> []" using nonempty by (auto simp: filled_of_def)
      then show ?thesis using step False nonempty gp ex Cons.prems(4) by (auto simp: booked_def)
    qed
  next
    case True
    note k = this
    show ?thesis
    proof (cases "lk_uncertain leg")
      case True
      then show ?thesis using step k gp by auto
    next
      case False
      then have b: "booked filled v0 vp (legs @ [leg])" using booked_snoc [OF Cons.prems(4)] ex k by blast
      show ?thesis
      proof (cases "fadd (lk_filled leg) EPS9 < part")
        case True
        then show ?thesis using step k gp b False by auto
      next
        case False
        then have "send_slices ops fresh clock req fb many (Suc n) parts (legs @ [leg]) (regp, vp) = (res, reg', v')"
          using step k \<open>\<not> lk_uncertain leg\<close> by simp
        note ih = Cons.IH [OF gp Cons.prems(2) free b this]
        from ih show ?thesis
        proof (cases res)
          case (Inr x)
          have "fst x \<noteq> []"
            by (rule send_keeps [of "legs @ [leg]"]) (use \<open>send_slices _ _ _ _ _ _ (Suc n) _ _ _ = _\<close> Inr in simp_all)
          then show ?thesis using ih Inr by (cases x) auto
        qed simp
      qed
    qed
  qed
qed auto

end

section \<open>The whole route\<close>

lemma route_parts_nonempty: "route_parts cfg spec q \<noteq> []"
  by (simp add: route_parts_def Let_def split: option.splits)

lemma entry_request_ref: "entry_request cfg pol ops sg product style q = Inr req \<Longrightarrow> or_client_ref req = None"
  by (auto simp: entry_request_def apply_entry_policy_def Let_def split: if_splits option.splits market_choice.splits)

text \<open>How a route can end: before the venue is asked anything, or with the slices sent.\<close>

lemma route_cases:
  assumes "route ops pol ticks fresh now clock cfg sg spec q (reg, v) = (res, reg', v')"
  obtains (early) "v' = v" and "\<And>pos. res \<noteq> Opened pos" and "\<And>leg. res \<noteq> Declined leg"
  | (sent) product style req reg1 sent reg2 v2 where "rt_product cfg = Some product" and "rt_style cfg = Some style"
      and "entry_request cfg pol ops sg product style q = Inr req"
      and "send_slices ops fresh clock req (eo_entry sg) (length (route_parts cfg spec q) \<noteq> 1) 1 (route_parts cfg spec q) [] (reg1, v) = (sent, reg2, v2)"
      and "case sent of Inl leg \<Rightarrow> res = Declined leg \<and> v' = v2
           | Inr (legs, failed) \<Rightarrow> \<exists>pos. settle_entry ops ticks cfg product sg q legs failed v2 = (pos, v') \<and> res = Opened pos"
proof (cases "rt_product cfg")
  case None
  then show ?thesis using early assms by (auto simp: route_def)
next
  case (Some product)
  note pr = this
  show ?thesis
  proof (cases "rt_style cfg")
    case None
    then show ?thesis using early assms pr by (auto simp: route_def)
  next
    case (Some style)
    note st = this
    obtain key b where kb: "breaker_for fresh reg (Some (vo_name ops)) = (key, b)" by fastforce
    obtain b' ok where al: "allow_submission now b = (b', ok)" by fastforce
    show ?thesis
    proof (cases "(rt_band cfg = None \<and> (style = ''PROTECTED_LIMIT'' \<or> \<not> vo_market_ok ops)) \<or> \<not> ok")
      case True
      then show ?thesis using early assms pr st kb al by (auto simp: route_def Let_def split: if_splits)
    next
      case False
      note r = assms [unfolded route_def pr st, simplified, unfolded Let_def kb al prod.case]
      show ?thesis
      proof (cases "entry_request cfg pol ops sg product style q")
        case (Inl why)
        then show ?thesis using early r False by (cases why) auto
      next
        case (Inr req)
        obtain sent reg2 v2 where s: "send_slices ops fresh clock req (eo_entry sg) (length (route_parts cfg spec q) \<noteq> 1) 1
            (route_parts cfg spec q) [] (dict_set key b' reg, v) = (sent, reg2, v2)" by (metis prod.exhaust)
        show ?thesis
          by (rule sent [OF pr st Inr s]) (use r False Inr s in \<open>auto split: sum.splits prod.splits\<close>)
      qed
    qed
  qed
qed

context still_venue
begin

text \<open>At a still practice venue an entry books exactly what filled, and an entry that is not opened fills nothing.\<close>

lemma route_exact:
  assumes "good v" and "vo_paper ops" and "refs_free 1 v"
    and "route ops pol ticks fresh now clock cfg sg spec q (reg, v) = (res, reg', v')"
  shows "good v' \<and> (case res of
      Opened pos \<Rightarrow> \<not> op_uncertain pos \<longrightarrow> (\<exists>legs. legs \<noteq> [] \<and> booked filled v v' legs \<and> op_quantity pos = filled_of legs)
    | _ \<Rightarrow> filled v' = filled v)"
  using assms(4)
proof (cases rule: route_cases)
  case early
  have "\<exists>pos. res = Opened pos \<Longrightarrow> False" using early(2) by blast
  then show ?thesis using early(1) assms(1) by (cases res) auto
next
  case (sent product style req reg1 sent reg2 v2)
  have b0: "booked filled v v []" by (simp add: booked_def)
  note ex = send_exact [OF assms(1) entry_request_ref [OF sent(3)] assms(3) b0 sent(4)]
  show ?thesis
  proof (cases sent)
    case (Inl leg)
    then show ?thesis using sent(5) ex by simp
  next
    case (Inr x)
    obtain legs failed where x: "x = (legs, failed)" by (cases x)
    then obtain pos where pos: "settle_entry ops ticks cfg product sg q legs failed v2 = (pos, v')" "res = Opened pos" using sent(5) Inr by auto
    have same: "v' = v2" using pos(1) assms(2) by (auto simp: settle_entry_def protective_stop_def Let_def split: option.splits)
    have p: "op_quantity pos = filled_of legs" "op_uncertain pos \<longleftrightarrow> failed \<or> (\<exists>l \<in> set legs. lk_uncertain l)"
      using pos(1) by (auto simp: settle_entry_def Let_def split: prod.splits)
    have "legs \<noteq> []" "(\<forall>l \<in> set legs. \<not> lk_uncertain l) \<longrightarrow> booked filled v v' legs"
      using ex Inr x same route_parts_nonempty by auto
    then show ?thesis using p pos(2) same ex by auto
  qed
qed

end

context answering_venue
begin

text \<open>A venue that always answers leaves nothing uncertain.\<close>

lemma cancel_unfilled_answers:
  assumes "good v" and "known v oid" and "cancel_unfilled ops FILL_POLL_ATTEMPTS oid fb v = ((c, p, q), v')"
  shows "(0 < q \<or> c) \<and> known v' oid"
proof -
  obtain w where w: "vo_cancel ops oid v = (True, w)" "known w oid" using cancel_answers [OF assms(1,2)] by blast
  have "confirm_cancel ops (Suc 2) oid fb w = ((c, p, q), v')" using assms(3) w(1) by (simp add: cancel_unfilled_def FILL_POLL_ATTEMPTS_def numeral_3_eq_3)
  from confirm_answers [OF cancel_good [OF assms(1) w(1)] w(2) cancel_ends [OF assms(1) w(1)] this] show ?thesis using w(2) by simp
qed

lemma settle_answers:
  assumes "good v" and "known v oid" and "settle_unfilled ops req oid fb p m True v = (found, v')"
  shows "known v' oid \<and> (\<forall>p' q' u. found = Some (p', q', u) \<longrightarrow> \<not> u)"
proof (cases "ended m")
  case True
  then show ?thesis using assms by (simp add: settle_unfilled_def)
next
  case False
  obtain c lp lq w where w: "cancel_unfilled ops FILL_POLL_ATTEMPTS oid fb v = ((c, lp, lq), w)" by (metis prod.exhaust)
  from cancel_unfilled_answers [OF assms(1,2) w] show ?thesis using False assms(3) w by (auto simp: settle_unfilled_def split: if_splits)
qed

lemma place_one_certain:
  assumes "good v" and "place_one ops fresh clock req fb (reg, v) = (leg, reg', v')"
  shows "lk_kind leg \<noteq> KIND_FAILED \<and> \<not> lk_uncertain leg"
  using assms(2)
proof (cases rule: place_one_cases)
  case (failed e)
  then show ?thesis using place_answers [OF assms(1) failed(1)] by simp
next
  case (rejected oid st)
  then show ?thesis by (simp add: unfilled_leg_def)
next
  case (looked oid st v1 p q m readable v2 found v3)
  have g1: "good v1" by (rule place_good [OF assms(1) looked(1)])
  have k1: "known v1 oid" using place_answers [OF assms(1) looked(1)] by simp
  have r: "v2 = v1" "readable" using resolve_answers [OF g1 looked(4)] by simp_all
  have s: "known v3 oid \<and> (\<forall>p' q' u. found = Some (p', q', u) \<longrightarrow> \<not> u)"
    using settle_answers [OF g1 k1, of req fb p m found v3] looked(5) r k1 by (cases "q \<le> 0") auto
  have g3: "good v3"
    using looked(5) r g1 resolve_true [OF g1 looked(4)] settle_good [of v1 req oid fb p m readable found v3] by (auto split: if_splits)
  show ?thesis
  proof (cases found)
    case None
    then show ?thesis using looked(6) by (simp add: unfilled_leg_def)
  next
    case (Some f)
    obtain p' q' u where f: "f = (p', q', u)" by (cases f)
    from looked(6) Some f obtain failed where c: "cancel_remainder ops req oid q' m v3 = (failed, v')"
      and l: "leg = \<lparr>lk_kind = KIND_FILLED, lk_id = Some oid, lk_filled = q', lk_price = p', lk_uncertain = u \<or> failed\<rparr>" by auto
    have "\<not> failed" using c cancel_answers [OF g3, of oid] s by (auto simp: cancel_remainder_def split: if_splits)
    then show ?thesis using l s Some f by simp
  qed
qed

lemma send_certain:
  assumes "good v" and "or_client_ref req = None" and "refs_free n v" and "\<forall>l \<in> set legs. \<not> lk_uncertain l"
    and "send_slices ops fresh clock req fb many n parts legs (reg, v) = (res, reg', v')"
  shows "case res of Inl leg \<Rightarrow> lk_kind leg \<noteq> KIND_FAILED | Inr (ls, failed) \<Rightarrow> \<not> failed \<and> (\<forall>l \<in> set ls. \<not> lk_uncertain l)"
  using assms
proof (induction parts arbitrary: n legs reg v)
  case (Cons part parts)
  let ?r = "if many then req\<lparr>or_quantity := part, or_client_ref := Some (''slice-'' @ show_nat n)\<rparr> else req"
  obtain leg regp vp where p: "place_one ops fresh (clock n) ?r fb (reg, v) = (leg, regp, vp)" by (metis prod.exhaust)
  have unused: "\<forall>ref. or_client_ref ?r = Some ref \<longrightarrow> \<not> used v ref" using Cons.prems(2,3) by (simp add: refs_free_def)
  note c = place_one_certain [OF Cons.prems(1) p]
  note free = refs_free_step [OF Cons.prems(1,2,3) p]
  have gp: "good vp" using place_one_true [OF Cons.prems(1) p unused] by blast
  note step = Cons.prems(5) [unfolded send_slices.simps Let_def p prod.case split]
  have ih: ?case if "send_slices ops fresh clock req fb many (Suc n) parts (legs @ [leg]) (regp, vp) = (res, reg', v')"
    by (rule Cons.IH [OF gp Cons.prems(2) free _ that]) (use c Cons.prems(4) in auto)
  show ?case using step c Cons.prems(4) ih by (auto split: if_splits)
qed auto

lemma route_certain:
  assumes "good v" and "refs_free 1 v"
    and "route ops pol ticks fresh now clock cfg sg spec q (reg, v) = (res, reg', v')"
  shows "(\<forall>pos. res = Opened pos \<longrightarrow> \<not> op_uncertain pos) \<and> (\<forall>leg. res = Declined leg \<longrightarrow> lk_kind leg \<noteq> KIND_FAILED)"
  using assms(3)
proof (cases rule: route_cases)
  case (sent product style req reg1 sent reg2 v2)
  note c = send_certain [OF assms(1) entry_request_ref [OF sent(3)] assms(2) _ sent(4)]
  show ?thesis
  proof (cases sent)
    case (Inl leg)
    then show ?thesis using sent(5) c by simp
  next
    case (Inr x)
    then show ?thesis using sent(5) c by (auto simp: settle_entry_def Let_def split: prod.splits)
  qed
qed auto

end

section \<open>Facts about every venue\<close>


text \<open>Concrete entries: a policy that takes no market order, and an entry of 50 at 100.\<close>

definition ex_route :: route_cfg where
  "ex_route = \<lparr>rt_exchange = ''NSE'', rt_product = Some ''MIS'', rt_style = Some ''MARKET'', rt_band = Some 1, rt_freeze = None, rt_stop = False,
     rt_is_option = None, rt_stop_band = None, rt_entry_tag = None, rt_stop_tag = None\<rparr>"

definition ex_entry :: entry_order where
  "ex_entry = \<lparr>eo_symbol = ''ABC'', eo_side = BUY, eo_entry = 100, eo_stop = Some 90\<rparr>"

text \<open>
  A broker within the laws at which ten more units fill between the look at the book and the cancel: the
  state 1 is the working order with 20 filled, the state 2 the cancelled order with 30 filled.
\<close>

definition late_filled :: "nat \<Rightarrow> string \<Rightarrow> pyfloat" where
  "late_filled v oid = (if oid = ''B1'' then (if v = 0 then 0 else if v = 1 then 20 else 30) else 0)"

definition late_row :: "nat \<Rightarrow> book_row" where
  "late_row v = \<lparr>bk_id = ''B1'', bk_symbol = ''ABC'', bk_side = BUY, bk_quantity = 50, bk_filled = late_filled v ''B1'', bk_type = ''MARKET'',
     bk_status = (if v = 1 then ''OPEN'' else ''CANCELLED''), bk_price = None, bk_average = Some 100, bk_tag = None, bk_product = None, bk_exchange = None\<rparr>"

definition late_broker :: "nat venue_ops" where
  "late_broker = \<lparr>vo_name = ''broker'', vo_venue = None, vo_paper = False, vo_market_ok = True, vo_stop_market = True, vo_stop_market_on_options = True,
     vo_records_circuit = True, vo_place = (\<lambda>r v. (Placed ''B1'' ''OPEN'', 1)), vo_book = (\<lambda>v. (Some (if v = 0 then [] else [late_row v]), v)),
     vo_cancel = (\<lambda>oid v. (True, if v = 0 then 0 else 2))\<rparr>"

lemma is64_of_int: "\<bar>n\<bar> \<le> 2 ^ 53 \<Longrightarrow> is64 (of_int n)"
  by (simp add: is64_def fl_of_int)

definition late_over :: "nat \<Rightarrow> string \<Rightarrow> bool" where
  "late_over v oid = (v \<noteq> 1 \<or> oid \<noteq> ''B1'')"

lemma late_status: "py_upper (bk_status (late_row v)) \<in> set REJECTED_STATUSES \<union> set FILLED_STATUSES \<Longrightarrow> v \<noteq> 1"
proof
  assume a: "py_upper (bk_status (late_row v)) \<in> set REJECTED_STATUSES \<union> set FILLED_STATUSES" and v: "v = 1"
  have "py_upper (bk_status (late_row 1)) \<notin> set REJECTED_STATUSES \<union> set FILLED_STATUSES" by code_simp
  then show False using a v by simp
qed

interpretation late: venue late_broker "\<lambda>_. True" late_filled late_over "\<lambda>_ _. False"
proof unfold_locales
  fix v oid show "is64 (late_filled v oid)"
    using is64_of_int [of 20] is64_of_int [of 30] is64_of_int [of 0] by (simp add: late_filled_def)
next
  fix v v' book oid row
  assume b: "vo_book late_broker v = (Some book, v')" and m: "book_match oid book = Some row"
  have v: "v' = v" "v \<noteq> 0" "row = late_row v" "oid = ''B1''"
    using b m by (auto simp: late_broker_def book_match_def late_row_def split: if_splits)
  show "bk_filled row = late_filled v' oid \<and> 0 \<le> late_filled v' oid \<and> (0 < late_filled v' oid \<longrightarrow> fill_shown (Some row) \<noteq> None)
      \<and> (py_upper (bk_status row) \<in> set REJECTED_STATUSES \<union> set FILLED_STATUSES \<longrightarrow> late_over v' oid)"
    using v late_status [of v] by (auto simp: fill_shown_def late_filled_def late_row_def late_over_def)
qed (auto simp: late_broker_def late_filled_def)

text \<open>
  The cancel of the remainder of a partly filled entry is not read back: at a broker within the laws
  that fills ten more units before the cancel takes effect, the entry is booked at 20 and as certain, while
  30 are held. The loop that cancels an order with no fill does read the book again.
\<close>
theorem remainder_fill_is_lost:
  "let (res, _, v) = route late_broker \<lparr>ep_market = ALLOW_MARKET, ep_validity = []\<rparr> (\<lambda>_. None) demo_breaker 0 (\<lambda>_. (0, 0))
                        ex_route ex_entry None 50 ([], 0) in
   res = Opened \<lparr>op_quantity = 20, op_price = 100, op_order_id = Some ''B1'', op_partial = True, op_uncertain = False, op_stop = StopNotSent\<rparr>
   \<and> late_filled v ''B1'' = 30"
  by code_simp


text \<open>
  The router does not look at the status of the broker's answer to the protective stop: a broker that
  answers every stop with "REJECTED" leaves the same record as one that takes them, a stop that is standing.
\<close>
theorem stop_answer_not_read:
  "protective_stop (ops\<lparr>vo_place := (\<lambda>r v. case vo_place ops r v of (Placed oid st, v') \<Rightarrow> (Placed oid ''REJECTED'', v') | x \<Rightarrow> x)\<rparr>)
     ticks cfg product sg q v
   = protective_stop ops ticks cfg product sg q v"
  by (auto simp: protective_stop_def stop_order_params_def Let_def split: option.splits prod.splits place_answer.splits)

text \<open>
  The venue of an entry is of the kind of its mode: a PAPER entry is never sent to a real broker,
  whatever broker is handed in, and a LIVE entry never to a practice venue; with no real broker a LIVE
  entry is not sent at all.
\<close>
theorem venue_fits_the_mode:
  assumes "vo_paper paper_venue" and "venue_for paper_mode broker paper_venue = Some ops"
  shows "vo_paper ops = paper_mode \<and> (\<not> paper_mode \<longrightarrow> broker = Some ops)"
  using assms by (auto simp: venue_for_def split: if_splits option.splits)

theorem venue_fits_the_mode_witness:
  "venue_for True (Some late_broker) (late_broker\<lparr>vo_paper := True\<rparr>) = Some (late_broker\<lparr>vo_paper := True\<rparr>)
   \<and> vo_paper (late_broker\<lparr>vo_paper := True\<rparr>)"
proof -
  have v: "venue_for True (Some late_broker) (late_broker\<lparr>vo_paper := True\<rparr>) = Some (late_broker\<lparr>vo_paper := True\<rparr>)"
    by (simp add: venue_for_def late_broker_def)
  then show ?thesis using venue_fits_the_mode [OF _ v] by simp
qed

end
