(* ===== verification/PaperVenue.thy ===== *)
theory PaperVenue
  imports Router
begin

text \<open>
  The practice venue of \<open>app/execution/paper_adapter.py\<close>: the paper exchange that fills an order at the
  price it holds, with the fill rule \<open>paper_fill\<close> of \<open>app/paper/fno_ticket.py\<close>, the slippage of
  \<open>app/execution/paper_broker.py\<close> and the marketable limit of \<open>app/execution/marketable_limit.py\<close>. What
  the adapter is built with is a record: the slippage, the hooks (liquidity, price lookup, durable book)
  and the cost of a fill as functions. The reads a practice venue does not serve are left out, and the
  times and sentences.
\<close>

section \<open>The exchange and its settings\<close>

record paper_cfg =
  pc_slippage_pct :: pyfloat
  pc_slippage_model :: "(pyfloat \<Rightarrow> order_side \<Rightarrow> pyfloat) option"
  pc_keep_resting :: bool
  pc_liquidity :: "(order_request \<Rightarrow> pyfloat) option"
  pc_price_lookup :: "string \<Rightarrow> string \<Rightarrow> pyfloat option"
  pc_book :: "(string \<Rightarrow> book_row option) option"
  pc_venue :: "string option"
  pc_market_ok :: bool
  pc_stop_market :: bool
  pc_stop_market_on_options :: bool
  pc_cost :: "order_side \<Rightarrow> pyfloat \<Rightarrow> pyfloat \<Rightarrow> string \<Rightarrow> pyfloat"

record paper_trade =
  pt_id :: string
  pt_order :: string
  pt_symbol :: string
  pt_side :: order_side
  pt_quantity :: pyfloat
  pt_price :: pyfloat

record paper_exchange =
  px_marks :: "(string \<times> string, pyfloat) dict"
  px_orders :: "(string, book_row) dict"
  px_requests :: "(string, order_request) dict"
  px_charges :: "(string, pyfloat) dict"
  px_by_ref :: "(string, string) dict"
  px_trades :: "paper_trade list"
  px_resting :: "string list"
  px_next_order :: nat
  px_next_trade :: nat

definition new_paper :: paper_exchange where
  "new_paper = \<lparr>px_marks = [], px_orders = [], px_requests = [], px_charges = [], px_by_ref = [], px_trades = [], px_resting = [],
     px_next_order = 1, px_next_trade = 1\<rparr>"

section \<open>Prices\<close>

definition paper_mark :: "string \<Rightarrow> string \<Rightarrow> pyfloat \<Rightarrow> paper_exchange \<Rightarrow> paper_exchange" where
  "paper_mark symbol exchange price px = px\<lparr>px_marks :=
     dict_set ('''', py_upper symbol) (fl price) (dict_set (py_upper exchange, py_upper symbol) (fl price) (px_marks px))\<rparr>"

definition paper_price :: "paper_cfg \<Rightarrow> string \<Rightarrow> string \<Rightarrow> paper_exchange \<Rightarrow> pyfloat option" where
  "paper_price cfg symbol exchange px =
     (case dict_get (px_marks px) (py_upper exchange, py_upper symbol) of
        Some p \<Rightarrow> Some p
      | None \<Rightarrow> (case dict_get (px_marks px) ('''', py_upper symbol) of
            Some p \<Rightarrow> Some p
          | None \<Rightarrow> (case pc_price_lookup cfg symbol exchange of
                Some x \<Rightarrow> if 0 < fl x then Some (fl x) else None
              | None \<Rightarrow> None)))"

definition slip :: "paper_cfg \<Rightarrow> pyfloat \<Rightarrow> order_side \<Rightarrow> pyfloat" where
  "slip cfg price side =
     (case pc_slippage_model cfg of
        Some f \<Rightarrow> f price side
      | None \<Rightarrow> (let s = fdiv (fmul price (pc_slippage_pct cfg)) 100 in if side = BUY then fadd price s else fsub price s))"

text \<open>Where an order fills now at the price \<open>ltp\<close>, or \<open>None\<close>.\<close>

definition paper_fill :: "string \<Rightarrow> order_side \<Rightarrow> pyfloat \<Rightarrow> pyfloat \<Rightarrow> pyfloat \<Rightarrow> pyfloat option" where
  "paper_fill kind side ltp price trigger =
     (if kind = ''MARKET'' then Some ltp
      else if kind = ''LIMIT'' then (if (if side = BUY then ltp \<le> price else price \<le> ltp) then Some ltp else None)
      else if \<not> (if side = BUY then trigger \<le> ltp else ltp \<le> trigger) then None
      else if kind = ''SL'' \<and> (if side = BUY then price < ltp else ltp < price) then None
      else Some ltp)"

definition order_kind :: "order_request \<Rightarrow> string" where
  "order_kind r = py_upper (if or_type r = [] then ''MARKET'' else or_type r)"

definition fill_price :: "paper_cfg \<Rightarrow> order_request \<Rightarrow> pyfloat \<Rightarrow> pyfloat option" where
  "fill_price cfg r ltp =
     (let kind = order_kind r in
      if kind \<in> {''LIMIT'', ''SL''} \<and> or_price r = None then None
      else if kind \<in> {''SL'', ''SL-M''} \<and> or_trigger r = None then None
      else
        (let price = (case or_price r of Some p \<Rightarrow> p | None \<Rightarrow> 0); trigger = (case or_trigger r of Some t \<Rightarrow> t | None \<Rightarrow> 0) in
         case paper_fill (if kind \<in> {''MARKET'', ''LIMIT'', ''SL'', ''SL-M''} then kind else ''MARKET'') (or_side r) ltp price trigger of
           None \<Rightarrow> None
         | Some at_price \<Rightarrow>
             (let fill = slip cfg at_price (or_side r) in
              Some (if kind \<in> {''LIMIT'', ''SL''} then (if or_side r = BUY then min fill price else max fill price) else fill))))"

section \<open>Orders\<close>

definition status_row :: "string \<Rightarrow> order_request \<Rightarrow> string \<Rightarrow> pyfloat \<Rightarrow> pyfloat option \<Rightarrow> book_row" where
  "status_row oid r st quantity average =
     \<lparr>bk_id = oid, bk_symbol = or_symbol r, bk_side = or_side r, bk_quantity = fl (or_quantity r), bk_filled = quantity, bk_type = or_type r,
      bk_status = st, bk_price = or_price r, bk_average = average, bk_tag = or_tag r, bk_product = Some (or_product r), bk_exchange = Some (or_exchange r)\<rparr>"

definition set_order :: "string \<Rightarrow> book_row \<Rightarrow> paper_exchange \<Rightarrow> paper_exchange" where
  "set_order oid row px = px\<lparr>px_orders := dict_set oid row (px_orders px)\<rparr>"

definition record_fill :: "paper_cfg \<Rightarrow> string \<Rightarrow> order_request \<Rightarrow> pyfloat \<Rightarrow> pyfloat \<Rightarrow> paper_exchange \<Rightarrow> paper_exchange" where
  "record_fill cfg oid r price quantity px =
     px\<lparr>px_trades := px_trades px @ [\<lparr>pt_id = ''PAPER-T'' @ show_nat (px_next_trade px), pt_order = oid, pt_symbol = or_symbol r, pt_side = or_side r,
          pt_quantity = quantity, pt_price = price\<rparr>],
        px_next_trade := px_next_trade px + 1,
        px_charges := dict_set oid (py_round2 (fadd (case dict_get (px_charges px) oid of Some c \<Rightarrow> c | None \<Rightarrow> 0)
          (pc_cost cfg (or_side r) price quantity (or_symbol r)))) (px_charges px)\<rparr>"

definition fillable :: "paper_cfg \<Rightarrow> order_request \<Rightarrow> pyfloat" where
  "fillable cfg r = (case pc_liquidity cfg of None \<Rightarrow> fl (or_quantity r) | Some f \<Rightarrow> max 0 (min (fl (or_quantity r)) (fl (f r))))"

definition fill_now :: "paper_cfg \<Rightarrow> string \<Rightarrow> order_request \<Rightarrow> pyfloat \<Rightarrow> paper_exchange \<Rightarrow> place_answer \<times> paper_exchange" where
  "fill_now cfg oid r price px =
     (let q = fillable cfg r in
      if q \<le> 0 then (Placed oid ''OPEN'', set_order oid (status_row oid r ''OPEN'' 0 None) px)
      else
        (let st = (if fl (or_quantity r) \<le> q then ''COMPLETE'' else ''OPEN'') in
         (Placed oid st, set_order oid (status_row oid r st q (Some price)) (record_fill cfg oid r price q px))))"

definition can_rest :: "order_request \<Rightarrow> bool" where
  "can_rest r =
     (if order_kind r = ''LIMIT'' then or_price r \<noteq> None
      else if order_kind r = ''SL'' then or_price r \<noteq> None \<and> or_trigger r \<noteq> None
      else order_kind r = ''SL-M'' \<and> or_trigger r \<noteq> None)"

definition find_by_client_id :: "paper_cfg \<Rightarrow> string \<Rightarrow> paper_exchange \<Rightarrow> book_row option \<times> paper_exchange" where
  "find_by_client_id cfg ref px =
     (case dict_get (px_by_ref px) ref of
        Some oid \<Rightarrow> (dict_get (px_orders px) oid, px)
      | None \<Rightarrow> (case pc_book cfg of
            None \<Rightarrow> (None, px)
          | Some book \<Rightarrow> (case book ref of
                None \<Rightarrow> (None, px)
              | Some row \<Rightarrow> (Some row, (set_order (bk_id row) row px)\<lparr>px_by_ref := dict_set ref (bk_id row) (px_by_ref px)\<rparr>))))"

text \<open>A market order at a venue that takes none goes as a marketable limit; \<open>None\<close>: the raise for a price that is not positive.\<close>

definition to_venue_order :: "paper_cfg \<Rightarrow> order_request \<Rightarrow> pyfloat \<Rightarrow> order_request option" where
  "to_venue_order cfg r ltp =
     (if order_kind r = ''MARKET'' \<and> \<not> pc_market_ok cfg then
        (let pct = (case or_protection_pct r of Some p \<Rightarrow> if 0 < p then p else flit 1 2 | None \<Rightarrow> flit 1 2) in
         map_option (\<lambda>p. r\<lparr>or_type := ''LIMIT'', or_price := Some p\<rparr>) (marketable_limit_price ltp (or_side r) pct))
      else Some r)"

definition paper_id :: "nat \<Rightarrow> string" where
  "paper_id n = ''PAPER-'' @ show_nat n"

lemma paper_id_inj [simp]: "paper_id m = paper_id n \<longleftrightarrow> m = n"
  using show_nat_inj by (auto simp: paper_id_def)

text \<open>The id, the reference and the request (as it goes to the venue) of a new order are kept before its answer is known.\<close>

definition refs_with :: "order_request \<Rightarrow> string \<Rightarrow> (string, string) dict \<Rightarrow> (string, string) dict" where
  "refs_with r oid refs = (if truthy (or_client_ref r) then dict_set (the (or_client_ref r)) oid refs else refs)"

definition started :: "order_request \<Rightarrow> (string, string) dict \<Rightarrow> paper_exchange \<Rightarrow> paper_exchange" where
  "started r refs px = px\<lparr>px_next_order := px_next_order px + 1, px_by_ref := refs, px_requests := dict_set (paper_id (px_next_order px)) r (px_requests px)\<rparr>"

definition new_order :: "paper_cfg \<Rightarrow> order_request \<Rightarrow> paper_exchange \<Rightarrow> place_answer \<times> paper_exchange" where
  "new_order cfg r px =
     (let oid = paper_id (px_next_order px); refs = refs_with r oid (px_by_ref px);
          rejected = (\<lambda>r. (Placed oid ''REJECTED'', set_order oid (status_row oid r ''REJECTED'' 0 None) (started r refs px))) in
      if or_quantity r \<le> 0 then rejected r
      else case paper_price cfg (or_symbol r) (or_exchange r) px of
        None \<Rightarrow> rejected r
      | Some ltp \<Rightarrow>
          (case to_venue_order cfg r ltp of
             None \<Rightarrow> (PlaceRaised OtherError, started r refs px)
           | Some r' \<Rightarrow>
               (case fill_price cfg r' ltp of
                  Some price \<Rightarrow> fill_now cfg oid r' price (started r' refs px)
                | None \<Rightarrow>
                    (if pc_keep_resting cfg \<and> can_rest r' then
                       (Placed oid ''OPEN'', (set_order oid (status_row oid r' ''OPEN'' 0 None) (started r' refs px))\<lparr>px_resting := px_resting px @ [oid]\<rparr>)
                     else rejected r'))))"

definition place_order :: "paper_cfg \<Rightarrow> order_request \<Rightarrow> paper_exchange \<Rightarrow> place_answer \<times> paper_exchange" where
  "place_order cfg r px =
     (case or_client_ref r of
        None \<Rightarrow> new_order cfg r px
      | Some ref \<Rightarrow>
          (if ref = [] then new_order cfg r px
           else
             (let px1 = snd (find_by_client_id cfg ref px) in
              case dict_get (px_by_ref px1) ref of
                None \<Rightarrow> new_order cfg r px1
              | Some oid \<Rightarrow> (case dict_get (px_orders px1) oid of
                    Some first \<Rightarrow> (Placed (bk_id first) (bk_status first), px1)
                  | None \<Rightarrow> (PlaceRaised OtherError, px1)))))"

text \<open>A new price: every resting order of the symbol it reaches fills now. A missing request (a \<open>KeyError\<close>) cannot be: see the invariant.\<close>

definition price_reaches :: "paper_cfg \<Rightarrow> string \<Rightarrow> pyfloat \<Rightarrow> string \<Rightarrow> paper_exchange \<Rightarrow> paper_exchange" where
  "price_reaches cfg symbol price oid px =
     (case dict_get (px_requests px) oid of
        None \<Rightarrow> px
      | Some r \<Rightarrow>
          (if py_upper (or_symbol r) \<noteq> py_upper symbol then px
           else case fill_price cfg r (fl price) of
             None \<Rightarrow> px
           | Some f \<Rightarrow> snd (fill_now cfg oid r f (px\<lparr>px_resting := remove1 oid (px_resting px)\<rparr>))))"

definition on_price :: "paper_cfg \<Rightarrow> string \<Rightarrow> pyfloat \<Rightarrow> string \<Rightarrow> paper_exchange \<Rightarrow> paper_exchange" where
  "on_price cfg symbol price exchange px = fold (price_reaches cfg symbol price) (px_resting px) (paper_mark symbol exchange price px)"

definition PAPER_TERMINAL :: "string list" where
  "PAPER_TERMINAL = [''COMPLETE'', ''REJECTED'', ''CANCELLED'']"

datatype modify_answer = NoSuchOrder | AlreadyOver string | Modified string | ModifyRaised

definition modify_order ::
  "string \<Rightarrow> pyfloat option \<Rightarrow> pyfloat option \<Rightarrow> pyfloat option \<Rightarrow> string option \<Rightarrow> paper_exchange \<Rightarrow> modify_answer \<times> paper_exchange" where
  "modify_order oid quantity price trigger kind px =
     (case dict_get (px_orders px) oid of
        None \<Rightarrow> (NoSuchOrder, px)
      | Some current \<Rightarrow>
          (if bk_status current \<in> set PAPER_TERMINAL then (AlreadyOver (bk_status current), px)
           else case dict_get (px_requests px) oid of
             None \<Rightarrow> (ModifyRaised, px)
           | Some r0 \<Rightarrow>
               (let r = r0\<lparr>or_quantity := (case quantity of Some q \<Rightarrow> q | None \<Rightarrow> or_quantity r0),
                           or_price := (case price of Some p \<Rightarrow> Some p | None \<Rightarrow> or_price r0),
                           or_trigger := (case trigger of Some t \<Rightarrow> Some t | None \<Rightarrow> or_trigger r0),
                           or_type := (case kind of Some k \<Rightarrow> k | None \<Rightarrow> or_type r0)\<rparr> in
                (Modified (bk_status current),
                 set_order oid (current\<lparr>bk_quantity := fl (or_quantity r), bk_price := or_price r, bk_type := or_type r\<rparr>)
                   (px\<lparr>px_requests := dict_set oid r (px_requests px)\<rparr>)))))"

definition cancel_order :: "string \<Rightarrow> paper_exchange \<Rightarrow> string \<times> paper_exchange" where
  "cancel_order oid px =
     (case dict_get (px_orders px) oid of
        None \<Rightarrow> (''REJECTED'', px)
      | Some current \<Rightarrow>
          (if bk_status current \<in> set PAPER_TERMINAL then (bk_status current, px)
           else (''CANCELLED'', (set_order oid (current\<lparr>bk_status := ''CANCELLED''\<rparr>) px)\<lparr>px_resting := remove1 oid (px_resting px)\<rparr>)))"

definition order_book :: "paper_exchange \<Rightarrow> book_row list" where
  "order_book px = map snd (px_orders px)"

text \<open>Net positions: quantity and cost by symbol, exchange and product, in the order of the first trade; flat ones are left out.\<close>

record paper_position =
  pp_key :: "string \<times> string \<times> string"
  pp_quantity :: pyfloat
  pp_average :: pyfloat
  pp_ltp :: pyfloat
  pp_pnl :: pyfloat

definition net_trade :: "paper_exchange \<Rightarrow> paper_trade \<Rightarrow> (string \<times> string \<times> string, pyfloat \<times> pyfloat) dict
    \<Rightarrow> (string \<times> string \<times> string, pyfloat \<times> pyfloat) dict" where
  "net_trade px t net =
     (case dict_get (px_requests px) (pt_order t) of
        None \<Rightarrow> net
      | Some r \<Rightarrow>
          (let key = (pt_symbol t, or_exchange r, or_product r);
               (q, cost) = (case dict_get net key of Some x \<Rightarrow> x | None \<Rightarrow> (0, 0));
               signed = (if pt_side t = BUY then pt_quantity t else - pt_quantity t) in
           dict_set key (fadd q signed, fadd cost (fmul signed (pt_price t))) net))"

definition get_positions :: "paper_exchange \<Rightarrow> paper_position list" where
  "get_positions px =
     concat (map (\<lambda>((symbol, exchange, product), (q, cost)).
       if \<bar>q\<bar> < EPS9 then []
       else (let average = fdiv cost q;
                 ltp = (case dict_get (px_marks px) (py_upper exchange, py_upper symbol) of Some p \<Rightarrow> p | None \<Rightarrow> average) in
             [\<lparr>pp_key = (symbol, exchange, product), pp_quantity = q, pp_average = py_round2 average, pp_ltp = ltp,
               pp_pnl = py_round2 (fmul (fsub ltp average) q)\<rparr>])) (fold (net_trade px) (px_trades px) []))"

text \<open>The practice venue as the venue of the router.\<close>

definition paper_ops :: "paper_cfg \<Rightarrow> paper_exchange venue_ops" where
  "paper_ops cfg = \<lparr>vo_name = ''paper'', vo_venue = pc_venue cfg, vo_paper = True, vo_market_ok = pc_market_ok cfg, vo_stop_market = pc_stop_market cfg,
     vo_stop_market_on_options = pc_stop_market_on_options cfg, vo_records_circuit = False, vo_place = place_order cfg,
     vo_book = (\<lambda>px. (Some (order_book px), px)), vo_cancel = (\<lambda>oid px. (True, snd (cancel_order oid px)))\<rparr>"

section \<open>What the exchange keeps\<close>

definition paper_filled :: "paper_exchange \<Rightarrow> string \<Rightarrow> pyfloat" where
  "paper_filled px oid = (case dict_get (px_orders px) oid of None \<Rightarrow> 0 | Some row \<Rightarrow> bk_filled row)"

definition paper_over :: "paper_exchange \<Rightarrow> string \<Rightarrow> bool" where
  "paper_over px oid = (case dict_get (px_orders px) oid of None \<Rightarrow> True | Some row \<Rightarrow> bk_status row \<noteq> ''OPEN'')"

definition row_ok :: "book_row \<Rightarrow> bool" where
  "row_ok row = (is64 (bk_filled row) \<and> 0 \<le> bk_filled row \<and> (0 < bk_filled row \<longrightarrow> (\<exists>p. bk_average row = Some p \<and> 0 < p))
     \<and> bk_status row \<in> {''OPEN'', ''COMPLETE'', ''REJECTED'', ''CANCELLED''}
     \<and> (bk_status row = ''REJECTED'' \<longrightarrow> bk_filled row = 0) \<and> (bk_status row = ''COMPLETE'' \<longrightarrow> 0 < bk_filled row))"

definition trades_of :: "paper_exchange \<Rightarrow> string \<Rightarrow> pyfloat list" where
  "trades_of px oid = map pt_quantity (filter (\<lambda>t. pt_order t = oid) (px_trades px))"

text \<open>
  Every mark is positive; the orders have their own different ids and a request each; a reference leads to
  an order; a resting order waits with nothing filled; what an order has filled is its one trade.
\<close>

definition paper_core :: "paper_exchange \<Rightarrow> bool" where
  "paper_core px =
     ((\<forall>k p. dict_get (px_marks px) k = Some p \<longrightarrow> is64 p \<and> 0 < p)
      \<and> distinct (dict_keys (px_orders px))
      \<and> (\<forall>oid row. dict_get (px_orders px) oid = Some row \<longrightarrow>
            bk_id row = oid \<and> row_ok row \<and> dict_get (px_requests px) oid \<noteq> None \<and> oid \<in> paper_id ` {..<px_next_order px})
      \<and> distinct (px_resting px)
      \<and> (\<forall>oid \<in> set (px_resting px). \<exists>row. dict_get (px_orders px) oid = Some row \<and> bk_status row = ''OPEN'' \<and> bk_filled row = 0)
      \<and> (\<forall>oid. trades_of px oid = (if paper_filled px oid = 0 then [] else [paper_filled px oid])))"

definition refs_ok :: "paper_exchange \<Rightarrow> bool" where
  "refs_ok px = (\<forall>ref oid. dict_get (px_by_ref px) ref = Some oid \<longrightarrow> dict_get (px_orders px) oid \<noteq> None)"

definition paper_inv :: "paper_exchange \<Rightarrow> bool" where
  "paper_inv px = (paper_core px \<and> refs_ok px)"

definition paper_cfg_ok :: "paper_cfg \<Rightarrow> bool" where
  "paper_cfg_ok cfg = (pc_book cfg = None \<and> (\<forall>p side. is64 p \<longrightarrow> 0 < p \<longrightarrow> 0 < slip cfg p side))"

lemma is64_0 [simp]: "is64 0"
  by (simp add: is64_def)

lemma new_paper_inv: "paper_inv new_paper"
  by (simp add: paper_inv_def paper_core_def refs_ok_def new_paper_def trades_of_def paper_filled_def dict_keys_def)

lemma mark_inv: "paper_inv px \<Longrightarrow> 0 < fl price \<Longrightarrow> paper_inv (paper_mark symbol exchange price px)"
  by (auto simp: paper_inv_def paper_core_def refs_ok_def paper_mark_def trades_of_def paper_filled_def)

lemma price_positive: "paper_core px \<Longrightarrow> paper_price cfg symbol exchange px = Some p \<Longrightarrow> is64 p \<and> 0 < p"
  by (auto simp: paper_price_def paper_core_def split: option.splits if_splits)

lemma paper_fill_at: "paper_fill kind side ltp price trigger = Some x \<Longrightarrow> x = ltp"
  by (auto simp: paper_fill_def split: if_splits)

lemma fill_positive:
  assumes "paper_cfg_ok cfg" and "fill_price cfg r ltp = Some f" and "is64 ltp" and "0 < ltp"
  shows "0 < f"
proof -
  have s: "0 < slip cfg ltp (or_side r)" using assms by (simp add: paper_cfg_ok_def)
  show ?thesis using assms(2,4) s by (auto simp: fill_price_def paper_fill_def Let_def min_def max_def split: if_splits option.splits)
qed

lemma fillable_float: "is64 (fillable cfg r)"
  by (auto simp: fillable_def max_def min_def split: option.splits)

lemma trades_of_record: "trades_of (record_fill cfg oid r p q px) x = trades_of px x @ (if x = oid then [q] else [])"
  by (simp add: trades_of_def record_fill_def)

lemma set_order_simps [simp]:
  "px_marks (set_order oid row px) = px_marks px" "px_requests (set_order oid row px) = px_requests px"
  "px_by_ref (set_order oid row px) = px_by_ref px" "px_trades (set_order oid row px) = px_trades px"
  "px_resting (set_order oid row px) = px_resting px" "px_next_order (set_order oid row px) = px_next_order px"
  "px_orders (set_order oid row px) = dict_set oid row (px_orders px)"
  by (simp_all add: set_order_def)

lemma record_fill_simps [simp]:
  "px_marks (record_fill cfg oid r p q px) = px_marks px" "px_requests (record_fill cfg oid r p q px) = px_requests px"
  "px_by_ref (record_fill cfg oid r p q px) = px_by_ref px" "px_orders (record_fill cfg oid r p q px) = px_orders px"
  "px_resting (record_fill cfg oid r p q px) = px_resting px" "px_next_order (record_fill cfg oid r p q px) = px_next_order px"
  by (simp_all add: record_fill_def)

text \<open>What a step may do to the orders: give one order a new row, with its one trade when it fills.\<close>

lemma set_order_inv:
  assumes "paper_core px" and "row_ok row" and "bk_id row = oid" and "dict_get (px_requests px) oid \<noteq> None"
    and "oid \<in> paper_id ` {..<px_next_order px}"
    and "oid \<in> set (px_resting px) \<Longrightarrow> bk_status row = ''OPEN'' \<and> bk_filled row = 0" and "bk_filled row = paper_filled px oid"
  shows "paper_core (set_order oid row px)"
  using assms unfolding paper_core_def
  by (auto simp: trades_of_def paper_filled_def)

lemma fill_order_inv:
  assumes "paper_core px" and "row_ok row" and "bk_id row = oid" and "dict_get (px_requests px) oid \<noteq> None"
    and "oid \<in> paper_id ` {..<px_next_order px}"
    and "oid \<notin> set (px_resting px)" and "paper_filled px oid = 0" and "bk_filled row = q" and "q \<noteq> 0"
  shows "paper_core (set_order oid row (record_fill cfg oid r p q px))"
proof -
  have t: "trades_of (set_order oid row (record_fill cfg oid r p q px)) x
      = (if paper_filled (set_order oid row (record_fill cfg oid r p q px)) x = 0 then []
         else [paper_filled (set_order oid row (record_fill cfg oid r p q px)) x])" for x
  proof -
    have "trades_of (set_order oid row (record_fill cfg oid r p q px)) x = trades_of px x @ (if x = oid then [q] else [])"
      using trades_of_record [of cfg oid r p q px x] by (simp add: trades_of_def)
    then show ?thesis using assms(1,7-9) by (auto simp: paper_core_def paper_filled_def)
  qed
  show ?thesis using assms(1-6) t unfolding paper_core_def by auto
qed

lemma fill_now_inv:
  assumes "paper_core px" and "dict_get (px_requests px) oid \<noteq> None" and "oid \<in> paper_id ` {..<px_next_order px}"
    and "oid \<notin> set (px_resting px)" and "paper_filled px oid = 0" and "0 < price"
  shows "paper_core (snd (fill_now cfg oid r price px)) \<and> (\<exists>st. fst (fill_now cfg oid r price px) = Placed oid st \<and> st \<noteq> ''REJECTED'' \<and> st \<noteq> ''CANCELLED'')
    \<and> dict_get (px_orders (snd (fill_now cfg oid r price px))) oid \<noteq> None
    \<and> (\<forall>x. x \<noteq> oid \<longrightarrow> paper_filled (snd (fill_now cfg oid r price px)) x = paper_filled px x)
    \<and> px_by_ref (snd (fill_now cfg oid r price px)) = px_by_ref px \<and> px_next_order (snd (fill_now cfg oid r price px)) = px_next_order px
    \<and> px_resting (snd (fill_now cfg oid r price px)) = px_resting px \<and> px_requests (snd (fill_now cfg oid r price px)) = px_requests px
    \<and> px_marks (snd (fill_now cfg oid r price px)) = px_marks px"
proof (cases "fillable cfg r \<le> 0")
  case True
  have "paper_core (set_order oid (status_row oid r ''OPEN'' 0 None) px)"
    by (rule set_order_inv [OF assms(1)]) (use assms in \<open>auto simp: status_row_def row_ok_def\<close>)
  then show ?thesis using True by (auto simp: fill_now_def Let_def paper_filled_def)
next
  case False
  let ?st = "if fl (or_quantity r) \<le> fillable cfg r then ''COMPLETE'' else ''OPEN''"
  have "paper_core (set_order oid (status_row oid r ?st (fillable cfg r) (Some price)) (record_fill cfg oid r price (fillable cfg r) px))"
    by (rule fill_order_inv [OF assms(1) _ _ assms(2-5)]) (use assms(6) False fillable_float in \<open>auto simp: status_row_def row_ok_def\<close>)
  then show ?thesis using False by (auto simp: fill_now_def Let_def paper_filled_def)
qed

lemma paper_id_fresh: "paper_core px \<Longrightarrow> dict_get (px_orders px) (paper_id (px_next_order px)) = None"
  by (cases "dict_get (px_orders px) (paper_id (px_next_order px))") (fastforce simp: paper_core_def)+

lemma core_step:
  "paper_core px \<Longrightarrow> paper_core (px\<lparr>px_next_order := px_next_order px + 1, px_by_ref := b, px_requests := dict_set oid r (px_requests px)\<rparr>)"
  unfolding paper_core_def
  by (auto simp: trades_of_def paper_filled_def lessThan_Suc)

text \<open>A new order gets its own id, changes no other order and, when refused, holds nothing.\<close>

definition fresh_order :: "paper_exchange \<Rightarrow> (string, string) dict \<Rightarrow> place_answer \<Rightarrow> paper_exchange \<Rightarrow> bool" where
  "fresh_order px refs a px' =
     (let oid = paper_id (px_next_order px) in
      paper_core px' \<and> (\<exists>st. a = Placed oid st \<and> (st = ''REJECTED'' \<longrightarrow> paper_filled px' oid = 0 \<and> paper_over px' oid) \<and> st \<noteq> ''CANCELLED'')
      \<and> dict_get (px_orders px') oid \<noteq> None \<and> (\<forall>x. x \<noteq> oid \<longrightarrow> dict_get (px_orders px') x = dict_get (px_orders px) x) \<and> px_by_ref px' = refs)"

lemma started_simps [simp]:
  "px_marks (started r refs px) = px_marks px" "px_orders (started r refs px) = px_orders px" "px_by_ref (started r refs px) = refs"
  "px_resting (started r refs px) = px_resting px" "px_next_order (started r refs px) = px_next_order px + 1"
  "dict_get (px_requests (started r refs px)) (paper_id (px_next_order px)) = Some r"
  by (simp_all add: started_def)

lemma started_core: "paper_core px \<Longrightarrow> paper_core (started r' refs px)"
  unfolding started_def by (rule core_step)

lemma fresh_idle: "paper_core px \<Longrightarrow> paper_id (px_next_order px) \<notin> set (px_resting px)"
  using paper_id_fresh [of px] by (fastforce simp: paper_core_def)

lemma fresh_row:
  assumes core: "paper_core px" and "st = ''OPEN'' \<or> st = ''REJECTED''"
  shows "fresh_order px refs (Placed (paper_id (px_next_order px)) st)
    (set_order (paper_id (px_next_order px)) (status_row (paper_id (px_next_order px)) r' st 0 None) (started r' refs px))"
proof -
  have "paper_core (set_order (paper_id (px_next_order px)) (status_row (paper_id (px_next_order px)) r' st 0 None) (started r' refs px))"
    by (rule set_order_inv [OF started_core [OF core]])
      (use assms paper_id_fresh [OF core] fresh_idle [OF core] in \<open>auto simp: status_row_def row_ok_def paper_filled_def\<close>)
  then show ?thesis using assms by (auto simp: fresh_order_def Let_def paper_filled_def paper_over_def status_row_def)
qed

lemma fresh_rest:
  assumes core: "paper_core px"
  shows "fresh_order px refs (Placed (paper_id (px_next_order px)) ''OPEN'')
    ((set_order (paper_id (px_next_order px)) (status_row (paper_id (px_next_order px)) r' ''OPEN'' 0 None) (started r' refs px))
      \<lparr>px_resting := px_resting px @ [paper_id (px_next_order px)]\<rparr>)"
  using fresh_row [OF core, of "''OPEN''" refs r'] fresh_idle [OF core]
  by (auto simp: fresh_order_def Let_def paper_core_def trades_of_def paper_filled_def status_row_def)

lemma fresh_fill:
  assumes core: "paper_core px" and "0 < p"
  shows "fresh_order px refs (fst (fill_now cfg (paper_id (px_next_order px)) r' p (started r' refs px)))
    (snd (fill_now cfg (paper_id (px_next_order px)) r' p (started r' refs px)))"
proof -
  have "paper_filled (started r' refs px) (paper_id (px_next_order px)) = 0" using paper_id_fresh [OF core] by (simp add: paper_filled_def)
  note f = fill_now_inv [OF started_core [OF core] _ _ _ this assms(2), of cfg r']
  have "dict_get (px_orders (snd (fill_now cfg oid r' p s))) x = dict_get (px_orders s) x" if "x \<noteq> oid" for x oid s
    using that by (simp add: fill_now_def Let_def)
  then show ?thesis using f fresh_idle [OF core] by (auto simp: fresh_order_def Let_def)
qed

lemma new_order_fresh:
  assumes "paper_cfg_ok cfg" and "paper_core px" and "new_order cfg r px = (a, px')"
  shows "fresh_order px (refs_with r (paper_id (px_next_order px)) (px_by_ref px)) a px'"
proof (cases "or_quantity r \<le> 0")
  case True
  then show ?thesis using assms(3) fresh_row [OF assms(2)] by (auto simp: new_order_def Let_def)
next
  case pos: False
  show ?thesis
  proof (cases "paper_price cfg (or_symbol r) (or_exchange r) px")
    case None
    then show ?thesis using assms(3) fresh_row [OF assms(2)] pos by (auto simp: new_order_def Let_def)
  next
    case (Some ltp)
    note ltp = price_positive [OF assms(2) Some] and sp = Some
    have "to_venue_order cfg r ltp \<noteq> None" using ltp by (auto simp: to_venue_order_def marketable_limit_price_def Let_def)
    then obtain r' where r': "to_venue_order cfg r ltp = Some r'" by blast
    show ?thesis
    proof (cases "fill_price cfg r' ltp")
      case None
      then show ?thesis using assms(3) fresh_row [OF assms(2)] fresh_rest [OF assms(2)] pos sp r'
        by (auto simp: new_order_def Let_def split: if_splits)
    next
      case (Some p)
      have p: "0 < p" by (rule fill_positive [OF assms(1) Some]) (use ltp in simp_all)
      show ?thesis using assms(3) pos sp r' Some
          fresh_fill [OF assms(2) p, of "refs_with r (paper_id (px_next_order px)) (px_by_ref px)" cfg r']
        by (simp add: new_order_def Let_def)
    qed
  qed
qed

section \<open>The practice venue keeps the promises of a venue\<close>

lemma place_order_new:
  assumes "paper_cfg_ok cfg" and "\<forall>ref. or_client_ref r = Some ref \<longrightarrow> dict_get (px_by_ref px) ref = None"
  shows "place_order cfg r px = new_order cfg r px"
  using assms by (auto simp: place_order_def find_by_client_id_def paper_cfg_ok_def split: option.splits)

lemma place_order_again:
  assumes "paper_inv px" and "or_client_ref r = Some ref" and "ref \<noteq> []" and "dict_get (px_by_ref px) ref = Some oid"
  shows "\<exists>row. dict_get (px_orders px) oid = Some row \<and> place_order cfg r px = (Placed oid (bk_status row), px)"
proof -
  have "dict_get (px_orders px) oid \<noteq> None" using assms(1,4) by (simp add: paper_inv_def refs_ok_def del: not_None_eq)
  then obtain row where r: "dict_get (px_orders px) oid = Some row" by blast
  then have "bk_id row = oid" using assms(1) by (simp add: paper_inv_def paper_core_def)
  then show ?thesis using r assms(2-4) by (simp add: place_order_def find_by_client_id_def)
qed

lemma fresh_inv:
  assumes "paper_inv px" and "fresh_order px (refs_with r (paper_id (px_next_order px)) (px_by_ref px)) a px'"
  shows "paper_inv px'"
proof -
  have "dict_get (px_orders px') oid \<noteq> None" if "dict_get (refs_with r (paper_id (px_next_order px)) (px_by_ref px)) ref = Some oid" for ref oid
    using that assms by (cases "oid = paper_id (px_next_order px)")
      (auto simp: refs_with_def fresh_order_def Let_def paper_inv_def refs_ok_def split: if_splits)
  then show ?thesis using assms(2) by (auto simp: paper_inv_def refs_ok_def fresh_order_def Let_def)
qed

text \<open>Either the order is new, or its reference is known and nothing changes.\<close>

lemma place_order_cases:
  assumes "paper_cfg_ok cfg" and "paper_inv px" and "place_order cfg r px = (a, px')"
  shows "fresh_order px (refs_with r (paper_id (px_next_order px)) (px_by_ref px)) a px'
    \<or> (\<exists>ref oid row. or_client_ref r = Some ref \<and> dict_get (px_by_ref px) ref = Some oid \<and> dict_get (px_orders px) oid = Some row
         \<and> a = Placed oid (bk_status row) \<and> px' = px)"
proof (cases "\<exists>ref oid. or_client_ref r = Some ref \<and> ref \<noteq> [] \<and> dict_get (px_by_ref px) ref = Some oid")
  case True
  then obtain ref oid where ro: "or_client_ref r = Some ref" "ref \<noteq> []" "dict_get (px_by_ref px) ref = Some oid" by blast
  then show ?thesis using place_order_again [OF assms(2) ro, of cfg] assms(3) by auto
next
  case False
  then have "place_order cfg r px = new_order cfg r px"
    using assms(1) by (auto simp: place_order_def find_by_client_id_def paper_cfg_ok_def split: option.splits)
  then show ?thesis using new_order_fresh [OF assms(1)] assms(2,3) by (simp add: paper_inv_def)
qed

lemma book_match_order_book: "paper_core px \<Longrightarrow> book_match oid (order_book px) = dict_get (px_orders px) oid"
proof -
  assume c: "paper_core px"
  have "find (\<lambda>r. bk_id r = oid) (map snd d) = map_of d oid" if "\<forall>(k, r) \<in> set d. bk_id r = k" for d :: "(string, book_row) dict"
    using that by (induction d) auto
  moreover have "\<forall>(k, r) \<in> set (px_orders px). bk_id r = k"
    using c by (auto simp: paper_core_def dict_get_def dict_keys_def)
  ultimately show ?thesis by (simp add: book_match_def order_book_def dict_get_def)
qed

lemma cancel_order_spec:
  assumes "paper_inv px"
  shows "paper_inv (snd (cancel_order oid px)) \<and> paper_filled (snd (cancel_order oid px)) = paper_filled px
    \<and> px_by_ref (snd (cancel_order oid px)) = px_by_ref px \<and> paper_over (snd (cancel_order oid px)) oid
    \<and> (\<forall>x. dict_get (px_orders (snd (cancel_order oid px))) x = None \<longleftrightarrow> dict_get (px_orders px) x = None)"
proof (cases "dict_get (px_orders px) oid")
  case None
  then show ?thesis using assms by (simp add: cancel_order_def paper_over_def)
next
  case (Some row)
  have ok: "bk_id row = oid" "row_ok row" "dict_get (px_requests px) oid \<noteq> None" "oid \<in> paper_id ` {..<px_next_order px}"
    using assms Some by (auto simp: paper_inv_def paper_core_def)
  show ?thesis
  proof (cases "bk_status row \<in> set PAPER_TERMINAL")
    case True
    then show ?thesis using assms Some by (auto simp: cancel_order_def paper_over_def PAPER_TERMINAL_def)
  next
    case False
    let ?row = "row\<lparr>bk_status := ''CANCELLED''\<rparr>" and ?idle = "px\<lparr>px_resting := remove1 oid (px_resting px)\<rparr>"
    have idle: "paper_core ?idle" "oid \<notin> set (px_resting ?idle)"
      using assms by (auto simp: paper_inv_def paper_core_def trades_of_def paper_filled_def dest: notin_set_remove1 set_remove1_subset [THEN subsetD])
    have "paper_core (set_order oid ?row ?idle)"
      by (rule set_order_inv [OF idle(1)]) (use ok Some idle(2) in \<open>auto simp: row_ok_def paper_filled_def\<close>)
    moreover have "snd (cancel_order oid px) = set_order oid ?row ?idle" using Some False by (simp add: cancel_order_def set_order_def)
    ultimately show ?thesis using assms Some by (auto simp: paper_inv_def refs_ok_def paper_filled_def paper_over_def fun_eq_iff)
  qed
qed

interpretation paper: answering_venue "paper_ops cfg" "\<lambda>px. paper_cfg_ok cfg \<and> paper_inv px" paper_filled paper_over
    "\<lambda>px ref. dict_get (px_by_ref px) ref \<noteq> None" "\<lambda>px oid. dict_get (px_orders px) oid \<noteq> None" for cfg
proof (unfold_locales, goal_cases)
  case (1 v r a v')
  then show ?case using place_order_cases [of cfg v r a v'] fresh_inv by (auto simp: paper_ops_def)
next
  case (2 v b v')
  then show ?case by (auto simp: paper_ops_def)
next
  case (3 v oid c v')
  then show ?case using cancel_order_spec [of v oid] by (auto simp: paper_ops_def)
next
  case (4 v b v' oid)
  then show ?case by (auto simp: paper_ops_def)
next
  case (5 v oid' c v' oid)
  then show ?case using cancel_order_spec [of v oid'] by (auto simp: paper_ops_def)
next
  case (6 v r oid st v')
  then show ?case using place_order_cases [of cfg v r "Placed oid st" v'] by (auto simp: paper_ops_def fresh_order_def Let_def)
next
  case (7 v oid)
  then show ?case by (auto simp: paper_inv_def paper_core_def paper_filled_def row_ok_def split: option.splits)
next
  case (8 v book v' oid row)
  then have "dict_get (px_orders v) oid = Some row" "v' = v" using book_match_order_book [of v oid] by (auto simp: paper_ops_def paper_inv_def)
  moreover from this have "row_ok row" using 8 by (auto simp: paper_inv_def paper_core_def)
  moreover have "py_upper ''OPEN'' \<notin> set REJECTED_STATUSES \<union> set FILLED_STATUSES" by code_simp
  ultimately show ?case by (auto simp: paper_filled_def paper_over_def row_ok_def fill_shown_def)
next
  case (9 v b v')
  then show ?case by (auto simp: paper_ops_def)
next
  case (10 v oid c v')
  then show ?case using cancel_order_spec [of v oid] by (auto simp: paper_ops_def)
next
  case (11 v oid v')
  then show ?case using cancel_order_spec [of v oid] by (auto simp: paper_ops_def)
next
  case (12 v r e v')
  then show ?case using place_order_cases [of cfg v r "PlaceRaised e" v'] by (auto simp: paper_ops_def fresh_order_def Let_def)
next
  case (13 v r oid st v')
  then show ?case using place_order_cases [of cfg v r "Placed oid st" v'] paper_id_fresh [of v]
    by (auto simp: paper_ops_def fresh_order_def Let_def paper_filled_def paper_inv_def)
next
  case (14 v r a v' ref)
  then show ?case using place_order_cases [of cfg v r a v'] by (auto simp: paper_ops_def fresh_order_def Let_def refs_with_def truthy_def split: if_splits)
next
  case (15 v r a v')
  then show ?case using place_order_cases [of cfg v r a v'] by (auto simp: paper_ops_def fresh_order_def Let_def)
next
  case (16 v)
  then show ?case by (auto simp: paper_ops_def)
next
  case (17 v oid)
  then show ?case using cancel_order_spec [of v oid] by (simp add: paper_ops_def del: not_None_eq)
next
  case (18 v oid book v')
  then obtain row where r: "dict_get (px_orders v) oid = Some row" "book_match oid book = Some row"
    using book_match_order_book [of v oid] by (auto simp: paper_ops_def paper_inv_def)
  moreover from this have "row_ok row" using 18 by (auto simp: paper_inv_def paper_core_def)
  moreover have "py_upper ''CANCELLED'' \<in> set REJECTED_STATUSES" "py_upper ''REJECTED'' \<in> set REJECTED_STATUSES" by code_simp+
  ultimately show ?case by (auto simp: paper_filled_def paper_over_def row_ok_def ended_def)
qed

text \<open>A new price and a change of an order keep the exchange sound as well.\<close>

lemma price_reaches_inv:
  assumes "paper_cfg_ok cfg" and "paper_inv px" and "oid \<in> set (px_resting px)" and "0 < fl price"
  shows "paper_inv (price_reaches cfg symbol price oid px) \<and> (\<forall>x \<in> set (px_resting px). x \<noteq> oid \<longrightarrow> x \<in> set (px_resting (price_reaches cfg symbol price oid px)))"
proof -
  from assms(2,3) obtain row where row: "dict_get (px_orders px) oid = Some row" "bk_filled row = 0"
    by (auto simp: paper_inv_def paper_core_def)
  have "dict_get (px_requests px) oid \<noteq> None \<and> oid \<in> paper_id ` {..<px_next_order px}"
    using row(1) assms(2) by (simp add: paper_inv_def paper_core_def del: not_None_eq)
  then obtain r where r: "dict_get (px_requests px) oid = Some r" "oid \<in> paper_id ` {..<px_next_order px}" by blast
  show ?thesis
  proof (cases "py_upper (or_symbol r) = py_upper symbol \<and> fill_price cfg r (fl price) \<noteq> None")
    case False
    then show ?thesis using assms(2) r by (auto simp: price_reaches_def)
  next
    case True
    then obtain f where f: "fill_price cfg r (fl price) = Some f" by blast
    let ?idle = "px\<lparr>px_resting := remove1 oid (px_resting px)\<rparr>"
    have idle: "paper_core ?idle" "oid \<notin> set (px_resting ?idle)" "paper_filled ?idle oid = 0"
      using assms(2) row by (auto simp: paper_inv_def paper_core_def trades_of_def paper_filled_def dest: notin_set_remove1 set_remove1_subset [THEN subsetD])
    have p: "0 < f" by (rule fill_positive [OF assms(1) f]) (use assms(4) in simp_all)
    note n = fill_now_inv [OF idle(1) _ _ idle(2,3) p, of cfg r]
    have e: "price_reaches cfg symbol price oid px = snd (fill_now cfg oid r f ?idle)" using True f r by (simp add: price_reaches_def)
    have "dict_get (px_orders (snd (fill_now cfg oid r f ?idle))) x = dict_get (px_orders px) x" if "x \<noteq> oid" for x
      using that by (simp add: fill_now_def Let_def)
    moreover have "dict_get (px_orders (snd (fill_now cfg oid r f ?idle))) oid \<noteq> None" by (simp add: fill_now_def Let_def set_order_def)
    ultimately have all: "dict_get (px_orders (snd (fill_now cfg oid r f ?idle))) x \<noteq> None" if "dict_get (px_orders px) x \<noteq> None" for x
      using that by (cases "x = oid") (simp_all del: not_None_eq)
    have by_ref: "px_by_ref (snd (fill_now cfg oid r f ?idle)) = px_by_ref px"
      by (simp add: fill_now_def Let_def set_order_def record_fill_def)
    have "refs_ok px" using assms(2) by (simp add: paper_inv_def)
    then have "refs_ok (snd (fill_now cfg oid r f ?idle))"
      unfolding refs_ok_def by_ref using all by blast
    then show ?thesis using n r e by (auto simp: paper_inv_def)
  qed
qed

lemma fold_price_inv:
  "paper_cfg_ok cfg \<Longrightarrow> paper_inv px \<Longrightarrow> distinct ids \<Longrightarrow> set ids \<subseteq> set (px_resting px) \<Longrightarrow> 0 < fl price \<Longrightarrow>
     paper_inv (fold (price_reaches cfg symbol price) ids px)"
proof (induction ids arbitrary: px)
  case (Cons oid ids)
  have o: "oid \<in> set (px_resting px)" using Cons.prems by simp
  note p = price_reaches_inv [OF Cons.prems(1,2) o Cons.prems(5), of symbol]
  then have "set ids \<subseteq> set (px_resting (price_reaches cfg symbol price oid px))" using Cons.prems(3,4) by auto
  then show ?case using Cons.IH [OF Cons.prems(1)] p Cons.prems by simp
qed simp

lemma on_price_inv:
  assumes "paper_cfg_ok cfg" and "paper_inv px" and "0 < fl price"
  shows "paper_inv (on_price cfg symbol price exchange px)"
proof -
  let ?m = "paper_mark symbol exchange price px"
  have m: "paper_inv ?m" by (rule mark_inv [OF assms(2,3)])
  have "distinct (px_resting ?m)" using m by (simp add: paper_inv_def paper_core_def)
  moreover have "px_resting ?m = px_resting px" by (simp add: paper_mark_def)
  ultimately show ?thesis using fold_price_inv [OF assms(1) m _ _ assms(3), of "px_resting ?m" symbol]
    by (simp add: on_price_def)
qed

lemma modify_order_inv:
  assumes "paper_inv px"
  shows "paper_inv (snd (modify_order oid q p t k px))"
proof (cases "dict_get (px_orders px) oid")
  case None
  then show ?thesis using assms by (simp add: modify_order_def)
next
  case (Some row)
  note so = Some
  have ok: "bk_id row = oid" "row_ok row" "dict_get (px_requests px) oid \<noteq> None" "oid \<in> paper_id ` {..<px_next_order px}"
      "oid \<in> set (px_resting px) \<longrightarrow> bk_status row = ''OPEN'' \<and> bk_filled row = 0"
    using assms Some by (auto simp: paper_inv_def paper_core_def)
  from ok(3) obtain r where r: "dict_get (px_requests px) oid = Some r" by blast
  show ?thesis
  proof (cases "bk_status row \<in> set PAPER_TERMINAL")
    case True
    then show ?thesis using assms Some by (simp add: modify_order_def)
  next
    case False
    have kept: "paper_core (px\<lparr>px_requests := dict_set oid r' (px_requests px)\<rparr>)" for r'
      using assms by (auto simp: paper_inv_def paper_core_def trades_of_def paper_filled_def)
    have "paper_core (set_order oid (row\<lparr>bk_quantity := a, bk_price := b, bk_type := c\<rparr>) (px\<lparr>px_requests := dict_set oid r' (px_requests px)\<rparr>))" for a b c r'
      by (rule set_order_inv [OF kept]) (use ok so in \<open>auto simp: row_ok_def paper_filled_def\<close>)
    then show ?thesis using assms so r False by (auto simp: modify_order_def Let_def paper_inv_def refs_ok_def)
  qed
qed

section \<open>Facts about the practice venue\<close>

text \<open>What can happen at the exchange over its life.\<close>

datatype paper_event =
    PlaceEvent order_request
  | PriceEvent string pyfloat string
  | ModifyEvent string "pyfloat option" "pyfloat option" "pyfloat option" "string option"
  | CancelEvent string
  | MarkEvent string string pyfloat

fun paper_step :: "paper_cfg \<Rightarrow> paper_event \<Rightarrow> paper_exchange \<Rightarrow> paper_exchange" where
  "paper_step cfg (PlaceEvent r) px = snd (place_order cfg r px)"
| "paper_step cfg (PriceEvent s p e) px = on_price cfg s p e px"
| "paper_step cfg (ModifyEvent oid q p t k) px = snd (modify_order oid q p t k px)"
| "paper_step cfg (CancelEvent oid) px = snd (cancel_order oid px)"
| "paper_step cfg (MarkEvent s e p) px = paper_mark s e p px"

fun positive_price :: "paper_event \<Rightarrow> bool" where
  "positive_price (PriceEvent s p e) = (0 < fl p)"
| "positive_price (MarkEvent s e p) = (0 < fl p)"
| "positive_price _ = True"

lemma paper_step_inv:
  assumes "paper_cfg_ok cfg" and "paper_inv px" and "positive_price ev"
  shows "paper_inv (paper_step cfg ev px)"
proof (cases ev)
  case (PlaceEvent r)
  obtain a px' where p: "place_order cfg r px = (a, px')" by fastforce
  show ?thesis using place_order_cases [OF assms(1,2) p] fresh_inv [OF assms(2)] assms(2) PlaceEvent p by auto
qed (use assms in \<open>simp_all add: on_price_inv modify_order_inv cancel_order_spec mark_inv\<close>)

lemma paper_run_inv:
  "paper_cfg_ok cfg \<Longrightarrow> paper_inv px \<Longrightarrow> list_all positive_price evs \<Longrightarrow> paper_inv (fold (paper_step cfg) evs px)"
  by (induction evs arbitrary: px) (simp_all add: paper_step_inv)


text \<open>
  C2. A PAPER entry books exactly what the practice venue filled. Through the router, a fresh practice
  venue marked at the checked price leaves nothing uncertain; an opened position is the sum of its slices,
  which are different orders each filled as booked, and no other order filled; an entry that is not opened
  filled nothing.
\<close>
theorem paper_entry_books_fills:
  assumes "paper_cfg_ok cfg" and "0 < fl price"
    and "route (paper_ops cfg) pol ticks fresh now clock rcfg sg spec q (reg, paper_mark symbol exchange price new_paper) = (res, reg', px)"
  shows "case res of
      Opened pos \<Rightarrow> \<not> op_uncertain pos \<and> (\<exists>legs. legs \<noteq> [] \<and> op_quantity pos = filled_of legs \<and> distinct (map lk_id legs)
          \<and> (\<forall>l \<in> set legs. \<exists>oid. lk_id l = Some oid \<and> trades_of px oid = [lk_filled l])
          \<and> (\<forall>oid. Some oid \<notin> lk_id ` set legs \<longrightarrow> trades_of px oid = []))
    | _ \<Rightarrow> (\<forall>oid. trades_of px oid = [])"
proof -
  let ?v = "paper_mark symbol exchange price new_paper"
  have inv: "paper_cfg_ok cfg \<and> paper_inv ?v" using assms(1,2) new_paper_inv mark_inv by blast
  have zero: "paper_filled ?v oid = 0" for oid by (simp add: paper_filled_def paper_mark_def new_paper_def)
  have paper: "vo_paper (paper_ops cfg)" by (simp add: paper_ops_def)
  have free: "paper.refs_free 1 ?v" unfolding paper.refs_free_def by (simp add: paper_mark_def new_paper_def)
  note ex = paper.route_exact [OF inv paper free assms(3)] and ce = paper.route_certain [OF inv free assms(3)]
  have trades: "trades_of px oid = (if paper_filled px oid = 0 then [] else [paper_filled px oid])" for oid
    using ex by (simp add: paper_inv_def paper_core_def)
  show ?thesis
  proof (cases res)
    case (Opened pos)
    then have c: "\<not> op_uncertain pos" using ce by simp
    with ex Opened obtain legs where l: "legs \<noteq> []" "booked paper_filled ?v px legs" "op_quantity pos = filled_of legs" by auto
    have "\<exists>oid. lk_id x = Some oid \<and> trades_of px oid = [lk_filled x]" if "x \<in> set legs" for x
    proof -
      have "lk_id x \<noteq> None" "0 < lk_filled x" "paper_filled px (the (lk_id x)) = lk_filled x" using l(2) that by (auto simp: booked_def)
      moreover from this obtain y where "lk_id x = Some y" by blast
      ultimately show ?thesis using trades [of y] by (intro exI [of _ y]) simp
    qed
    moreover have "trades_of px oid = []" if "Some oid \<notin> lk_id ` set legs" for oid
      using l(2) that trades zero by (simp add: booked_def)
    ultimately show ?thesis using Opened c l by (auto simp: booked_def)
  qed (use ex trades zero in auto)
qed

text \<open>A price leaves alone what it does not reach, and every order that does not wait for one.\<close>

lemma price_reaches_requests [simp]: "px_requests (price_reaches cfg symbol price oid px) = px_requests px"
  by (simp add: price_reaches_def fill_now_def record_fill_def set_order_def Let_def split: option.splits)

lemma price_reaches_other: "x \<noteq> oid \<Longrightarrow> dict_get (px_orders (price_reaches cfg symbol price oid px)) x = dict_get (px_orders px) x"
  by (simp add: price_reaches_def fill_now_def record_fill_def set_order_def Let_def split: option.splits)

lemma price_reaches_resting: "set (px_resting (price_reaches cfg symbol price oid px)) \<subseteq> set (px_resting px)"
  using set_remove1_subset [of oid "px_resting px"]
  by (auto simp: price_reaches_def fill_now_def record_fill_def set_order_def Let_def split: option.splits)

lemma fold_price_other: "x \<notin> set ids \<Longrightarrow> dict_get (px_orders (fold (price_reaches cfg symbol price) ids px)) x = dict_get (px_orders px) x"
  by (induction ids arbitrary: px) (simp_all add: price_reaches_other)

lemma fold_price_resting: "set (px_resting (fold (price_reaches cfg symbol price) ids px)) \<subseteq> set (px_resting px)"
  by (induction ids arbitrary: px) (use price_reaches_resting in \<open>fastforce+\<close>)

lemma on_price_other:
  "x \<notin> set (px_resting px) \<Longrightarrow>
     dict_get (px_orders (on_price cfg symbol price exchange px)) x = dict_get (px_orders px) x
     \<and> x \<notin> set (px_resting (on_price cfg symbol price exchange px))"
  using fold_price_other [of x "px_resting px" cfg symbol price "paper_mark symbol exchange price px"]
    fold_price_resting [of cfg symbol price "px_resting px" "paper_mark symbol exchange price px"]
  by (auto simp: on_price_def paper_mark_def)

lemma fold_price_waits:
  "paper_cfg_ok cfg \<Longrightarrow> paper_inv px \<Longrightarrow> distinct ids \<Longrightarrow> set ids \<subseteq> set (px_resting px) \<Longrightarrow> 0 < fl price \<Longrightarrow>
     oid \<in> set (px_resting px) \<Longrightarrow> dict_get (px_requests px) oid = Some r \<Longrightarrow> fill_price cfg r (fl price) = None \<Longrightarrow>
     oid \<in> set (px_resting (fold (price_reaches cfg symbol price) ids px))"
proof (induction ids arbitrary: px)
  case (Cons x ids)
  have x: "x \<in> set (px_resting px)" using Cons.prems by simp
  note p = price_reaches_inv [OF Cons.prems(1,2) x Cons.prems(5), of symbol]
  have sub: "set ids \<subseteq> set (px_resting (price_reaches cfg symbol price x px))" using p Cons.prems(3,4) by auto
  have "oid \<in> set (px_resting (price_reaches cfg symbol price x px))"
    using p Cons.prems(6-8) by (cases "x = oid") (auto simp: price_reaches_def)
  then show ?case using Cons.IH [OF Cons.prems(1) _ _ sub Cons.prems(5)] p Cons.prems by simp
qed simp

lemma stop_not_triggered:
  "order_kind r = ''SL'' \<Longrightarrow> or_side r = BUY \<Longrightarrow> or_trigger r = Some t \<Longrightarrow> ltp < t \<Longrightarrow> fill_price cfg r ltp = None"
  by (auto simp: fill_price_def Let_def paper_fill_def split: option.splits)

text \<open>
  The practice venue does not remember that a stop-limit order was triggered: whatever prices came
  before, one that triggered it included, a buy stop-limit that still waits goes on waiting at every price
  below its trigger, however far that price is inside its limit.
\<close>
theorem triggered_stop_is_forgotten:
  assumes "paper_cfg_ok cfg" and "list_all positive_price evs" and "px = fold (paper_step cfg) evs new_paper"
    and "oid \<in> set (px_resting px)" and "dict_get (px_requests px) oid = Some r"
    and "order_kind r = ''SL''" and "or_side r = BUY" and "or_trigger r = Some t" and "0 < fl price" and "fl price < t"
  shows "oid \<in> set (px_resting (on_price cfg symbol price exchange px))"
proof -
  let ?m = "paper_mark symbol exchange price px"
  have m: "paper_inv ?m" using mark_inv [OF paper_run_inv [OF assms(1) new_paper_inv assms(2)] assms(9)] assms(3) by simp
  have same: "px_resting ?m = px_resting px" "px_requests ?m = px_requests px" by (simp_all add: paper_mark_def)
  have "distinct (px_resting ?m)" using m by (simp add: paper_inv_def paper_core_def)
  then show ?thesis
    using fold_price_waits [OF assms(1) m _ _ assms(9), of "px_resting ?m" oid r symbol] same assms(4,5) stop_not_triggered [OF assms(6-8,10)]
    by (simp add: on_price_def)
qed

lemma fold_price_fills:
  "distinct ids \<Longrightarrow> oid \<in> set ids \<Longrightarrow> distinct (px_resting px) \<Longrightarrow> dict_get (px_requests px) oid = Some r \<Longrightarrow> py_upper (or_symbol r) = py_upper symbol \<Longrightarrow>
     fill_price cfg r (fl price) = Some f \<Longrightarrow> fillable cfg r \<le> 0 \<Longrightarrow>
     dict_get (px_orders (fold (price_reaches cfg symbol price) ids px)) oid = Some (status_row oid r ''OPEN'' 0 None)
     \<and> oid \<notin> set (px_resting (fold (price_reaches cfg symbol price) ids px))"
proof (induction ids arbitrary: px)
  case (Cons x ids)
  show ?case
  proof (cases "x = oid")
    case True
    let ?px = "price_reaches cfg symbol price oid px"
    have "dict_get (px_orders ?px) oid = Some (status_row oid r ''OPEN'' 0 None)" "oid \<notin> set (px_resting ?px)"
      using Cons.prems(3-7) by (simp_all add: price_reaches_def fill_now_def set_order_def)
    moreover have "oid \<notin> set ids" using Cons.prems(1) True by simp
    ultimately show ?thesis using fold_price_other [of oid ids cfg symbol price ?px] fold_price_resting [of cfg symbol price ids ?px] True by auto
  next
    case False
    have "distinct (px_resting (price_reaches cfg symbol price x px))"
      using Cons.prems(3) by (auto simp: price_reaches_def fill_now_def record_fill_def set_order_def Let_def split: option.splits)
    then show ?thesis using Cons.IH [of "price_reaches cfg symbol price x px"] Cons.prems False by simp
  qed
qed simp

lemma prices_leave_alone:
  "oid \<notin> set (px_resting px) \<Longrightarrow> \<forall>ev \<in> set evs. \<exists>s p e. ev = PriceEvent s p e \<Longrightarrow>
     dict_get (px_orders (fold (paper_step cfg) evs px)) oid = dict_get (px_orders px) oid"
proof (induction evs arbitrary: px)
  case (Cons ev evs)
  then obtain s p e where "ev = PriceEvent s p e" by auto
  then show ?case using Cons on_price_other [of oid px cfg s p e] by simp
qed simp

text \<open>
  A waiting order that its price reaches at a moment with nothing to trade against is forgotten: it
  stays OPEN in the order book with nothing filled, it no longer waits, and no price that comes afterwards
  fills it.
\<close>
theorem order_without_liquidity_is_forgotten:
  assumes "paper_cfg_ok cfg" and "list_all positive_price evs" and "px = fold (paper_step cfg) evs new_paper"
    and "oid \<in> set (px_resting px)" and "dict_get (px_requests px) oid = Some r" and "py_upper (or_symbol r) = py_upper symbol"
    and "fill_price cfg r (fl price) = Some f" and "fillable cfg r \<le> 0" and "\<forall>ev \<in> set later. \<exists>s p e. ev = PriceEvent s p e"
  shows "dict_get (px_orders (fold (paper_step cfg) (PriceEvent symbol price exchange # later) px)) oid = Some (status_row oid r ''OPEN'' 0 None)"
proof -
  let ?m = "paper_mark symbol exchange price px"
  have "paper_inv px" using paper_run_inv [OF assms(1) new_paper_inv assms(2)] assms(3) by simp
  then have "distinct (px_resting px)" by (simp add: paper_inv_def paper_core_def)
  then show ?thesis
    using fold_price_fills [of "px_resting px" oid ?m r symbol cfg price f] assms(4-8)
      prices_leave_alone [OF _ assms(9), of oid "on_price cfg symbol price exchange px" cfg]
    by (simp add: on_price_def paper_mark_def)
qed

section \<open>Concrete exchanges\<close>

definition ex_paper :: "(order_request \<Rightarrow> pyfloat) option \<Rightarrow> paper_cfg" where
  "ex_paper liquidity = \<lparr>pc_slippage_pct = 0, pc_slippage_model = Some (\<lambda>p side. p), pc_keep_resting = True, pc_liquidity = liquidity,
     pc_price_lookup = (\<lambda>_ _. None), pc_book = None, pc_venue = None, pc_market_ok = True, pc_stop_market = True,
     pc_stop_market_on_options = True, pc_cost = (\<lambda>_ _ _ _. 0)\<rparr>"

lemma ex_paper_ok: "paper_cfg_ok (ex_paper l)"
  by (simp add: paper_cfg_ok_def slip_def ex_paper_def)

definition ex_stop_limit :: order_request where
  "ex_stop_limit = \<lparr>or_symbol = ''ABC'', or_exchange = ''NSE'', or_side = BUY, or_quantity = 50, or_type = ''SL'', or_product = ''MIS'',
     or_price = Some 101, or_trigger = Some 100, or_validity = ''DAY'', or_tag = None, or_intent = None, or_client_ref = None, or_protection_pct = None\<rparr>"

text \<open>The order waits at 98; 103 triggers it, past its limit; at 99 it is inside its limit again.\<close>

definition ex_events :: "paper_event list" where
  "ex_events = [MarkEvent ''ABC'' ''NSE'' 98, PlaceEvent ex_stop_limit, PriceEvent ''ABC'' 103 ''NSE'']"

lemma ex_events_positive: "list_all positive_price ex_events"
  by code_simp


theorem triggered_stop_is_forgotten_witness:
  "''PAPER-1'' \<in> set (px_resting (on_price (ex_paper None) ''ABC'' 99 ''NSE'' (fold (paper_step (ex_paper None)) ex_events new_paper)))"
proof (rule triggered_stop_is_forgotten [OF ex_paper_ok ex_events_positive refl, where r = ex_stop_limit and t = 100])
  show "''PAPER-1'' \<in> set (px_resting (fold (paper_step (ex_paper None)) ex_events new_paper))" by code_simp
  show "dict_get (px_requests (fold (paper_step (ex_paper None)) ex_events new_paper)) ''PAPER-1'' = Some ex_stop_limit" by code_simp
  show "order_kind ex_stop_limit = ''SL''" by code_simp
  show "0 < fl (99::pyfloat)" "fl (99::pyfloat) < 100" by code_simp+
qed (simp_all add: ex_stop_limit_def)

theorem order_without_liquidity_is_forgotten_witness:
  "dict_get (px_orders (fold (paper_step (ex_paper (Some (\<lambda>_. 0)))) [PriceEvent ''ABC'' 101 ''NSE'', PriceEvent ''ABC'' 100 ''NSE'']
     (fold (paper_step (ex_paper (Some (\<lambda>_. 0)))) ex_events new_paper))) ''PAPER-1'' = Some (status_row ''PAPER-1'' ex_stop_limit ''OPEN'' 0 None)"
proof (rule order_without_liquidity_is_forgotten [OF ex_paper_ok ex_events_positive refl, where f = 101])
  show "''PAPER-1'' \<in> set (px_resting (fold (paper_step (ex_paper (Some (\<lambda>_. 0)))) ex_events new_paper))" by code_simp
  show "dict_get (px_requests (fold (paper_step (ex_paper (Some (\<lambda>_. 0)))) ex_events new_paper)) ''PAPER-1'' = Some ex_stop_limit" by code_simp
  show "py_upper (or_symbol ex_stop_limit) = py_upper ''ABC''" by code_simp
  show "fill_price (ex_paper (Some (\<lambda>_. 0))) ex_stop_limit (fl 101) = Some 101" by code_simp
  show "fillable (ex_paper (Some (\<lambda>_. 0))) ex_stop_limit \<le> 0" by code_simp
qed simp

theorem paper_entry_books_fills_witness:
  "let (res, _, px) = route (paper_ops (ex_paper None)) \<lparr>ep_market = ALLOW_MARKET, ep_validity = []\<rparr> (\<lambda>_. None) demo_breaker 0 (\<lambda>_. (0, 0))
                        ex_route ex_entry None 50 ([], paper_mark ''ABC'' ''NSE'' 100 new_paper) in
   res = Opened \<lparr>op_quantity = 50, op_price = 100, op_order_id = None, op_partial = False, op_uncertain = False, op_stop = StopNotSent\<rparr>
   \<and> (\<exists>legs. legs \<noteq> [] \<and> (50::pyfloat) = filled_of legs \<and> (\<forall>l \<in> set legs. \<exists>oid. lk_id l = Some oid \<and> trades_of px oid = [lk_filled l]))"
proof -
  let ?run = "route (paper_ops (ex_paper None)) \<lparr>ep_market = ALLOW_MARKET, ep_validity = []\<rparr> (\<lambda>_. None) demo_breaker 0 (\<lambda>_. (0, 0))
                        ex_route ex_entry None 50 ([], paper_mark ''ABC'' ''NSE'' 100 new_paper)"
  let ?pos = "\<lparr>op_quantity = 50, op_price = 100, op_order_id = None, op_partial = False, op_uncertain = False, op_stop = StopNotSent\<rparr>"
  have opened: "fst ?run = Opened ?pos" by code_simp
  obtain reg' px where run: "?run = (Opened ?pos, reg', px)" using opened by (metis prod.exhaust fst_conv)
  have price: "0 < fl (100::pyfloat)" by code_simp
  have "\<exists>legs. legs \<noteq> [] \<and> op_quantity ?pos = filled_of legs \<and> distinct (map lk_id legs)
          \<and> (\<forall>l \<in> set legs. \<exists>oid. lk_id l = Some oid \<and> trades_of px oid = [lk_filled l])
          \<and> (\<forall>oid. Some oid \<notin> lk_id ` set legs \<longrightarrow> trades_of px oid = [])"
    using paper_entry_books_fills [OF ex_paper_ok price run] by (simp only: route_result.case)
  then have "\<exists>legs. legs \<noteq> [] \<and> (50::pyfloat) = filled_of legs \<and> (\<forall>l \<in> set legs. \<exists>oid. lk_id l = Some oid \<and> trades_of px oid = [lk_filled l])"
    by auto
  then show ?thesis unfolding run by simp
qed

text \<open>The answer to an order is the status its row has.\<close>

lemma fill_now_row: "fill_now cfg oid r price px = (a, px') \<Longrightarrow> \<exists>row. a = Placed oid (bk_status row) \<and> dict_get (px_orders px') oid = Some row"
  by (auto simp: fill_now_def set_order_def status_row_def Let_def split: if_splits)

lemma new_order_row: "new_order cfg r px = (Placed oid st, px') \<Longrightarrow> \<exists>row. dict_get (px_orders px') oid = Some row \<and> bk_status row = st"
  by (auto simp: new_order_def Let_def set_order_def status_row_def dest: fill_now_row split: if_splits option.splits)

lemma paper_answer_row:
  assumes "paper_cfg_ok cfg \<and> paper_inv px" and "place_order cfg r px = (Placed oid st, px')"
  shows "\<exists>row. dict_get (px_orders px') oid = Some row \<and> bk_status row = st"
proof (cases "\<exists>ref first. or_client_ref r = Some ref \<and> ref \<noteq> [] \<and> dict_get (px_by_ref px) ref = Some first")
  case True
  then obtain ref x where ref: "or_client_ref r = Some ref" "ref \<noteq> []" "dict_get (px_by_ref px) ref = Some x" by blast
  obtain row where row: "dict_get (px_orders px) x = Some row" using assms(1) ref(3) by (auto simp: paper_inv_def refs_ok_def)
  then have "bk_id row = x" using assms(1) by (auto simp: paper_inv_def paper_core_def)
  then show ?thesis using assms(2) ref row by (simp add: place_order_def find_by_client_id_def)
next
  case False
  then have "place_order cfg r px = new_order cfg r px"
    using assms(1) by (auto simp: place_order_def find_by_client_id_def paper_cfg_ok_def split: option.splits)
  then show ?thesis using new_order_row assms(2) by simp
qed

end
