(* ===== verification/MultiLeg.thy ===== *)
theory MultiLeg
  imports PaperVenue AccountPlan ExitSafety
begin

text \<open>
  Orders of several legs: the run of \<open>app/execution/smart_execution.py\<close> (hedges first, stop at the first
  leg that does not fill), the legs it places with \<open>place_legs\<close> of \<open>app/execution/multileg_smart.py\<close>, and
  the older LIVE path \<open>_place_live_legs\<close> and \<open>_unwind\<close> of \<open>app/execution/multileg.py\<close>. The venue is the
  interface of theory Venue. Sentences and tags are left out; a reason keeps the numbers it shows.
\<close>

section \<open>The run\<close>

datatype leg_status = LegFilled | LegFailed | LegNotPlaced

datatype leg_reason =
    ShortStillOpen | HedgeNotFilled | EarlierNotFilled
  | BandNotSet string | NoLimitPrice string | CallFailed string broker_exc | RefusedByVenue string string
  | PartFilled string pyfloat | NotConfirmed string | CancelNotConfirmed string

record leg_outcome =
  lo_index :: nat
  lo_seq :: nat
  lo_side :: string
  lo_status :: leg_status
  lo_reasons :: "leg_reason list"

datatype run_state = RunComplete | RunIncomplete | NothingPlaced
datatype next_action = CompleteRest | CloseFilled | CloseRest

record run_outcome =
  ro_state :: run_state
  ro_legs :: "leg_outcome list"
  ro_actions :: "next_action list"
  ro_exiting :: bool

text \<open>What \<open>place(index, seq)\<close> answers: an exception, or whether the leg filled and why not.\<close>

datatype leg_answer = LegRaised | LegAnswer bool "leg_reason list"

type_synonym 's leg_placer = "nat \<Rightarrow> nat \<Rightarrow> 's \<Rightarrow> leg_answer \<times> 's"

definition not_placed :: "bool \<Rightarrow> string \<Rightarrow> string \<Rightarrow> leg_reason" where
  "not_placed exiting side stopped =
     (if exiting then ShortStillOpen else if side \<noteq> ''BUY'' \<and> stopped = ''BUY'' then HedgeNotFilled else EarlierNotFilled)"

text \<open>The loop over the legs; \<open>stopped\<close> is the side of the leg that did not fill. \<open>None\<close>: \<open>place\<close> raised.\<close>

fun run_legs :: "'s leg_placer \<Rightarrow> string list \<Rightarrow> bool \<Rightarrow> nat \<Rightarrow> nat list \<Rightarrow> string option \<Rightarrow> 's \<Rightarrow> leg_outcome list option \<times> 's" where
  "run_legs place sides exiting seq [] stopped s = (Some [], s)"
| "run_legs place sides exiting seq (i # is) stopped s =
     (let side = py_upper (sides ! i) in
      case stopped of
        Some st \<Rightarrow>
          (let (rest, s') = run_legs place sides exiting (Suc seq) is stopped s in
           (map_option ((#) \<lparr>lo_index = i, lo_seq = seq, lo_side = side, lo_status = LegNotPlaced, lo_reasons = [not_placed exiting side st]\<rparr>) rest, s'))
      | None \<Rightarrow>
          (case place i seq s of
             (LegRaised, s') \<Rightarrow> (None, s')
           | (LegAnswer ok why, s') \<Rightarrow>
               (let (rest, s'') = run_legs place sides exiting (Suc seq) is (if ok then None else Some side) s' in
                (map_option ((#) \<lparr>lo_index = i, lo_seq = seq, lo_side = side, lo_status = (if ok then LegFilled else LegFailed), lo_reasons = why\<rparr>) rest,
                 s''))))"

definition run_result :: "bool \<Rightarrow> leg_outcome list \<Rightarrow> run_outcome" where
  "run_result exiting legs =
     (let done = filter (\<lambda>l. lo_status l = LegFilled) legs in
      if length done = length legs then \<lparr>ro_state = RunComplete, ro_legs = legs, ro_actions = [], ro_exiting = exiting\<rparr>
      else if done = [] then \<lparr>ro_state = NothingPlaced, ro_legs = legs, ro_actions = [], ro_exiting = exiting\<rparr>
      else \<lparr>ro_state = RunIncomplete, ro_legs = legs, ro_actions = (if exiting then [CloseRest] else [CompleteRest, CloseFilled]), ro_exiting = exiting\<rparr>)"

definition run :: "string list \<Rightarrow> 's leg_placer \<Rightarrow> bool \<Rightarrow> 's \<Rightarrow> run_outcome option \<times> 's" where
  "run sides place exiting s =
     (let (legs, s') = run_legs place sides exiting 1 (if exiting then exit_sequence sides else entry_sequence sides) None s
      in (map_option (run_result exiting) legs, s'))"

section \<open>The legs of a structure at the venue\<close>

record leg_spec =
  sp_key :: string
  sp_exchange :: string
  sp_side :: string
  sp_role :: string
  sp_quantity :: pyfloat
  sp_index :: int
  sp_instrument :: "string option"
  sp_ratio :: int

record leg_fill =
  fi_price :: pyfloat
  fi_quantity :: pyfloat
  fi_order :: string

text \<open>The state of one run: the venue, and the four collections the closure \<open>place\<close> fills.\<close>

record 'v legs_state =
  lg_venue :: 'v
  lg_fills :: "(string, leg_fill) dict"
  lg_failure :: "leg_reason option"
  lg_uncertain :: "leg_reason list"

record legs_run =
  lr_state :: run_state
  lr_fills :: "(string, leg_fill) dict"
  lr_pending :: "leg_spec list"
  lr_failure :: "leg_reason option"
  lr_uncertain :: "leg_reason list"
  lr_reasons :: "(string, leg_reason list) dict"

definition stop_leg :: "leg_reason \<Rightarrow> 'v legs_state \<Rightarrow> leg_answer \<times> 'v legs_state" where
  "stop_leg why s = (LegAnswer False [why], s\<lparr>lg_failure := (case lg_failure s of None \<Rightarrow> Some why | Some w \<Rightarrow> Some w)\<rparr>)"

text \<open>\<open>order_type_for\<close>; \<open>None\<close>: the \<open>ValueError\<close> for a price that is not positive.\<close>

definition order_type_for :: "bool \<Rightarrow> string \<Rightarrow> pyfloat \<Rightarrow> pyfloat \<Rightarrow> (string \<times> pyfloat option) option" where
  "order_type_for market_ok side price band =
     (if market_ok then Some (''MARKET'', None)
      else map_option (\<lambda>l. (''LIMIT'', Some l)) (marketable_limit_price price (if py_upper side = ''BUY'' then BUY else SELL) band))"

text \<open>The look at the book after the order, and the cancel of what did not fill in full.\<close>

definition confirm_leg :: "'v venue_ops \<Rightarrow> leg_spec \<Rightarrow> string \<Rightarrow> 'v legs_state \<Rightarrow> leg_answer \<times> 'v legs_state" where
  "confirm_leg ops spec oid s =
     (let ((price, got, m, readable), v) = resolve_fill_with_status ops FILL_POLL_ATTEMPTS oid 0 None (lg_venue s) in
      if sp_quantity spec \<le> fadd got RiskGate.EPS9 \<and> 0 < price then
        (LegAnswer True [], s\<lparr>lg_venue := v, lg_fills := dict_set (sp_key spec) \<lparr>fi_price = py_round2 price, fi_quantity = sp_quantity spec, fi_order = oid\<rparr> (lg_fills s)\<rparr>)
      else
        (let ((confirmed, late_price, late), w) = cancel_unfilled ops FILL_POLL_ATTEMPTS oid price v;
             q = max late got;
             paid = (if 0 < late then late_price else price);
             s' = s\<lparr>lg_venue := w, lg_uncertain := (if confirmed then lg_uncertain s else lg_uncertain s @ [CancelNotConfirmed (sp_key spec)])\<rparr> in
         if RiskGate.EPS9 < q \<and> 0 < paid then
           stop_leg (PartFilled (sp_key spec) q)
             (s'\<lparr>lg_fills := dict_set (sp_key spec) \<lparr>fi_price = py_round2 paid, fi_quantity = min q (sp_quantity spec), fi_order = oid\<rparr> (lg_fills s')\<rparr>)
         else stop_leg (NotConfirmed (sp_key spec)) s'))"

definition place_leg ::
  "'v venue_ops \<Rightarrow> pyfloat option \<Rightarrow> (string, pyfloat) dict \<Rightarrow> string \<Rightarrow> (leg_spec \<Rightarrow> string option) \<Rightarrow> leg_spec list \<Rightarrow> 'v legs_state leg_placer" where
  "place_leg ops band prices product tag specs index seq s =
     (let spec = specs ! index; key = sp_key spec;
          price = (case dict_get prices key of Some p \<Rightarrow> p | None \<Rightarrow> 0) in
      if \<not> vo_market_ok ops \<and> band = None then stop_leg (BandNotSet key) s
      else case order_type_for (vo_market_ok ops) (sp_side spec) price (case band of Some b \<Rightarrow> b | None \<Rightarrow> 0) of
        None \<Rightarrow> (LegRaised, s)
      | Some (kind, limit) \<Rightarrow>
          (if kind = ''LIMIT'' \<and> price = 0 then stop_leg (NoLimitPrice key) s
           else
             (let req = \<lparr>or_symbol = key, or_exchange = sp_exchange spec, or_side = (if sp_side spec = ''BUY'' then BUY else SELL),
                         or_quantity = sp_quantity spec, or_type = kind, or_product = product, or_price = limit, or_trigger = None, or_validity = ''DAY'',
                         or_tag = tag spec, or_intent = Some ''ENTRY'', or_client_ref = None, or_protection_pct = None\<rparr> in
              case vo_place ops req (lg_venue s) of
                (PlaceRaised e, v) \<Rightarrow> stop_leg (CallFailed key e) (s\<lparr>lg_venue := v, lg_uncertain := lg_uncertain s @ [CallFailed key e]\<rparr>)
              | (Placed oid st, v) \<Rightarrow>
                  (if py_upper st \<in> {''REJECTED'', ''CANCELLED''} \<or> oid = [] then stop_leg (RefusedByVenue key st) (s\<lparr>lg_venue := v\<rparr>)
                   else confirm_leg ops spec oid (s\<lparr>lg_venue := v\<rparr>)))))"

text \<open>What is still to place of a leg, the remainder of a part fill included.\<close>

definition filled_at :: "(string, leg_fill) dict \<Rightarrow> string \<Rightarrow> pyfloat" where
  "filled_at fills key = (case dict_get fills key of Some f \<Rightarrow> fi_quantity f | None \<Rightarrow> 0)"

definition pending_of :: "(string, leg_fill) dict \<Rightarrow> leg_spec \<Rightarrow> leg_spec list" where
  "pending_of fills spec =
     (let got = filled_at fills (sp_key spec) in
      if fadd got RiskGate.EPS9 < sp_quantity spec then [spec\<lparr>sp_quantity := py_rounds 6 (fsub (sp_quantity spec) got)\<rparr>] else [])"

definition place_legs ::
  "'v venue_ops \<Rightarrow> pyfloat option \<Rightarrow> (string, pyfloat) dict \<Rightarrow> string \<Rightarrow> (leg_spec \<Rightarrow> string option) \<Rightarrow> leg_spec list \<Rightarrow> 'v \<Rightarrow> legs_run option \<times> 'v" where
  "place_legs ops band prices product tag specs v =
     (case run (map sp_side specs) (place_leg ops band prices product tag specs) False
             \<lparr>lg_venue = v, lg_fills = [], lg_failure = None, lg_uncertain = []\<rparr> of
        (None, s) \<Rightarrow> (None, lg_venue s)
      | (Some out, s) \<Rightarrow>
          (let fills = lg_fills s;
               pending = concat (map (\<lambda>l. pending_of fills (specs ! lo_index l)) (ro_legs out));
               state = (if ro_state out = NothingPlaced \<and> fills \<noteq> [] then RunIncomplete
                        else if ro_state out = RunComplete \<and> pending \<noteq> [] then RunIncomplete else ro_state out) in
           (Some \<lparr>lr_state = state, lr_fills = fills, lr_pending = pending, lr_failure = lg_failure s, lr_uncertain = lg_uncertain s,
                  lr_reasons = foldl (\<lambda>d l. if lo_reasons l = [] then d else dict_set (sp_key (specs ! lo_index l)) (lo_reasons l) d) [] (ro_legs out)\<rparr>,
            lg_venue s)))"

section \<open>The order of the legs\<close>



lemma stopped_run:
  "run_legs place sides exiting seq is (Some st) s = (r, s') \<Longrightarrow> s' = s \<and> (\<exists>ls. r = Some ls)"
  by (induction "is" arbitrary: seq r) (auto simp: Let_def split: prod.splits)



lemma in_indexes_where: "i \<in> set (indexes_where P sides) \<longleftrightarrow> i < length sides \<and> P (sides ! i)"
  by (force simp: indexes_where_def in_set_enumerate_eq)

lemma distinct_indexes_where: "distinct (indexes_where P sides)"
  by (simp add: indexes_where_def distinct_map_filter)

lemma distinct_sequences: "distinct (entry_sequence sides)" "distinct (exit_sequence sides)"
  by (auto simp: entry_sequence_def exit_sequence_def distinct_indexes_where in_indexes_where)



section \<open>What the legs come to at the venue\<close>

text \<open>
  The fills a run keeps, against what the venue filled since \<open>v0\<close>: each is an order of its own that filled,
  booked as what filled or as the whole leg (up to 1e-9); an order that is not kept filled at most 1e-9.
\<close>

definition fill_true :: "('v \<Rightarrow> string \<Rightarrow> pyfloat) \<Rightarrow> leg_spec list \<Rightarrow> 'v \<Rightarrow> 'v \<Rightarrow> string \<Rightarrow> leg_fill \<Rightarrow> bool" where
  "fill_true filled specs v0 v k f =
     (filled v0 (fi_order f) = 0 \<and> 0 < filled v (fi_order f) \<and> fi_quantity f \<le> fadd (filled v (fi_order f)) RiskGate.EPS9
      \<and> (filled v (fi_order f) \<le> fi_quantity f \<or> (\<exists>spec \<in> set specs. sp_key spec = k \<and> fi_quantity f = sp_quantity spec)))"

definition accounted :: "('v \<Rightarrow> string \<Rightarrow> pyfloat) \<Rightarrow> leg_spec list \<Rightarrow> 'v \<Rightarrow> 'v \<Rightarrow> (string, leg_fill) dict \<Rightarrow> bool" where
  "accounted filled specs v0 v fills =
     ((\<forall>k f. dict_get fills k = Some f \<longrightarrow> fill_true filled specs v0 v k f)
      \<and> (\<forall>oid. (\<forall>k f. dict_get fills k = Some f \<longrightarrow> fi_order f \<noteq> oid) \<longrightarrow>
           filled v oid = filled v0 oid \<or> filled v0 oid = 0 \<and> filled v oid \<le> RiskGate.EPS9)
      \<and> (\<forall>k k' f f'. dict_get fills k = Some f \<longrightarrow> dict_get fills k' = Some f' \<longrightarrow> fi_order f = fi_order f' \<longrightarrow> k = k'))"

text \<open>What a call of \<open>place\<close> does: nothing at the venue, or one order with its answer.\<close>

lemma place_leg_cases:
  assumes "place_leg ops band prices product tag specs i seq s = (a, s')"
  obtains (nothing) "lg_venue s' = lg_venue s" and "lg_fills s' = lg_fills s"
  | (raised) r e where "or_client_ref r = None" and "vo_place ops r (lg_venue s) = (PlaceRaised e, lg_venue s')"
  | (refused) r oid st where "or_client_ref r = None" and "vo_place ops r (lg_venue s) = (Placed oid st, lg_venue s')"
      and "py_upper st \<in> {''REJECTED'', ''CANCELLED''} \<or> oid = []" and "lg_fills s' = lg_fills s"
  | (placed) r oid st v where "or_client_ref r = None" and "vo_place ops r (lg_venue s) = (Placed oid st, v)"
      and "py_upper st \<notin> {''REJECTED'', ''CANCELLED''}" and "confirm_leg ops (specs ! i) oid (s\<lparr>lg_venue := v\<rparr>) = (a, s')"
proof -
  let ?spec = "specs ! i"
  define price where "price = (case dict_get prices (sp_key ?spec) of Some p \<Rightarrow> p | None \<Rightarrow> 0)"
  show ?thesis
  proof (cases "\<not> vo_market_ok ops \<and> band = None")
    case True
    then have "(a, s') = stop_leg (BandNotSet (sp_key ?spec)) s" using assms by (simp add: place_leg_def Let_def)
    then have "s' = snd (stop_leg (BandNotSet (sp_key ?spec)) s)" by (metis snd_conv)
    then have "lg_venue s' = lg_venue s" "lg_fills s' = lg_fills s" by (simp_all add: stop_leg_def)
    then show ?thesis by (rule nothing)
  next
    case False
    show ?thesis
    proof (cases "order_type_for (vo_market_ok ops) (sp_side ?spec) price (case band of Some b \<Rightarrow> b | None \<Rightarrow> 0)")
      case None
      have "s' = s" using None False assms by (simp add: place_leg_def Let_def price_def del: de_Morgan_conj)
      then have "lg_venue s' = lg_venue s" "lg_fills s' = lg_fills s" by simp_all
      then show ?thesis by (rule nothing)
    next
      case (Some kl)
      obtain kind limit where kl: "kl = (kind, limit)" by (cases kl)
      let ?r = "\<lparr>or_symbol = sp_key ?spec, or_exchange = sp_exchange ?spec, or_side = (if sp_side ?spec = ''BUY'' then BUY else SELL),
          or_quantity = sp_quantity ?spec, or_type = kind, or_product = product, or_price = limit, or_trigger = None, or_validity = ''DAY'',
          or_tag = tag ?spec, or_intent = Some ''ENTRY'', or_client_ref = None, or_protection_pct = None\<rparr>"
      show ?thesis
      proof (cases "kind = ''LIMIT'' \<and> price = 0")
        case True
        then have False using Some kl by (auto simp: order_type_for_def marketable_limit_price_def split: if_splits)
        then show ?thesis ..
      next
        case sent: False
        obtain ans v where v: "vo_place ops ?r (lg_venue s) = (ans, v)" by fastforce
        note step = assms [unfolded place_leg_def Let_def price_def [symmetric]]
        have out: "(a, s') = (case ans of
            PlaceRaised e \<Rightarrow> stop_leg (CallFailed (sp_key ?spec) e) (s\<lparr>lg_venue := v, lg_uncertain := lg_uncertain s @ [CallFailed (sp_key ?spec) e]\<rparr>)
          | Placed oid st \<Rightarrow> if py_upper st \<in> {''REJECTED'', ''CANCELLED''} \<or> oid = [] then stop_leg (RefusedByVenue (sp_key ?spec) st) (s\<lparr>lg_venue := v\<rparr>)
                            else confirm_leg ops ?spec oid (s\<lparr>lg_venue := v\<rparr>))"
          using step False Some kl sent v by (cases ans) (simp_all only: if_False option.case prod.case split place_answer.case)
        show ?thesis
        proof (cases ans)
          case (PlaceRaised e)
          then show ?thesis using raised [of ?r e] v out by (simp add: stop_leg_def)
        next
          case (Placed oid st)
          show ?thesis
          proof (cases "py_upper st \<in> {''REJECTED'', ''CANCELLED''} \<or> oid = []")
            case True
            then have "(a, s') = stop_leg (RefusedByVenue (sp_key ?spec) st) (s\<lparr>lg_venue := v\<rparr>)" using out Placed by simp
            then show ?thesis using refused [of ?r oid st] v Placed True by (simp add: stop_leg_def)
          next
            case False
            then have "(a, s') = confirm_leg ops ?spec oid (s\<lparr>lg_venue := v\<rparr>)" using out Placed by simp
            then show ?thesis using placed [of ?r oid st v] v Placed False by simp
          qed
        qed
      qed
    qed
  qed
qed

lemma resolve_fallback:
  "resolve_fill_with_status ops n oid fb seen v = ((p, q, m, readable), v') \<Longrightarrow> q = 0 \<and> p = fb \<or> 0 < q"
proof (induction n arbitrary: v seen)
  case (Suc n)
  then show ?case
    by (auto simp: Let_def fill_shown_def split: option.splits prod.splits if_splits)
qed simp

locale leg_venue = answering_venue ops good filled over used known
  for ops :: "'v venue_ops" and good :: "'v \<Rightarrow> bool" and filled :: "'v \<Rightarrow> string \<Rightarrow> pyfloat" and over :: "'v \<Rightarrow> string \<Rightarrow> bool"
    and used :: "'v \<Rightarrow> string \<Rightarrow> bool" and known :: "'v \<Rightarrow> string \<Rightarrow> bool" +
  assumes place_named: "good v \<Longrightarrow> vo_place ops r v = (Placed oid st, v') \<Longrightarrow> oid \<noteq> [] \<and> py_upper st = st"
    and book_priced: "good v \<Longrightarrow> vo_book ops v = (Some book, v') \<Longrightarrow> fill_shown (book_match oid book) = Some (p, q) \<Longrightarrow> 0 < p"
begin

lemma resolve_known:
  assumes "good v" and "known v oid" and "resolve_fill_with_status ops (Suc n) oid fb seen v = ((p, q, m, readable), v')"
  shows "v' = v \<and> filled v oid = q \<and> (0 < q \<longrightarrow> 0 < p)"
proof -
  have same: "v' = v" using resolve_answers [OF assms(1,3)] by simp
  note t = resolve_true [OF assms(1,3), unfolded same]
  obtain book where b: "vo_book ops v = (Some book, v)" using book_answers [OF assms(1)] by blast
  obtain row where row: "book_match oid book = Some row" using book_shows [OF assms(1,2) b] by blast
  show ?thesis
  proof (cases "fill_shown (book_match oid book)")
    case None
    then have zero: "filled v oid = 0" using book_truth [OF assms(1) b row] row by auto
    then have "\<not> 0 < q" using t by auto
    then show ?thesis using same zero t by auto
  next
    case (Some pq)
    then have "(p, q) = pq" using assms(3) b by (cases pq) (simp add: Let_def)
    then show ?thesis using same shown_true [OF assms(1) b, of oid p q] book_priced [OF assms(1) b, of oid p q] Some by simp
  qed
qed

lemma confirm_known:
  assumes "good v" and "known v oid" and "over v oid" and "confirm_cancel ops (Suc n) oid fb v = ((c, p, q), v')"
  shows "v' = v \<and> filled v oid = q \<and> (0 < q \<longrightarrow> 0 < p)"
proof -
  have same: "v' = v" using confirm_answers [OF assms] by simp
  note t = confirm_true [OF assms(1,4), unfolded same]
  obtain book where b: "vo_book ops v = (Some book, v)" using book_answers [OF assms(1)] by blast
  obtain row where row: "book_match oid book = Some row" using book_shows [OF assms(1,2) b] by blast
  show ?thesis
  proof (cases "fill_shown (book_match oid book)")
    case None
    then have zero: "filled v oid = 0" using book_truth [OF assms(1) b row] row by auto
    then have "\<not> 0 < q" using t by auto
    then show ?thesis using same zero t by auto
  next
    case (Some pq)
    then have "(p, q) = pq" using assms(4) b by (cases pq) (simp add: Let_def)
    then show ?thesis using same shown_true [OF assms(1) b, of oid p q] book_priced [OF assms(1) b, of oid p q] Some by simp
  qed
qed

text \<open>The order of a leg is read back as it is, and kept when it filled.\<close>

lemma confirm_leg_accounts:
  assumes "good (lg_venue s)" and "known (lg_venue s) oid" and "confirm_leg ops spec oid s = (a, s')"
  shows "good (lg_venue s') \<and> filled (lg_venue s') = filled (lg_venue s)
    \<and> (filled (lg_venue s) oid \<le> RiskGate.EPS9 \<and> lg_fills s' = lg_fills s
       \<or> 0 < filled (lg_venue s) oid \<and> (\<exists>p q. lg_fills s' = dict_set (sp_key spec) \<lparr>fi_price = p, fi_quantity = q, fi_order = oid\<rparr> (lg_fills s)
            \<and> q \<le> fadd (filled (lg_venue s) oid) RiskGate.EPS9 \<and> (filled (lg_venue s) oid \<le> q \<or> q = sp_quantity spec)))"
proof -
  let ?v = "lg_venue s" and ?x = "filled (lg_venue s) oid"
  obtain p q m readable v where r: "resolve_fill_with_status ops FILL_POLL_ATTEMPTS oid 0 None ?v = ((p, q, m, readable), v)" by (metis prod.exhaust)
  have k: "v = ?v" "?x = q" "0 < q \<Longrightarrow> 0 < p"
    using resolve_known [OF assms(1,2), of 2 0 None p q m readable v] r by (simp_all add: FILL_POLL_ATTEMPTS_def numeral_3_eq_3)
  have q0: "0 \<le> q" "\<not> 0 < q \<Longrightarrow> p = 0"
    using resolve_true [OF assms(1) r] resolve_fallback [OF r] by auto
  have fl: "fl ?x = ?x" using filled_float [OF assms(1)] by (simp add: is64_def)
  have ge: "?x \<le> fadd ?x RiskGate.EPS9" using fadd_ge_left [OF fl] RiskGate.EPS9_pos by simp
  show ?thesis
  proof (cases "sp_quantity spec \<le> fadd q RiskGate.EPS9 \<and> 0 < p")
    case True
    then have "0 < q" using q0 by (cases "0 < q") auto
    moreover have "s' = s\<lparr>lg_fills := dict_set (sp_key spec) \<lparr>fi_price = py_round2 p, fi_quantity = sp_quantity spec, fi_order = oid\<rparr> (lg_fills s)\<rparr>"
      using assms(3) r k True by (simp add: confirm_leg_def)
    moreover have "sp_quantity spec \<le> fadd ?x RiskGate.EPS9" using True k by simp
    ultimately show ?thesis using assms(1) k by auto
  next
    case False
    obtain w where w: "vo_cancel ops oid ?v = (True, w)" "known w oid" using cancel_answers [OF assms(1,2)] by blast
    obtain c lp lq w' where u: "cancel_unfilled ops FILL_POLL_ATTEMPTS oid p ?v = ((c, lp, lq), w')" by (metis prod.exhaust)
    then have "confirm_cancel ops (Suc 2) oid p w = ((c, lp, lq), w')" using w by (simp add: cancel_unfilled_def FILL_POLL_ATTEMPTS_def numeral_3_eq_3)
    note late = confirm_known [OF cancel_good [OF assms(1) w(1)] w(2) cancel_ends [OF assms(1) w(1)] this]
    have st: "filled w = filled ?v" "good w" using cancel_still [OF assms(1) w(1)] cancel_good [OF assms(1) w(1)] by simp_all
    have l: "w' = w" "lq = q" "0 < lq \<Longrightarrow> 0 < lp" using late st k by auto
    show ?thesis
    proof (cases "RiskGate.EPS9 < q")
      case True
      then have pos: "0 < q" using RiskGate.EPS9_pos by simp
      then have fills: "lg_venue s' = w \<and> lg_fills s' = dict_set (sp_key spec) \<lparr>fi_price = py_round2 lp, fi_quantity = min q (sp_quantity spec), fi_order = oid\<rparr> (lg_fills s)"
        using False assms(3) r k u l True by (auto simp: confirm_leg_def stop_leg_def Let_def)
      moreover have "min q (sp_quantity spec) \<le> fadd ?x RiskGate.EPS9" using ge k by simp
      moreover have "?x \<le> min q (sp_quantity spec) \<or> min q (sp_quantity spec) = sp_quantity spec" using k by auto
      ultimately show ?thesis using st pos k by blast
    next
      case dust: False
      then have "lg_venue s' = w \<and> lg_fills s' = lg_fills s"
        using False assms(3) r k u l by (auto simp: confirm_leg_def stop_leg_def Let_def)
      then show ?thesis using st dust k by simp
    qed
  qed
qed

lemma accounted_unused:
  assumes "accounted filled specs v0 v fills" and "filled v oid = 0"
  shows "filled v0 oid = 0 \<and> (\<forall>k f. dict_get fills k = Some f \<longrightarrow> fi_order f \<noteq> oid)"
proof -
  have "fi_order f \<noteq> oid" if "dict_get fills k = Some f" for k f
  proof -
    have "fill_true filled specs v0 v k f" using assms(1) that by (simp add: accounted_def)
    then show ?thesis using assms(2) by (auto simp: fill_true_def)
  qed
  moreover from this have "filled v oid = filled v0 oid \<or> filled v0 oid = 0 \<and> filled v oid \<le> RiskGate.EPS9"
    using assms(1) unfolding accounted_def by blast
  ultimately show ?thesis using assms(2) by auto
qed

lemma accounted_same: "filled v' = filled v \<Longrightarrow> accounted filled specs v0 v fills \<Longrightarrow> accounted filled specs v0 v' fills"
  by (simp add: accounted_def fill_true_def)

text \<open>One new order joins the accounts: as dust that is not kept, or as a fill kept under a new key.\<close>

lemma accounted_old:
  assumes "accounted filled specs v0 v fills" and "filled v oid = 0" and "\<forall>x. x \<noteq> oid \<longrightarrow> filled v' x = filled v x"
  shows "dict_get fills k = Some f \<Longrightarrow> fill_true filled specs v0 v' k f"
    and "x \<noteq> oid \<Longrightarrow> \<forall>k f. dict_get fills k = Some f \<longrightarrow> fi_order f \<noteq> x \<Longrightarrow>
      filled v' x = filled v0 x \<or> filled v0 x = 0 \<and> filled v' x \<le> RiskGate.EPS9"
proof -
  assume f: "dict_get fills k = Some f"
  then have "fi_order f \<noteq> oid" using accounted_unused [OF assms(1,2)] by blast
  then have "filled v' (fi_order f) = filled v (fi_order f)" using assms(3) by simp
  then show "fill_true filled specs v0 v' k f" using assms(1) f by (simp add: accounted_def fill_true_def)
next
  assume "x \<noteq> oid" "\<forall>k f. dict_get fills k = Some f \<longrightarrow> fi_order f \<noteq> x"
  then show "filled v' x = filled v0 x \<or> filled v0 x = 0 \<and> filled v' x \<le> RiskGate.EPS9"
    using assms(1,3) by (simp add: accounted_def)
qed

lemma accounted_dust:
  assumes "accounted filled specs v0 v fills" and "filled v oid = 0" and "\<forall>x. x \<noteq> oid \<longrightarrow> filled v' x = filled v x" and "filled v' oid \<le> RiskGate.EPS9"
  shows "accounted filled specs v0 v' fills"
  unfolding accounted_def
proof (intro conjI allI impI)
  fix k f assume "dict_get fills k = Some f"
  then show "fill_true filled specs v0 v' k f" by (rule accounted_old(1) [OF assms(1-3)])
next
  fix x assume x: "\<forall>k f. dict_get fills k = Some f \<longrightarrow> fi_order f \<noteq> x"
  show "filled v' x = filled v0 x \<or> filled v0 x = 0 \<and> filled v' x \<le> RiskGate.EPS9"
    using accounted_old(2) [OF assms(1-3) _ x] accounted_unused [OF assms(1,2)] assms(4) by (cases "x = oid") auto
next
  fix k k' f f' assume "dict_get fills k = Some f" "dict_get fills k' = Some f'" "fi_order f = fi_order f'"
  then show "k = k'" using assms(1) unfolding accounted_def by blast
qed

lemma accounted_fill:
  assumes "accounted filled specs v0 v fills" and "filled v oid = 0" and "\<forall>x. x \<noteq> oid \<longrightarrow> filled v' x = filled v x" and "dict_get fills key = None"
    and "0 < filled v' oid" and "q \<le> fadd (filled v' oid) RiskGate.EPS9"
    and "filled v' oid \<le> q \<or> (\<exists>spec \<in> set specs. sp_key spec = key \<and> q = sp_quantity spec)"
  shows "accounted filled specs v0 v' (dict_set key \<lparr>fi_price = p, fi_quantity = q, fi_order = oid\<rparr> fills)"
  unfolding accounted_def
proof (intro conjI allI impI)
  let ?f = "\<lparr>fi_price = p, fi_quantity = q, fi_order = oid\<rparr>"
  fix k f assume f: "dict_get (dict_set key ?f fills) k = Some f"
  show "fill_true filled specs v0 v' k f"
  proof (cases "k = key")
    case True
    then have "f = ?f" using f by simp
    then show ?thesis using True assms(5-7) accounted_unused [OF assms(1,2)] by (auto simp: fill_true_def)
  next
    case False
    then show ?thesis using f accounted_old(1) [OF assms(1-3)] by simp
  qed
next
  let ?f = "\<lparr>fi_price = p, fi_quantity = q, fi_order = oid\<rparr>"
  fix x assume x: "\<forall>k f. dict_get (dict_set key ?f fills) k = Some f \<longrightarrow> fi_order f \<noteq> x"
  have "x \<noteq> oid" using x [rule_format, of key ?f] by simp
  moreover have "fi_order f \<noteq> x" if "dict_get fills k = Some f" for k f
    using x [rule_format, of k f] that assms(4) by (cases "k = key") auto
  ultimately show "filled v' x = filled v0 x \<or> filled v0 x = 0 \<and> filled v' x \<le> RiskGate.EPS9"
    using accounted_old(2) [OF assms(1-3)] by blast
next
  let ?f = "\<lparr>fi_price = p, fi_quantity = q, fi_order = oid\<rparr>"
  fix k k' f f' assume f: "dict_get (dict_set key ?f fills) k = Some f" "dict_get (dict_set key ?f fills) k' = Some f'" "fi_order f = fi_order f'"
  have new: "fi_order g \<noteq> oid" if "dict_get fills j = Some g" for j g using accounted_unused [OF assms(1,2)] that by blast
  show "k = k'"
  proof (cases "k = key \<or> k' = key")
    case True
    then show ?thesis using f new [of k' f'] new [of k f] by (auto split: if_splits)
  next
    case False
    then have "dict_get fills k = Some f" "dict_get fills k' = Some f'" using f by simp_all
    then show ?thesis using assms(1) f(3) unfolding accounted_def by blast
  qed
qed

lemma place_leg_accounts:
  assumes "good (lg_venue s)" and "accounted filled specs v0 (lg_venue s) (lg_fills s)" and "i < length specs"
    and "dict_get (lg_fills s) (sp_key (specs ! i)) = None" and "place_leg ops band prices product tag specs i seq s = (a, s')"
  shows "good (lg_venue s') \<and> accounted filled specs v0 (lg_venue s') (lg_fills s')
    \<and> (\<forall>k. k \<noteq> sp_key (specs ! i) \<longrightarrow> dict_get (lg_fills s') k = dict_get (lg_fills s) k)"
  using assms(5)
proof (cases rule: place_leg_cases)
  case nothing
  then show ?thesis using assms(1,2) by simp
next
  case (raised r e)
  then show ?thesis using place_answers [OF assms(1) raised(2)] by simp
next
  case (refused r oid st)
  have new: "filled (lg_venue s) oid = 0" "\<forall>x. x \<noteq> oid \<longrightarrow> filled (lg_venue s') x = filled (lg_venue s) x"
    using place_new [OF assms(1) refused(2)] refused(1) by auto
  have "filled (lg_venue s') oid = 0"
    using place_refused [OF assms(1) refused(2)] place_named [OF assms(1) refused(2)] refused(1,3) by auto
  then show ?thesis using accounted_dust [OF assms(2) new] RiskGate.EPS9_pos place_good [OF assms(1) refused(2)] refused(4) by simp
next
  case (placed r oid st v)
  have new: "filled (lg_venue s) oid = 0" "\<forall>x. x \<noteq> oid \<longrightarrow> filled v x = filled (lg_venue s) x"
    using place_new [OF assms(1) placed(2)] placed(1) by auto
  have gv: "good (lg_venue (s\<lparr>lg_venue := v\<rparr>))" "known (lg_venue (s\<lparr>lg_venue := v\<rparr>)) oid"
    using place_good [OF assms(1) placed(2)] place_answers [OF assms(1) placed(2)] by simp_all
  let ?spec = "specs ! i"
  note e = confirm_leg_accounts [OF gv placed(4), simplified]
  then consider (dust) "filled v oid \<le> RiskGate.EPS9" "lg_fills s' = lg_fills s"
    | (kept) p' q where "0 < filled v oid" "lg_fills s' = dict_set (sp_key ?spec) \<lparr>fi_price = p', fi_quantity = q, fi_order = oid\<rparr> (lg_fills s)"
        "q \<le> fadd (filled v oid) RiskGate.EPS9" "filled v oid \<le> q \<or> q = sp_quantity ?spec" by blast
  then show ?thesis
  proof cases
    case dust
    then show ?thesis using accounted_same [OF _ accounted_dust [OF assms(2) new dust(1)], of "lg_venue s'"] e by simp
  next
    case kept
    have "filled v oid \<le> q \<or> (\<exists>spec \<in> set specs. sp_key spec = sp_key ?spec \<and> q = sp_quantity spec)"
      using kept(4) assms(3) nth_mem by blast
    note acc = accounted_fill [OF assms(2) new assms(4) kept(1,3) this, of p']
    show ?thesis using accounted_same [OF _ acc, of "lg_venue s'"] e kept(2) by simp
  qed
qed

lemma run_legs_accounts:
  assumes "good (lg_venue s)" and "accounted filled specs v0 (lg_venue s) (lg_fills s)" and "distinct is" and "set is \<subseteq> {..<length specs}"
    and "distinct (map sp_key specs)" and "\<forall>i \<in> set is. dict_get (lg_fills s) (sp_key (specs ! i)) = None"
    and "run_legs (place_leg ops band prices product tag specs) sides exiting seq is stopped s = (r, s')"
  shows "good (lg_venue s') \<and> accounted filled specs v0 (lg_venue s') (lg_fills s')"
  using assms
proof (induction "is" arbitrary: seq stopped s r)
  case (Cons i "is")
  show ?case
  proof (cases stopped)
    case (Some st)
    then show ?thesis using stopped_run Cons.prems(1,2,7) by metis
  next
    case None
    obtain a s1 where p: "place_leg ops band prices product tag specs i seq s = (a, s1)" by fastforce
    have i: "i < length specs" "dict_get (lg_fills s) (sp_key (specs ! i)) = None" using Cons.prems(4,6) by simp_all
    note one = place_leg_accounts [OF Cons.prems(1,2) i p]
    have other: "sp_key (specs ! j) \<noteq> sp_key (specs ! i)" if "j \<in> set is" for j
      using that Cons.prems(3-5) nth_eq_iff_index_eq [of "map sp_key specs" j i] by (auto simp: subset_iff)
    have "\<forall>j \<in> set is. dict_get (lg_fills s1) (sp_key (specs ! j)) = None" using one other Cons.prems(6) by simp
    then have ih: "run_legs (place_leg ops band prices product tag specs) sides exiting (Suc seq) is st s1 = (r1, s') \<Longrightarrow>
        good (lg_venue s') \<and> accounted filled specs v0 (lg_venue s') (lg_fills s')" for st r1
      using Cons.IH [of s1 "Suc seq" st r1] one Cons.prems(3-5) by simp
    show ?thesis
      using Cons.prems(7) None p one ih by (cases a) (auto simp: Let_def split: prod.splits)
  qed
qed auto

lemma place_legs_accounts:
  assumes "good v" and "distinct (map sp_key specs)" and "place_legs ops band prices product tag specs v = (Some out, v')"
  shows "good v' \<and> accounted filled specs v v' (lr_fills out)"
proof -
  let ?s = "\<lparr>lg_venue = v, lg_fills = [], lg_failure = None, lg_uncertain = []\<rparr>"
  obtain r s where r: "run_legs (place_leg ops band prices product tag specs) (map sp_side specs) False 1 (entry_sequence (map sp_side specs)) None ?s = (r, s)"
    by fastforce
  have i: "set (entry_sequence (map sp_side specs)) \<subseteq> {..<length specs}" by (auto simp: entry_sequence_def in_indexes_where)
  have "good (lg_venue s) \<and> accounted filled specs v (lg_venue s) (lg_fills s)"
    by (rule run_legs_accounts [OF _ _ distinct_sequences(1) i assms(2) _ r]) (use assms(1) in \<open>simp_all add: accounted_def\<close>)
  then show ?thesis using assms(3) r by (auto simp: place_legs_def run_def Let_def split: option.splits)
qed

end

section \<open>The practice venue\<close>

interpretation paper_legs: leg_venue "paper_ops cfg" "\<lambda>px. paper_cfg_ok cfg \<and> paper_inv px" paper_filled paper_over
    "\<lambda>px ref. dict_get (px_by_ref px) ref \<noteq> None" "\<lambda>px oid. dict_get (px_orders px) oid \<noteq> None" for cfg
proof unfold_locales
  fix v r oid st v'
  assume g: "paper_cfg_ok cfg \<and> paper_inv v" and p: "vo_place (paper_ops cfg) r v = (Placed oid st, v')"
  have inv: "paper_inv v'" using paper.place_good [OF g p] by simp
  obtain row where row: "dict_get (px_orders v') oid = Some row" "bk_status row = st"
    using paper_answer_row [OF g, of r oid st v'] p by (auto simp: paper_ops_def)
  then have "bk_id row = oid" "row_ok row" "oid \<in> paper_id ` {..<px_next_order v'}" using inv by (auto simp: paper_inv_def paper_core_def)
  moreover have "py_upper ''OPEN'' = ''OPEN''" "py_upper ''COMPLETE'' = ''COMPLETE''" "py_upper ''REJECTED'' = ''REJECTED''" "py_upper ''CANCELLED'' = ''CANCELLED''"
    by code_simp+
  ultimately show "oid \<noteq> [] \<and> py_upper st = st" using row(2) by (auto simp: row_ok_def paper_id_def)
next
  fix v book v' oid p q
  assume g: "paper_cfg_ok cfg \<and> paper_inv v" and b: "vo_book (paper_ops cfg) v = (Some book, v')" and f: "fill_shown (book_match oid book) = Some (p, q)"
  obtain row where row: "book_match oid book = Some row" using f by (cases "book_match oid book") (simp_all add: fill_shown_def)
  have "dict_get (px_orders v) oid = Some row" using book_match_order_book [of v oid] b row g by (auto simp: paper_ops_def paper_inv_def)
  then have "row_ok row" using g by (auto simp: paper_inv_def paper_core_def)
  then show "0 < p" using f row by (auto simp: fill_shown_def row_ok_def split: option.splits if_splits)
qed

text \<open>The exchange of a new order: nothing but the prices it was told.\<close>

definition marked :: "(string \<times> string \<times> pyfloat) list \<Rightarrow> paper_exchange" where
  "marked marks = fold (\<lambda>(s, e, p). paper_mark s e p) marks new_paper"

lemma marked_facts:
  "list_all (\<lambda>(s, e, p). 0 < fl p) marks \<Longrightarrow> paper_inv (marked marks) \<and> paper_filled (marked marks) oid = 0"
proof -
  have "paper_inv px \<Longrightarrow> px_orders px = [] \<Longrightarrow> list_all (\<lambda>(s, e, p). 0 < fl p) ms \<Longrightarrow>
      paper_inv (fold (\<lambda>(s, e, p). paper_mark s e p) ms px) \<and> px_orders (fold (\<lambda>(s, e, p). paper_mark s e p) ms px) = []" for ms px
  proof (induction ms arbitrary: px)
    case (Cons m ms)
    then show ?case using Cons.IH [of "case m of (s, e, p) \<Rightarrow> paper_mark s e p px"] mark_inv [of px]
      by (cases m) (simp add: paper_mark_def)
  qed simp
  from this [OF new_paper_inv] show "list_all (\<lambda>(s, e, p). 0 < fl p) marks \<Longrightarrow> ?thesis"
    by (simp add: marked_def paper_filled_def) (simp add: new_paper_def)
qed

text \<open>
  C8. A structure placed at the practice venue books every fill and only fills: each booked leg is an order
  of its own, traded once, booked as what was traded or as the whole leg (they differ by at most 1e-9), and
  no other order traded more than 1e-9. This is whatever the liquidity, the prices and the part fills are,
  as long as the run comes to an end.
\<close>
theorem structure_books_what_filled:
  assumes "paper_cfg_ok cfg" and "list_all (\<lambda>(s, e, p). 0 < fl p) marks" and "distinct (map sp_key specs)"
    and "place_legs (paper_ops cfg) band prices product tag specs (marked marks) = (Some out, px)"
  shows "(\<forall>k f. dict_get (lr_fills out) k = Some f \<longrightarrow>
            (\<exists>x. trades_of px (fi_order f) = [x] \<and> fi_quantity f \<le> fadd x RiskGate.EPS9
               \<and> (x \<le> fi_quantity f \<or> (\<exists>spec \<in> set specs. sp_key spec = k \<and> fi_quantity f = sp_quantity spec))))
    \<and> (\<forall>k k' f f'. dict_get (lr_fills out) k = Some f \<longrightarrow> dict_get (lr_fills out) k' = Some f' \<longrightarrow> fi_order f = fi_order f' \<longrightarrow> k = k')
    \<and> (\<forall>oid. (\<forall>k f. dict_get (lr_fills out) k = Some f \<longrightarrow> fi_order f \<noteq> oid) \<longrightarrow> (\<forall>x \<in> set (trades_of px oid). x \<le> RiskGate.EPS9))"
proof -
  have g: "paper_cfg_ok cfg \<and> paper_inv (marked marks)" using assms(1) marked_facts [OF assms(2)] by blast
  have acc: "paper_inv px \<and> accounted paper_filled specs (marked marks) px (lr_fills out)"
    using paper_legs.place_legs_accounts [OF g assms(3,4)] by blast
  have trades: "trades_of px oid = (if paper_filled px oid = 0 then [] else [paper_filled px oid])" for oid
    using acc by (simp add: paper_inv_def paper_core_def)
  have zero: "paper_filled (marked marks) oid = 0" for oid using marked_facts [OF assms(2)] by blast
  show ?thesis
  proof (intro conjI allI impI)
    fix k f assume "dict_get (lr_fills out) k = Some f"
    then have "fill_true paper_filled specs (marked marks) px k f" using acc by (simp add: accounted_def)
    then show "\<exists>x. trades_of px (fi_order f) = [x] \<and> fi_quantity f \<le> fadd x RiskGate.EPS9
               \<and> (x \<le> fi_quantity f \<or> (\<exists>spec \<in> set specs. sp_key spec = k \<and> fi_quantity f = sp_quantity spec))"
      using trades [of "fi_order f"] by (auto simp: fill_true_def)
  next
    fix k k' f f' assume "dict_get (lr_fills out) k = Some f" "dict_get (lr_fills out) k' = Some f'" "fi_order f = fi_order f'"
    then show "k = k'" using acc unfolding accounted_def by blast
  next
    fix oid assume "\<forall>k f. dict_get (lr_fills out) k = Some f \<longrightarrow> fi_order f \<noteq> oid"
    then have "paper_filled px oid = paper_filled (marked marks) oid \<or> paper_filled px oid \<le> RiskGate.EPS9"
      using acc unfolding accounted_def by blast
    then have "paper_filled px oid = 0 \<or> paper_filled px oid \<le> RiskGate.EPS9" using zero by simp
    then show "\<forall>x \<in> set (trades_of px oid). x \<le> RiskGate.EPS9" using trades [of oid] by auto
  qed
qed

section \<open>Concrete structures\<close>

definition ex_leg :: "string \<Rightarrow> string \<Rightarrow> leg_spec" where
  "ex_leg key side = \<lparr>sp_key = key, sp_exchange = ''NFO'', sp_side = side, sp_role = (if side = ''BUY'' then ''LONG'' else ''SHORT''), sp_quantity = 50,
     sp_index = 0, sp_instrument = None, sp_ratio = 1\<rparr>"

theorem structure_books_what_filled_witness:
  "\<exists>out px. place_legs (paper_ops (ex_paper None)) None [] ''NRML'' (\<lambda>_. None) [ex_leg ''A'' ''BUY''] (marked [(''A'', ''NFO'', 100)]) = (Some out, px)
     \<and> dict_get (lr_fills out) ''A'' = Some \<lparr>fi_price = 100, fi_quantity = 50, fi_order = ''PAPER-1''\<rparr>
     \<and> (\<exists>x. trades_of px ''PAPER-1'' = [x] \<and> 50 \<le> fadd x RiskGate.EPS9)"
proof -
  let ?run = "place_legs (paper_ops (ex_paper None)) None [] ''NRML'' (\<lambda>_. None) [ex_leg ''A'' ''BUY''] (marked [(''A'', ''NFO'', 100)])"
  let ?f = "\<lparr>fi_price = 100, fi_quantity = 50, fi_order = ''PAPER-1''\<rparr>"
  let ?out = "\<lparr>lr_state = RunComplete, lr_fills = [(''A'', ?f)], lr_pending = [], lr_failure = None, lr_uncertain = [], lr_reasons = []\<rparr>"
  have res: "fst ?run = Some ?out" by code_simp
  obtain px where run: "?run = (Some ?out, px)" using res by (metis prod.exhaust fst_conv)
  have marks: "list_all (\<lambda>(s, e, p). 0 < fl p) [(''A'', ''NFO'', 100::pyfloat)]" by code_simp
  have "distinct (map sp_key [ex_leg ''A'' ''BUY''])" by simp
  note books = structure_books_what_filled [OF ex_paper_ok marks this run, THEN conjunct1]
  have kept: "dict_get (lr_fills ?out) ''A'' = Some ?f" by code_simp
  then have "\<exists>x. trades_of px (fi_order ?f) = [x] \<and> fi_quantity ?f \<le> fadd x RiskGate.EPS9" using books by blast
  then show ?thesis using run kept by (intro exI [of _ ?out] exI [of _ px]) simp
qed


text \<open>A broker that takes no market orders and fills every order at once; its state is the orders it took.\<close>

definition instant_row :: "nat \<Rightarrow> order_request \<Rightarrow> book_row" where
  "instant_row n r = \<lparr>bk_id = ''B'' @ show_nat n, bk_symbol = or_symbol r, bk_side = or_side r, bk_quantity = or_quantity r, bk_filled = or_quantity r,
     bk_type = or_type r, bk_status = ''COMPLETE'', bk_price = or_price r, bk_average = Some 100, bk_tag = None, bk_product = None, bk_exchange = None\<rparr>"

definition instant_broker :: "order_request list venue_ops" where
  "instant_broker = \<lparr>vo_name = ''broker'', vo_venue = None, vo_paper = False, vo_market_ok = False, vo_stop_market = True, vo_stop_market_on_options = True,
     vo_records_circuit = True, vo_place = (\<lambda>r v. (Placed (''B'' @ show_nat (length v)) ''COMPLETE'', v @ [r])),
     vo_book = (\<lambda>v. (Some (map (\<lambda>(n, r). instant_row n r) (enumerate 0 v)), v)), vo_cancel = (\<lambda>oid v. (True, v))\<rparr>"

text \<open>
  A leg without a price loses the fills before it. At a broker that takes no market orders a structure
  whose sold leg has no price raises out of place_legs after the bought leg was sent and filled: no result
  comes back, so the 50 units bought are booked nowhere. The check for a missing price comes after the limit
  was computed from it, and the computation raises.
\<close>
theorem missing_price_loses_the_fills:
  "let (result, sent) = place_legs instant_broker (Some 1) [(''A'', 100)] ''NRML'' (\<lambda>_. None) [ex_leg ''B'' ''SELL'', ex_leg ''A'' ''BUY''] []
   in result = None \<and> map (\<lambda>r. (or_symbol r, or_side r, or_quantity r)) sent = [(''A'', BUY, 50)]"
  by code_simp

text \<open>
  A broker that fills the whole order while the cancel is on its way: state 1 is the working order with
  nothing filled, state 2 the order filled in full.
\<close>

definition during_row :: "nat \<Rightarrow> book_row" where
  "during_row v = \<lparr>bk_id = ''B1'', bk_symbol = ''A'', bk_side = BUY, bk_quantity = 50, bk_filled = (if v = 2 then 50 else 0), bk_type = ''MARKET'',
     bk_status = (if v = 2 then ''COMPLETE'' else ''OPEN''), bk_price = None, bk_average = (if v = 2 then Some 100 else None), bk_tag = None,
     bk_product = None, bk_exchange = None\<rparr>"

definition during_broker :: "nat venue_ops" where
  "during_broker = \<lparr>vo_name = ''broker'', vo_venue = None, vo_paper = False, vo_market_ok = True, vo_stop_market = True, vo_stop_market_on_options = True,
     vo_records_circuit = True, vo_place = (\<lambda>r v. (Placed ''B1'' ''OPEN'', 1)), vo_book = (\<lambda>v. (Some (if v = 0 then [] else [during_row v]), v)),
     vo_cancel = (\<lambda>oid v. (True, if v = 0 then 0 else 2))\<rparr>"

text \<open>
  A structure that is whole is left INCOMPLETE with nothing to complete: when its last leg fills in full
  while the unfilled order is being cancelled, the leg is booked in full and the state is INCOMPLETE with no
  leg pending, and the broker is reported as uncertain although its book shows the order complete.
\<close>
theorem whole_structure_left_incomplete:
  "fst (place_legs during_broker None [] ''NRML'' (\<lambda>_. None) [ex_leg ''A'' ''BUY''] 0)
   = Some \<lparr>lr_state = RunIncomplete, lr_fills = [(''A'', \<lparr>fi_price = 100, fi_quantity = 50, fi_order = ''B1''\<rparr>)], lr_pending = [],
       lr_failure = Some (PartFilled ''A'' 50), lr_uncertain = [CancelNotConfirmed ''A''], lr_reasons = [(''A'', [PartFilled ''A'' 50])]\<rparr>"
  by code_simp

end
