(* ===== verification/LiveLegs.thy ===== *)
theory LiveLegs
  imports MultiLeg
begin

text \<open>
  The older LIVE path of a structure, \<open>_place_live_legs\<close> and \<open>_unwind\<close> of \<open>app/execution/multileg.py\<close>: the
  wings first, then the shorts, each read back from the broker's book; the first leg that does not fill is
  cancelled and every fill is reversed. Tags and sentences are left out.
\<close>

section \<open>Placing and unwinding\<close>

definition live_request :: "string \<Rightarrow> (leg_spec \<Rightarrow> string option) \<Rightarrow> leg_spec \<Rightarrow> order_request" where
  "live_request product tag spec =
     \<lparr>or_symbol = sp_key spec, or_exchange = sp_exchange spec, or_side = (if sp_side spec = ''BUY'' then BUY else SELL), or_quantity = sp_quantity spec,
      or_type = ''MARKET'', or_product = product, or_price = None, or_trigger = None, or_validity = ''DAY'', or_tag = tag spec, or_intent = Some ''ENTRY'',
      or_client_ref = None, or_protection_pct = None\<rparr>"

definition reverse_request :: "string \<Rightarrow> (leg_spec \<Rightarrow> string option) \<Rightarrow> leg_spec \<times> pyfloat \<Rightarrow> order_request" where
  "reverse_request product tag = (\<lambda>(spec, filled).
     \<lparr>or_symbol = sp_key spec, or_exchange = sp_exchange spec, or_side = (if sp_side spec = ''BUY'' then SELL else BUY),
      or_quantity = (if 0 < filled then filled else sp_quantity spec), or_type = ''MARKET'', or_product = product, or_price = None, or_trigger = None,
      or_validity = ''DAY'', or_tag = tag spec, or_intent = None, or_client_ref = None, or_protection_pct = None\<rparr>)"

definition unwind_order :: "(leg_spec \<times> pyfloat) list \<Rightarrow> (leg_spec \<times> pyfloat) list" where
  "unwind_order placed = sort_key (\<lambda>(spec, q). if sp_role spec = ''SHORT'' then 0 else (1::nat)) placed"

fun unwind_each :: "'v venue_ops \<Rightarrow> string \<Rightarrow> (leg_spec \<Rightarrow> string option) \<Rightarrow> (leg_spec \<times> pyfloat) list \<Rightarrow> 'v \<Rightarrow> nat \<times> 'v" where
  "unwind_each ops product tag [] v = (0, v)"
| "unwind_each ops product tag (x # xs) v =
     (let (a, v') = vo_place ops (reverse_request product tag x) v;
          (n, v'') = unwind_each ops product tag xs v' in
      (case a of Placed oid st \<Rightarrow> Suc n | PlaceRaised e \<Rightarrow> n, v''))"

definition unwind :: "'v venue_ops \<Rightarrow> string \<Rightarrow> (leg_spec \<Rightarrow> string option) \<Rightarrow> (leg_spec \<times> pyfloat) list \<Rightarrow> 'v \<Rightarrow> nat \<times> 'v" where
  "unwind ops product tag placed v = unwind_each ops product tag (unwind_order placed) v"

record live_run =
  ll_ok :: bool
  ll_fills :: "(string, pyfloat \<times> string) dict"
  ll_placed :: "(leg_spec \<times> pyfloat) list"
  ll_unwound :: nat

text \<open>\<open>_fail\<close>: the leg's order is cancelled and looked at again; what it filled is unwound with the rest.\<close>

definition late_fill :: "'v venue_ops \<Rightarrow> leg_spec \<Rightarrow> string option \<Rightarrow> pyfloat \<Rightarrow> (leg_spec \<times> pyfloat) list \<Rightarrow> 'v \<Rightarrow> (leg_spec \<times> pyfloat) list \<times> 'v" where
  "late_fill ops spec oid known placed v =
     (if truthy oid then
        (let (accepted, v1) = vo_cancel ops (the oid) v;
             ((price, late, m, readable), v2) = resolve_fill_with_status ops FILL_POLL_ATTEMPTS (the oid) 0 None v1;
             got = max late known in
         (if 0 < got then placed @ [(spec, got)] else placed, v2))
      else (placed, v))"

definition fail_live ::
  "'v venue_ops \<Rightarrow> string \<Rightarrow> (leg_spec \<Rightarrow> string option) \<Rightarrow> (string, pyfloat \<times> string) dict \<Rightarrow> (leg_spec \<times> pyfloat) list \<Rightarrow> leg_spec
     \<Rightarrow> string option \<Rightarrow> pyfloat \<Rightarrow> 'v \<Rightarrow> live_run \<times> 'v" where
  "fail_live ops product tag fills placed spec oid known v =
     (let (placed', v1) = late_fill ops spec oid known placed v;
          (n, v2) = unwind ops product tag placed' v1 in
      (\<lparr>ll_ok = False, ll_fills = fills, ll_placed = placed', ll_unwound = n\<rparr>, v2))"

text \<open>The loop over the legs, each with whether it is a wing.\<close>

fun live_legs ::
  "'v venue_ops \<Rightarrow> bool \<Rightarrow> string \<Rightarrow> (leg_spec \<Rightarrow> string option) \<Rightarrow> (leg_spec \<Rightarrow> string option) \<Rightarrow> (bool \<times> leg_spec) list
     \<Rightarrow> (string, pyfloat \<times> string) dict \<Rightarrow> (leg_spec \<times> pyfloat) list \<Rightarrow> 'v \<Rightarrow> live_run \<times> 'v" where
  "live_legs ops strict product tag exit_tag [] fills placed v = (\<lparr>ll_ok = True, ll_fills = fills, ll_placed = placed, ll_unwound = 0\<rparr>, v)"
| "live_legs ops strict product tag exit_tag ((wing, spec) # legs) fills placed v =
     (case vo_place ops (live_request product tag spec) v of
        (PlaceRaised e, v1) \<Rightarrow> fail_live ops product exit_tag fills placed spec None 0 v1
      | (Placed oid st, v1) \<Rightarrow>
          (if py_upper st \<in> {''REJECTED'', ''CANCELLED''} then fail_live ops product exit_tag fills placed spec None 0 v1
           else
             (let ((price, filled, m, readable), v2) = resolve_fill_with_status ops FILL_POLL_ATTEMPTS oid 0 None v1 in
              if filled \<le> 0 \<or> price \<le> 0 then fail_live ops product exit_tag fills placed spec (Some oid) 0 v2
              else if wing \<and> strict \<and> \<not> wing_fill_complete (sp_quantity spec) filled then
                fail_live ops product exit_tag fills placed spec (Some oid) filled v2
              else live_legs ops strict product tag exit_tag legs (dict_set (sp_key spec) (py_round2 price, oid) fills) (placed @ [(spec, filled)]) v2)))"

definition legs_of_role :: "string \<Rightarrow> leg_spec list \<Rightarrow> leg_spec list" where
  "legs_of_role role legs = filter (\<lambda>l. sp_role l = role) legs"

definition live_order :: "leg_spec list \<Rightarrow> (bool \<times> leg_spec) list" where
  "live_order legs = map (Pair True) (legs_of_role ''LONG'' legs) @ map (Pair False) (legs_of_role ''SHORT'' legs)"

definition place_live_legs ::
  "'v venue_ops \<Rightarrow> bool \<Rightarrow> string \<Rightarrow> (leg_spec \<Rightarrow> string option) \<Rightarrow> (leg_spec \<Rightarrow> string option) \<Rightarrow> leg_spec list \<Rightarrow> 'v \<Rightarrow> live_run \<times> 'v" where
  "place_live_legs ops strict product tag exit_tag legs v = live_legs ops strict product tag exit_tag (live_order legs) [] [] v"

text \<open>
  The quantity \<open>_book_legs\<close> books for a leg with a fill: the filled quantity where the caller passes one (the
  engine does, from \<open>LegsRun.fills\<close>), else the quantity of the leg (this path).
\<close>

definition booked_quantity :: "(string, pyfloat) dict \<Rightarrow> leg_spec \<Rightarrow> pyfloat" where
  "booked_quantity quantities spec = (case dict_get quantities (sp_key spec) of Some q \<Rightarrow> q | None \<Rightarrow> sp_quantity spec)"

definition book_legs :: "(string, pyfloat) dict \<Rightarrow> (string, pyfloat \<times> string) dict \<Rightarrow> leg_spec list \<Rightarrow> (string \<times> pyfloat \<times> pyfloat) list" where
  "book_legs quantities fills legs =
     concat (map (\<lambda>spec. case dict_get fills (sp_key spec) of
        None \<Rightarrow> [] | Some (price, oid) \<Rightarrow> [(sp_key spec, booked_quantity quantities spec, price)]) legs)"

section \<open>The orders that are sent\<close>











text \<open>
  A partly filled short is booked whole. At a broker that fills 20 of the 50 units of a sold leg and
  keeps the rest working, the LIVE path reports success, books 50, and leaves the order open at the broker.
\<close>
theorem partial_short_booked_whole:
  "let (res, v) = place_live_legs late_broker True ''NRML'' (\<lambda>_. None) (\<lambda>_. None) [ex_leg ''ABC'' ''SELL''] 0 in
   ll_ok res \<and> book_legs [] (ll_fills res) [ex_leg ''ABC'' ''SELL''] = [(''ABC'', 50, 100)]
   \<and> late_filled v ''B1'' = 20 \<and> bk_status (late_row v) = ''OPEN''"
  by code_simp

end
