(* ===== verification/IncompleteOrder.thy ===== *)
theory IncompleteOrder
  imports MultiLeg
begin

text \<open>
  An incomplete multi-leg order, \<open>app/execution/incomplete_structures.py\<close>: the block every leg of the group
  carries, its compare-and-set, the user's answer, the rule that applies when there is none, the closing of
  the filled legs and the completion of the rest. The closing of a leg (\<open>close_group\<close>), the entry refusals,
  who may act on a trade and the run of the legs (theory MultiLeg) are arguments; messages, the audit rows
  and the times of the history are left out. Times are microseconds.
\<close>

section \<open>The block of a group\<close>

datatype block_state = INCOMPLETE | COMPLETING | COMPLETING_SENT | COMPLETED | CLOSING | CLOSED | KEPT

datatype no_answer = CLOSE_FILLED | KEEP

record incomplete_block =
  ib_state :: block_state
  ib_deadline :: "int option"
  ib_no_answer :: "no_answer option"
  ib_minutes :: "int option"
  ib_live :: bool
  ib_pending :: "leg_spec list"
  ib_round :: int
  ib_answered_by :: "string option"
  ib_history :: "block_state list"

record group_leg =
  gl_id :: int
  gl_tenant :: int
  gl_group :: string
  gl_user :: int
  gl_open :: bool
  gl_block :: "incomplete_block option"

definition PAUSED :: "block_state list" where
  "PAUSED = [INCOMPLETE, COMPLETING, COMPLETING_SENT, CLOSING, KEPT]"

definition MINUTE :: int where "MINUTE = 60000000"

text \<open>His own rule: deadline, choice and minutes, or nothing when either part is not set.\<close>

record answer_settings =
  as_choice :: "no_answer option"
  as_minutes :: "int option"

definition no_answer_rule :: "answer_settings \<Rightarrow> int \<Rightarrow> int option \<times> no_answer option \<times> int option" where
  "no_answer_rule settings now =
     (case (as_choice settings, as_minutes settings) of
        (Some c, Some m) \<Rightarrow> (Some (now + m * MINUTE), Some c, Some m)
      | _ \<Rightarrow> (None, None, None))"

definition new_block :: "bool \<Rightarrow> leg_spec list \<Rightarrow> answer_settings \<Rightarrow> int \<Rightarrow> int \<Rightarrow> incomplete_block" where
  "new_block live pending settings round_no now =
     (let (deadline, choice, minutes) = no_answer_rule settings now in
      \<lparr>ib_state = INCOMPLETE, ib_deadline = deadline, ib_no_answer = choice, ib_minutes = minutes, ib_live = live, ib_pending = pending,
       ib_round = round_no, ib_answered_by = None, ib_history = []\<rparr>)"

definition rules_paused :: "group_leg list \<Rightarrow> bool" where
  "rules_paused legs = (case legs of [] \<Rightarrow> False | leg # _ \<Rightarrow> (case gl_block leg of None \<Rightarrow> False | Some b \<Rightarrow> ib_state b \<in> set PAUSED))"

section \<open>The compare-and-set\<close>

definition group_of :: "group_leg list \<Rightarrow> int \<Rightarrow> string \<Rightarrow> group_leg list" where
  "group_of db tenant gid = filter (\<lambda>r. gl_tenant r = tenant \<and> gl_group r = gid) db"

definition open_legs :: "group_leg list \<Rightarrow> int \<Rightarrow> string \<Rightarrow> group_leg list" where
  "open_legs db tenant gid = filter gl_open (group_of db tenant gid)"

text \<open>What a transition writes once it has read the group: the row it claims with the block that row must still have.\<close>

record block_write =
  bw_first :: int
  bw_old :: incomplete_block
  bw_rest :: "int list"
  bw_new :: incomplete_block

definition read_group ::
  "group_leg list \<Rightarrow> int \<Rightarrow> string \<Rightarrow> block_state list \<Rightarrow> (incomplete_block \<Rightarrow> incomplete_block) \<Rightarrow> block_write option" where
  "read_group db tenant gid expect change =
     (case group_of db tenant gid of
        [] \<Rightarrow> None
      | first # rest \<Rightarrow>
          (case gl_block first of
             None \<Rightarrow> None
           | Some b \<Rightarrow>
               (if ib_state b \<notin> set expect then None
                else
                  (let b' = change b in
                   Some \<lparr>bw_first = gl_id first, bw_old = b, bw_rest = map gl_id rest,
                         bw_new = b'\<lparr>ib_history := ib_history b @ [ib_state b']\<rparr>\<rparr>))))"

definition write_group :: "block_write \<Rightarrow> group_leg list \<Rightarrow> incomplete_block option \<times> group_leg list" where
  "write_group w db =
     (if \<exists>r \<in> set db. gl_id r = bw_first w \<and> gl_block r = Some (bw_old w)
      then (Some (bw_new w), map (\<lambda>r. if gl_id r = bw_first w \<or> gl_id r \<in> set (bw_rest w) then r\<lparr>gl_block := Some (bw_new w)\<rparr> else r) db)
      else (None, db))"

definition transition ::
  "int \<Rightarrow> string \<Rightarrow> block_state list \<Rightarrow> (incomplete_block \<Rightarrow> incomplete_block) \<Rightarrow> group_leg list \<Rightarrow> incomplete_block option \<times> group_leg list" where
  "transition tenant gid expect change db =
     (case read_group db tenant gid expect change of None \<Rightarrow> (None, db) | Some w \<Rightarrow> write_group w db)"

section \<open>Closing the filled legs\<close>

text \<open>\<open>close\<close>: which of the open legs the closing path closes now.\<close>

definition close_filled_now :: "(group_leg list \<Rightarrow> int list) \<Rightarrow> int \<Rightarrow> string \<Rightarrow> group_leg list \<Rightarrow> block_state \<times> group_leg list" where
  "close_filled_now close tenant gid db =
     (let closed = close (open_legs db tenant gid);
          db1 = map (\<lambda>r. if gl_tenant r = tenant \<and> gl_group r = gid \<and> gl_open r \<and> gl_id r \<in> set closed then r\<lparr>gl_open := False\<rparr> else r) db in
      if open_legs db1 tenant gid = []
      then (CLOSED, snd (transition tenant gid [CLOSING] (\<lambda>b. b\<lparr>ib_state := CLOSED\<rparr>) db1))
      else (CLOSING, db1))"

section \<open>The answer of the user\<close>

datatype answer_action = COMPLETE_REST | ANSWER_CLOSE | ANSWER_KEEP
datatype answer_result = UnknownOrder | NotYours | AlreadyAnswered "block_state option" | Answered block_state

definition answer_target :: "answer_action \<Rightarrow> block_state" where
  "answer_target a = (case a of COMPLETE_REST \<Rightarrow> COMPLETING | ANSWER_CLOSE \<Rightarrow> CLOSING | ANSWER_KEEP \<Rightarrow> KEPT)"

definition answer ::
  "(group_leg \<Rightarrow> bool) \<Rightarrow> (group_leg list \<Rightarrow> int list) \<Rightarrow> int \<Rightarrow> string \<Rightarrow> answer_action \<Rightarrow> group_leg list \<Rightarrow> answer_result \<times> group_leg list" where
  "answer may_act close tenant gid action db =
     (case open_legs db tenant gid of
        [] \<Rightarrow> (UnknownOrder, db)
      | leg # legs \<Rightarrow>
          (if gl_block leg = None then (UnknownOrder, db)
           else if \<not> list_all may_act (leg # legs) then (NotYours, db)
           else
             (case transition tenant gid [INCOMPLETE] (\<lambda>b. b\<lparr>ib_state := answer_target action, ib_answered_by := Some ''user''\<rparr>) db of
                (None, db1) \<Rightarrow>
                  (AlreadyAnswered (case group_of db1 tenant gid of [] \<Rightarrow> None | r # _ \<Rightarrow> map_option ib_state (gl_block r)), db1)
              | (Some b, db1) \<Rightarrow>
                  (if action = ANSWER_CLOSE \<and> \<not> ib_live b
                   then (let (st, db2) = close_filled_now close tenant gid db1 in (Answered st, db2))
                   else (Answered (answer_target action), db1)))))"

section \<open>The trading worker\<close>

text \<open>The open groups in a state, in the order of their first leg.\<close>

definition groups_in :: "group_leg list \<Rightarrow> int \<Rightarrow> block_state list \<Rightarrow> string list" where
  "groups_in db tenant states =
     remdups (map gl_group (filter (\<lambda>r. gl_tenant r = tenant \<and> gl_open r \<and> gl_group r \<noteq> [] \<and> (case gl_block r of None \<Rightarrow> False | Some b \<Rightarrow> ib_state b \<in> set states)) db))"

text \<open>His rule for one group past its deadline: the first open leg's block says so.\<close>

definition apply_rule :: "int \<Rightarrow> int \<Rightarrow> string \<Rightarrow> group_leg list \<Rightarrow> group_leg list" where
  "apply_rule tenant now gid db =
     (case filter (\<lambda>r. case gl_block r of None \<Rightarrow> False | Some b \<Rightarrow> ib_state b = INCOMPLETE) (open_legs db tenant gid) of
        [] \<Rightarrow> db
      | leg # _ \<Rightarrow>
          (case gl_block leg of
             None \<Rightarrow> db
           | Some b \<Rightarrow>
               (case ib_deadline b of
                  None \<Rightarrow> db
                | Some d \<Rightarrow>
                    (if now < d then db
                     else snd (transition tenant gid [INCOMPLETE]
                       (\<lambda>x. x\<lparr>ib_state := (if ib_no_answer b = Some KEEP then KEPT else CLOSING), ib_answered_by := Some ''timer''\<rparr>) db)))))"

definition run_exits :: "(group_leg list \<Rightarrow> int list) \<Rightarrow> int \<Rightarrow> int \<Rightarrow> group_leg list \<Rightarrow> group_leg list" where
  "run_exits close tenant now db =
     (let db1 = fold (apply_rule tenant now) (groups_in db tenant [INCOMPLETE]) db in
      fold (\<lambda>gid d. snd (close_filled_now close tenant gid d)) (groups_in db1 tenant [CLOSING]) db1)"

text \<open>\<open>back\<close>: INCOMPLETE again, with a new deadline.\<close>

definition back_to_incomplete :: "answer_settings \<Rightarrow> int \<Rightarrow> int \<Rightarrow> string \<Rightarrow> group_leg list \<Rightarrow> group_leg list" where
  "back_to_incomplete settings now tenant gid db =
     (let (deadline, choice, minutes) = no_answer_rule settings now in
      if open_legs db tenant gid = [] then db
      else snd (transition tenant gid [COMPLETING_SENT]
        (\<lambda>b. b\<lparr>ib_state := INCOMPLETE, ib_deadline := deadline, ib_no_answer := choice, ib_minutes := minutes\<rparr>) db))"

text \<open>The legs that filled, booked into the group with the block its first leg has now.\<close>

definition book_group :: "int \<Rightarrow> string \<Rightarrow> int \<Rightarrow> incomplete_block \<Rightarrow> nat \<Rightarrow> group_leg list \<Rightarrow> group_leg list" where
  "book_group tenant gid user b n db =
     db @ map (\<lambda>i. \<lparr>gl_id = int (Suc i) + Max (insert 0 (gl_id ` set db)), gl_tenant = tenant, gl_group = gid, gl_user = user, gl_open = True, gl_block = Some b\<rparr>) [0..<n]"

datatype completion = AlreadyHandled | AlreadySent | BackToIncomplete | NowComplete | CompletionRaised

text \<open>
  The completion of the rest: \<open>refused\<close> is whether an entry refusal or a missing session stops it, \<open>created\<close>
  whether its order rows are new, and \<open>result\<close> the run of the legs still to place (\<open>None\<close>: it raised).
\<close>

definition complete_rest ::
  "answer_settings \<Rightarrow> bool \<Rightarrow> bool \<Rightarrow> (leg_spec list \<Rightarrow> legs_run option) \<Rightarrow> int \<Rightarrow> int \<Rightarrow> int \<Rightarrow> string \<Rightarrow> group_leg list \<Rightarrow> completion \<times> group_leg list" where
  "complete_rest settings refused created place user now tenant gid db =
     (case (if open_legs db tenant gid = [] then (None, db) else transition tenant gid [COMPLETING] (\<lambda>b. b\<lparr>ib_state := COMPLETING_SENT\<rparr>) db) of
        (None, db1) \<Rightarrow> (AlreadyHandled, db1)
      | (Some b, db1) \<Rightarrow>
          (if refused \<or> ib_pending b = [] then (BackToIncomplete, back_to_incomplete settings now tenant gid db1)
           else if \<not> created then (AlreadySent, db1)
           else
             (case place (ib_pending b) of
                None \<Rightarrow> (CompletionRaised, db1)
              | Some out \<Rightarrow>
                  (let filled = filter (\<lambda>spec. dict_get (lr_fills out) (sp_key spec) \<noteq> None) (ib_pending b);
                       db2 = book_group tenant gid user b (length filled) db1 in
                   if lr_state out = RunComplete
                   then (NowComplete, snd (transition tenant gid [COMPLETING_SENT] (\<lambda>x. x\<lparr>ib_state := COMPLETED, ib_pending := []\<rparr>) db2))
                   else (BackToIncomplete, back_to_incomplete settings now tenant gid
                     (snd (transition tenant gid [COMPLETING_SENT] (\<lambda>x. x\<lparr>ib_pending := lr_pending out, ib_round := ib_round b + 1\<rparr>) db2)))))))"

section \<open>The life of a block\<close>

fun block_moves :: "block_state \<Rightarrow> block_state list" where
  "block_moves INCOMPLETE = [COMPLETING, CLOSING, KEPT]"
| "block_moves COMPLETING = [COMPLETING_SENT]"
| "block_moves COMPLETING_SENT = [COMPLETING_SENT, COMPLETED, INCOMPLETE]"
| "block_moves CLOSING = [CLOSED]"
| "block_moves COMPLETED = []"
| "block_moves CLOSED = []"
| "block_moves KEPT = []"

definition history_ok :: "incomplete_block \<Rightarrow> bool" where
  "history_ok b = (successively (\<lambda>x y. y \<in> set (block_moves x)) (INCOMPLETE # ib_history b) \<and> last (INCOMPLETE # ib_history b) = ib_state b)"

definition same_group :: "group_leg \<Rightarrow> group_leg \<Rightarrow> bool" where
  "same_group r r' = (gl_tenant r = gl_tenant r' \<and> gl_group r = gl_group r')"

text \<open>The rows have different ids, the legs of a group carry one block, and its history is a life of the block.\<close>

definition groups_ok :: "group_leg list \<Rightarrow> bool" where
  "groups_ok db =
     (distinct (map gl_id db)
      \<and> (\<forall>r \<in> set db. \<forall>r' \<in> set db. same_group r r' \<longrightarrow> gl_block r = gl_block r')
      \<and> (\<forall>r \<in> set db. \<forall>b. gl_block r = Some b \<longrightarrow> history_ok b))"

lemma groups_ok_block: "groups_ok db \<Longrightarrow> r \<in> set db \<Longrightarrow> gl_block r = Some b \<Longrightarrow> history_ok b"
  by (simp add: groups_ok_def)

lemma groups_ok_same: "groups_ok db \<Longrightarrow> r \<in> set db \<Longrightarrow> r' \<in> set db \<Longrightarrow> same_group r r' \<Longrightarrow> gl_block r = gl_block r'"
  by (simp add: groups_ok_def)

lemma history_step:
  assumes "history_ok b" and "s \<in> set (block_moves (ib_state b))" and "ib_state b' = s" and "ib_history b' = ib_history b @ [s]"
  shows "history_ok b'"
proof -
  have "successively (\<lambda>x y. y \<in> set (block_moves x)) ((INCOMPLETE # ib_history b) @ [s])"
    using assms(1,2) unfolding successively_append_iff history_ok_def by simp
  then show ?thesis using assms(3,4) by (simp add: history_ok_def)
qed

lemma id_row: "groups_ok db \<Longrightarrow> r \<in> set db \<Longrightarrow> r' \<in> set db \<Longrightarrow> gl_id r = gl_id r' \<Longrightarrow> r = r'"
  by (auto simp: groups_ok_def dest: inj_onD [OF distinct_map [THEN iffD1, THEN conjunct2]])

text \<open>A write that was read from this table reaches exactly the legs of its group.\<close>

lemma read_group_facts:
  assumes "groups_ok db" and "read_group db tenant gid expect change = Some w"
  shows "ib_state (bw_old w) \<in> set expect"
    and "bw_new w = (change (bw_old w))\<lparr>ib_history := ib_history (bw_old w) @ [ib_state (change (bw_old w))]\<rparr>"
    and "r \<in> set db \<Longrightarrow> (gl_id r = bw_first w \<or> gl_id r \<in> set (bw_rest w)) \<longleftrightarrow> gl_tenant r = tenant \<and> gl_group r = gid"
    and "\<exists>r \<in> set db. gl_id r = bw_first w \<and> gl_block r = Some (bw_old w) \<and> gl_tenant r = tenant \<and> gl_group r = gid"
    and "r \<in> set db \<Longrightarrow> gl_tenant r = tenant \<Longrightarrow> gl_group r = gid \<Longrightarrow> gl_block r = Some (bw_old w)"
proof -
  obtain first rest b where g: "group_of db tenant gid = first # rest" "gl_block first = Some b"
    and w: "ib_state b \<in> set expect" "w = \<lparr>bw_first = gl_id first, bw_old = b, bw_rest = map gl_id rest,
        bw_new = (change b)\<lparr>ib_history := ib_history b @ [ib_state (change b)]\<rparr>\<rparr>"
    using assms(2) by (auto simp: read_group_def Let_def split: list.splits option.splits if_splits)
  show "ib_state (bw_old w) \<in> set expect"
    and "bw_new w = (change (bw_old w))\<lparr>ib_history := ib_history (bw_old w) @ [ib_state (change (bw_old w))]\<rparr>" using w by simp_all
  have legs: "set (first # rest) = {r \<in> set db. gl_tenant r = tenant \<and> gl_group r = gid}"
    unfolding g(1) [symmetric] by (auto simp: group_of_def)
  then have first: "first \<in> set db" "gl_tenant first = tenant" "gl_group first = gid" by auto
  then show "\<exists>r \<in> set db. gl_id r = bw_first w \<and> gl_block r = Some (bw_old w) \<and> gl_tenant r = tenant \<and> gl_group r = gid"
    using g(2) w(2) by (intro bexI [of _ first]) simp_all
  assume r: "r \<in> set db"
  show "(gl_id r = bw_first w \<or> gl_id r \<in> set (bw_rest w)) \<longleftrightarrow> gl_tenant r = tenant \<and> gl_group r = gid"
  proof
    assume "gl_id r = bw_first w \<or> gl_id r \<in> set (bw_rest w)"
    then have "gl_id r \<in> gl_id ` set (first # rest)" using w(2) by auto
    then obtain r' where r': "gl_id r = gl_id r'" "r' \<in> set (first # rest)" by (rule imageE)
    then have "r' \<in> set db" using legs by blast
    then have "r' = r" using id_row [OF assms(1) _ r] r'(1) by simp
    then show "gl_tenant r = tenant \<and> gl_group r = gid" using r'(2) legs by auto
  next
    assume "gl_tenant r = tenant \<and> gl_group r = gid"
    then have "r \<in> set (first # rest)" using legs r by blast
    then show "gl_id r = bw_first w \<or> gl_id r \<in> set (bw_rest w)" using w(2) by auto
  qed
  assume "gl_tenant r = tenant" "gl_group r = gid"
  then show "gl_block r = Some (bw_old w)" using groups_ok_same [OF assms(1) r first(1)] first g(2) w(2) by (simp add: same_group_def)
qed

lemma write_group_read:
  assumes "groups_ok db" and "read_group db tenant gid expect change = Some w"
  shows "write_group w db = (Some (bw_new w), map (\<lambda>r. if gl_tenant r = tenant \<and> gl_group r = gid then r\<lparr>gl_block := Some (bw_new w)\<rparr> else r) db)"
proof -
  have "map (\<lambda>r. if gl_id r = bw_first w \<or> gl_id r \<in> set (bw_rest w) then r\<lparr>gl_block := Some (bw_new w)\<rparr> else r) db
      = map (\<lambda>r. if gl_tenant r = tenant \<and> gl_group r = gid then r\<lparr>gl_block := Some (bw_new w)\<rparr> else r) db"
    using read_group_facts(3) [OF assms] by (intro map_cong) auto
  then show ?thesis using read_group_facts(4) [OF assms] unfolding write_group_def by auto
qed

text \<open>How a transition can end.\<close>

lemma transition_cases:
  assumes "groups_ok db" and "transition tenant gid expect change db = (res, db')"
  obtains (lost) "res = None" and "db' = db"
  | (moved) b where "\<forall>r \<in> set db. gl_tenant r = tenant \<and> gl_group r = gid \<longrightarrow> gl_block r = Some b" and "ib_state b \<in> set expect"
      and "res = Some ((change b)\<lparr>ib_history := ib_history b @ [ib_state (change b)]\<rparr>)"
      and "db' = map (\<lambda>r. if gl_tenant r = tenant \<and> gl_group r = gid then r\<lparr>gl_block := res\<rparr> else r) db"
      and "\<exists>r \<in> set db. gl_tenant r = tenant \<and> gl_group r = gid"
proof (cases "read_group db tenant gid expect change")
  case None
  then show ?thesis using assms(2) lost by (simp add: transition_def)
next
  case (Some w)
  have "transition tenant gid expect change db = write_group w db" using Some by (simp add: transition_def)
  then show ?thesis
    using moved [of "bw_old w"] assms(2) read_group_facts [OF assms(1) Some] write_group_read [OF assms(1) Some] by auto
qed

lemma groups_ok_map:
  assumes "groups_ok db" and "\<And>r. gl_id (f r) = gl_id r \<and> gl_tenant (f r) = gl_tenant r \<and> gl_group (f r) = gl_group r"
    and "\<And>r r'. r \<in> set db \<Longrightarrow> r' \<in> set db \<Longrightarrow> same_group r r' \<Longrightarrow> gl_block (f r) = gl_block (f r')"
    and "\<And>r b. r \<in> set db \<Longrightarrow> gl_block (f r) = Some b \<Longrightarrow> history_ok b"
  shows "groups_ok (map f db)"
  unfolding groups_ok_def
proof (intro conjI ballI allI impI)
  have e: "map gl_id (map f db) = map gl_id db" using assms(2) by simp
  show "distinct (map gl_id (map f db))" unfolding e using assms(1) by (simp add: groups_ok_def)
next
  fix x x' assume x: "x \<in> set (map f db)" "x' \<in> set (map f db)" "same_group x x'"
  then obtain r r' where r: "x = f r" "r \<in> set db" "x' = f r'" "r' \<in> set db" by auto
  have "same_group r r'" using x(3) assms(2) [of r] assms(2) [of r'] unfolding r(1,3) same_group_def by simp
  then show "gl_block x = gl_block x'" unfolding r(1,3) by (rule assms(3) [OF r(2,4)])
next
  fix x b assume "x \<in> set (map f db)" "gl_block x = Some b"
  then show "history_ok b" using assms(4) by auto
qed

lemma groups_ok_set:
  assumes "groups_ok db" and "history_ok b"
  shows "groups_ok (map (\<lambda>r. if gl_tenant r = tenant \<and> gl_group r = gid then r\<lparr>gl_block := Some b\<rparr> else r) db)"
proof (rule groups_ok_map [OF assms(1)], goal_cases)
  case (2 r r')
  then show ?case using groups_ok_same [OF assms(1), of r r'] by (simp add: same_group_def)
next
  case (3 r b')
  then show ?case using groups_ok_block [OF assms(1), of r b'] assms(2) by (auto split: if_splits)
qed simp

lemma groups_ok_open:
  assumes "groups_ok db"
  shows "groups_ok (map (\<lambda>r. if P r then r\<lparr>gl_open := False\<rparr> else r) db)"
proof (rule groups_ok_map [OF assms], goal_cases)
  case (2 r r')
  then show ?case using groups_ok_same [OF assms, of r r'] by simp
next
  case (3 r b)
  then show ?case using groups_ok_block [OF assms, of r b] by (auto split: if_splits)
qed simp

lemma transition_ok:
  assumes "groups_ok db" and "transition tenant gid expect change db = (res, db')"
    and "\<And>b. ib_state b \<in> set expect \<Longrightarrow> ib_state (change b) \<in> set (block_moves (ib_state b))"
  shows "groups_ok db'"
  using assms(1,2)
proof (cases rule: transition_cases)
  case lost
  then show ?thesis using assms(1) by simp
next
  case (moved b)
  obtain r where r: "r \<in> set db" "gl_tenant r = tenant" "gl_group r = gid" using moved(5) by blast
  then have "history_ok b" using moved(1) groups_ok_block [OF assms(1)] by blast
  then have ok: "history_ok ((change b)\<lparr>ib_history := ib_history b @ [ib_state (change b)]\<rparr>)"
    by (rule history_step) (use assms(3) moved(2) in simp_all)
  show ?thesis unfolding moved(4) moved(3) by (rule groups_ok_set [OF assms(1) ok])
qed

section \<open>What happens to a block\<close>

datatype block_event =
    NewStructure int string int nat bool "leg_spec list" answer_settings int
  | AnswerEvent "int list" int string answer_action "int list"
  | ExitsEvent "int list" int int
  | CompleteEvent answer_settings bool bool "legs_run option" int int int string
  | LegClosed int

text \<open>
  One committed call: a structure that stopped half way opens a group of its own; an answer of somebody who may act on the
  listed legs; a pass of the worker; a completion with the outcome of its run; a leg closed by hand. The
  legs that can be closed now are listed.
\<close>

fun block_step :: "block_event \<Rightarrow> group_leg list \<Rightarrow> group_leg list" where
  "block_step (NewStructure tenant gid user n live pending settings now) db =
     (if group_of db tenant gid \<noteq> [] then db
      else book_group tenant gid user (new_block live pending settings 1 now) n db)"
| "block_step (AnswerEvent may tenant gid action ids) db =
     snd (answer (\<lambda>r. gl_id r \<in> set may) (\<lambda>legs. filter (\<lambda>i. i \<in> set ids) (map gl_id legs)) tenant gid action db)"
| "block_step (ExitsEvent ids tenant now) db = run_exits (\<lambda>legs. filter (\<lambda>i. i \<in> set ids) (map gl_id legs)) tenant now db"
| "block_step (CompleteEvent settings refused created out user now tenant gid) db =
     snd (complete_rest settings refused created (\<lambda>_. out) user now tenant gid db)"
| "block_step (LegClosed i) db = map (\<lambda>r. if gl_id r = i then r\<lparr>gl_open := False\<rparr> else r) db"

lemma new_block_ok: "history_ok (new_block live pending settings n now)"
  by (simp add: history_ok_def new_block_def split: prod.splits)

lemma book_group_ok:
  assumes "groups_ok db" and "history_ok b" and "\<forall>r \<in> set db. gl_tenant r = tenant \<and> gl_group r = gid \<longrightarrow> gl_block r = Some b"
  shows "groups_ok (book_group tenant gid user b n db)"
proof -
  let ?new = "map (\<lambda>i. \<lparr>gl_id = int (Suc i) + Max (insert 0 (gl_id ` set db)), gl_tenant = tenant, gl_group = gid, gl_user = user, gl_open = True, gl_block = Some b\<rparr>) [0..<n]"
  have ids: "gl_id r \<le> Max (insert 0 (gl_id ` set db))" if "r \<in> set db" for r using that by (intro Max_ge) auto
  have "distinct (map gl_id ?new)" by (simp add: distinct_map inj_on_def)
  moreover have "gl_id ` set db \<inter> gl_id ` set ?new = {}"
  proof -
    define m where "m = Max (insert 0 (gl_id ` set db))"
    have "m < x" if "x \<in> gl_id ` set ?new" for x using that unfolding m_def [symmetric] by auto
    moreover have "x \<le> m" if "x \<in> gl_id ` set db" for x using that ids unfolding m_def by blast
    ultimately show ?thesis by fastforce
  qed
  moreover have "distinct (map gl_id db)" using assms(1) by (simp add: groups_ok_def)
  ultimately have d: "distinct (map gl_id (db @ ?new))" unfolding map_append distinct_append set_map by (intro conjI)
  have new: "gl_block r = Some b \<and> gl_tenant r = tenant \<and> gl_group r = gid" if "r \<in> set ?new" for r using that by auto
  have e: "gl_block r = gl_block r'" if "r \<in> set (db @ ?new)" "r' \<in> set (db @ ?new)" "same_group r r'" for r r'
  proof -
    have c: "gl_block x = Some b" if "x \<in> set (db @ ?new)" "gl_tenant x = tenant" "gl_group x = gid" for x
      using that(1) assms(3) that(2,3) new [of x] unfolding set_append Un_iff by blast
    show ?thesis
    proof (cases "r \<in> set ?new \<or> r' \<in> set ?new")
      case True
      then have g: "gl_tenant r = tenant" "gl_group r = gid" "gl_tenant r' = tenant" "gl_group r' = gid"
        using new [of r] new [of r'] that(3) unfolding same_group_def by auto
      show ?thesis unfolding c [OF that(1) g(1,2)] c [OF that(2) g(3,4)] by (rule refl)
    next
      case False
      then have "r \<in> set db" "r' \<in> set db" using that(1,2) unfolding set_append Un_iff by blast+
      then show ?thesis by (rule groups_ok_same [OF assms(1) _ _ that(3)])
    qed
  qed
  have h: "history_ok c" if "r \<in> set (db @ ?new)" "gl_block r = Some c" for r c
  proof (cases "r \<in> set ?new")
    case True
    then show ?thesis using new [of r] that(2) assms(2) by simp
  next
    case False
    then have "r \<in> set db" using that(1) unfolding set_append Un_iff by blast
    then show ?thesis by (rule groups_ok_block [OF assms(1) _ that(2)])
  qed
  show ?thesis unfolding book_group_def groups_ok_def by (intro conjI ballI allI impI d; (rule e h; assumption)?)
qed

lemma close_filled_ok:
  assumes "groups_ok db"
  shows "groups_ok (snd (close_filled_now close tenant gid db))"
proof -
  let ?db1 = "map (\<lambda>r. if gl_tenant r = tenant \<and> gl_group r = gid \<and> gl_open r \<and> gl_id r \<in> set (close (open_legs db tenant gid)) then r\<lparr>gl_open := False\<rparr> else r) db"
  have ok: "groups_ok ?db1" by (rule groups_ok_open [OF assms])
  obtain r d where t: "transition tenant gid [CLOSING] (\<lambda>b. b\<lparr>ib_state := CLOSED\<rparr>) ?db1 = (r, d)" by fastforce
  have "groups_ok d" by (rule transition_ok [OF ok t]) simp
  then show ?thesis using ok t by (simp add: close_filled_now_def Let_def)
qed

lemma answer_ok:
  assumes "groups_ok db"
  shows "groups_ok (snd (answer may close tenant gid action db))"
proof -
  obtain r d where t: "transition tenant gid [INCOMPLETE] (\<lambda>b. b\<lparr>ib_state := answer_target action, ib_answered_by := Some ''user''\<rparr>) db = (r, d)" by fastforce
  have "groups_ok d" by (rule transition_ok [OF assms t]) (cases action; simp add: answer_target_def)
  then show ?thesis using assms t close_filled_ok [of d close tenant gid]
    by (auto simp: answer_def Let_def split: list.splits option.splits prod.splits if_splits)
qed

lemma apply_rule_ok:
  assumes "groups_ok db"
  shows "groups_ok (apply_rule tenant now gid db)"
proof -
  have moved: "groups_ok (snd (transition tenant gid [INCOMPLETE] (\<lambda>x. x\<lparr>ib_state := s, ib_answered_by := Some ''timer''\<rparr>) db))"
    if "s = KEPT \<or> s = CLOSING" for s
    by (rule transition_ok [OF assms prod.collapse [symmetric]]) (use that in auto)
  show ?thesis using assms moved [of KEPT] moved [of CLOSING] by (auto simp: apply_rule_def split: list.splits option.splits)
qed

lemma fold_ok: "groups_ok db \<Longrightarrow> (\<And>x d. groups_ok d \<Longrightarrow> groups_ok (f x d)) \<Longrightarrow> groups_ok (fold f xs db)"
  by (induction xs arbitrary: db) simp_all

lemma run_exits_ok: "groups_ok db \<Longrightarrow> groups_ok (run_exits close tenant now db)"
  unfolding run_exits_def Let_def by (intro fold_ok apply_rule_ok close_filled_ok)

lemma back_ok:
  assumes "groups_ok db"
  shows "groups_ok (back_to_incomplete settings now tenant gid db)"
proof -
  obtain deadline choice minutes where rule: "no_answer_rule settings now = (deadline, choice, minutes)" by (rule prod_cases3)
  obtain r d where t: "transition tenant gid [COMPLETING_SENT]
      (\<lambda>b. b\<lparr>ib_state := INCOMPLETE, ib_deadline := deadline, ib_no_answer := choice, ib_minutes := minutes\<rparr>) db = (r, d)" by fastforce
  have "groups_ok d" by (rule transition_ok [OF assms t]) simp
  then show ?thesis using assms t rule by (simp add: back_to_incomplete_def)
qed

text \<open>Once claimed, the group has the block that was written, and legs may be booked with it.\<close>

lemma claimed_book_ok:
  assumes "groups_ok db" and "transition tenant gid [COMPLETING] (\<lambda>b. b\<lparr>ib_state := COMPLETING_SENT\<rparr>) db = (Some b, db1)"
  shows "groups_ok (book_group tenant gid user b n db1)"
proof -
  have ok1: "groups_ok db1" by (rule transition_ok [OF assms]) simp
  have c: "db1 = map (\<lambda>r. if gl_tenant r = tenant \<and> gl_group r = gid then r\<lparr>gl_block := Some b\<rparr> else r) db"
    "\<exists>x \<in> set db. gl_tenant x = tenant \<and> gl_group x = gid"
    by (rule transition_cases [OF assms]; simp)+
  have same: "\<forall>x \<in> set db1. gl_tenant x = tenant \<and> gl_group x = gid \<longrightarrow> gl_block x = Some b"
  proof (intro ballI impI)
    fix x assume x: "x \<in> set db1" and g: "gl_tenant x = tenant \<and> gl_group x = gid"
    obtain y where "x = (if gl_tenant y = tenant \<and> gl_group y = gid then y\<lparr>gl_block := Some b\<rparr> else y)"
      using x unfolding c(1) set_map by (rule imageE)
    then show "gl_block x = Some b" using g by (cases "gl_tenant y = tenant \<and> gl_group y = gid") simp_all
  qed
  obtain y where y: "y \<in> set db" "gl_tenant y = tenant \<and> gl_group y = gid" using c(2) by (rule bexE)
  have "y\<lparr>gl_block := Some b\<rparr> \<in> set db1" unfolding c(1) set_map by (rule image_eqI [OF _ y(1)]) (simp add: y(2))
  then have "history_ok b" by (rule groups_ok_block [OF ok1]) simp
  then show ?thesis by (rule book_group_ok [OF ok1 _ same])
qed

lemma complete_rest_ok:
  assumes "groups_ok db"
  shows "groups_ok (snd (complete_rest settings refused created place user now tenant gid db))"
proof (cases "open_legs db tenant gid = []")
  case True
  then show ?thesis using assms by (simp add: complete_rest_def)
next
  case False
  obtain r db1 where t: "transition tenant gid [COMPLETING] (\<lambda>b. b\<lparr>ib_state := COMPLETING_SENT\<rparr>) db = (r, db1)" by fastforce
  have ok1: "groups_ok db1" by (rule transition_ok [OF assms t]) simp
  show ?thesis
  proof (cases r)
    case None
    then show ?thesis using False t ok1 by (simp add: complete_rest_def)
  next
    case (Some b)
    have booked: "groups_ok (book_group tenant gid user b n db1)" for n by (rule claimed_book_ok [OF assms t [unfolded Some]])
    have finished: "groups_ok (snd (transition tenant gid [COMPLETING_SENT] (\<lambda>x. x\<lparr>ib_state := COMPLETED, ib_pending := []\<rparr>) d))" if "groups_ok d" for d
      by (rule transition_ok [OF that prod.collapse [symmetric]]) simp
    have partly: "groups_ok (snd (transition tenant gid [COMPLETING_SENT] (\<lambda>x. x\<lparr>ib_pending := p, ib_round := q\<rparr>) d))" if "groups_ok d" for d p q
      by (rule transition_ok [OF that prod.collapse [symmetric]]) simp
    note run = complete_rest_def if_not_P [OF False] t Some prod.case option.case
    show ?thesis
    proof (cases "refused \<or> ib_pending b = [] \<or> \<not> created \<or> place (ib_pending b) = None")
      case True
      then show ?thesis using back_ok [OF ok1] ok1 unfolding run by (auto split: option.split)
    next
      case False
      then obtain out where "place (ib_pending b) = Some out" by blast
      then show ?thesis using False finished [OF booked] back_ok [OF partly [OF booked]] unfolding run by (simp add: Let_def)
    qed
  qed
qed

lemma block_step_ok: "groups_ok db \<Longrightarrow> groups_ok (block_step ev db)"
proof (cases ev)
  case (NewStructure tenant gid user n live pending settings now)
  assume ok: "groups_ok db"
  have "\<forall>r \<in> set db. gl_tenant r = tenant \<and> gl_group r = gid \<longrightarrow> gl_block r = Some b" if "group_of db tenant gid = []" for b
    using that by (auto simp: group_of_def filter_empty_conv)
  then show ?thesis using NewStructure ok book_group_ok [OF ok new_block_ok] by simp
qed (simp_all add: answer_ok run_exits_ok complete_rest_ok groups_ok_open)

lemma groups_ok_run: "groups_ok (fold block_step evs [])"
  by (rule fold_ok [OF _ block_step_ok]) (simp add: groups_ok_def)

text \<open>
  C9. Whatever order the answers, the passes of the worker, the completions and the hand-made exits come
  in, every leg of a group carries the same block and the block's history is a legal life: it starts at
  INCOMPLETE, each entry is one move of the state machine, and the last one is the state it is in.
\<close>

theorem incomplete_history_replays:
  assumes "db = fold block_step evs []" and "r \<in> set db" and "gl_block r = Some b"
  shows "successively (\<lambda>x y. y \<in> set (block_moves x)) (INCOMPLETE # ib_history b) \<and> last (INCOMPLETE # ib_history b) = ib_state b
    \<and> (\<forall>r' \<in> set db. same_group r r' \<longrightarrow> gl_block r' = Some b)"
proof -
  have ok: "groups_ok db" unfolding assms(1) by (rule groups_ok_run)
  show ?thesis
    using groups_ok_block [OF ok assms(2,3)] groups_ok_same [OF ok assms(2)] assms(3) unfolding history_ok_def by auto
qed

section \<open>Concurrent writers\<close>

text \<open>Writers that all read the group before any of them wrote, and write one after the other.\<close>

fun write_all :: "block_write list \<Rightarrow> group_leg list \<Rightarrow> incomplete_block option list \<times> group_leg list" where
  "write_all [] db = ([], db)"
| "write_all (w # ws) db =
     (let (r, db1) = write_group w db; (rs, db2) = write_all ws db1 in (r # rs, db2))"

lemma stale_writers_lose:
  assumes "\<And>r w. r \<in> set db \<Longrightarrow> w \<in> set ws \<Longrightarrow> gl_id r = bw_first w \<Longrightarrow> gl_block r \<noteq> Some (bw_old w)"
  shows "write_all ws db = (replicate (length ws) None, db)"
  using assms
proof (induction ws)
  case (Cons w ws)
  have "write_group w db = (None, db)" unfolding write_group_def using Cons.prems [of _ w] by auto
  then show ?case using Cons by simp
qed simp

lemma read_group_first:
  assumes "read_group db tenant gid expect change = Some w" and "read_group db tenant gid expect' change' = Some w'"
  shows "bw_first w' = bw_first w \<and> bw_old w' = bw_old w"
  using assms by (auto simp: read_group_def Let_def split: list.splits option.splits if_splits)

definition reads :: "group_leg list \<Rightarrow> int \<Rightarrow> string \<Rightarrow> (block_state list \<times> (incomplete_block \<Rightarrow> incomplete_block)) list \<Rightarrow> block_write list" where
  "reads db tenant gid calls = List.map_filter (\<lambda>(expect, change). read_group db tenant gid expect change) calls"

lemma reads_write:
  assumes "w \<in> set (reads db tenant gid calls)"
  obtains expect change where "read_group db tenant gid expect change = Some w"
proof -
  from assms obtain call where "(\<lambda>(expect, change). read_group db tenant gid expect change) call = Some w"
    unfolding reads_def List.map_filter_def by auto
  then show thesis using that by (cases call) simp
qed

text \<open>
  C38. A tap, a second tap and the worker's timer that all read the group before any of them wrote: only
  the first write is made. Every other one answers None and writes nothing, so the group moved once.
\<close>

theorem one_answer_wins:
  assumes "db = fold block_step evs []" and "reads db tenant gid calls = w # ws"
  shows "write_all (w # ws) db = (Some (bw_new w) # replicate (length ws) None,
    map (\<lambda>r. if gl_tenant r = tenant \<and> gl_group r = gid then r\<lparr>gl_block := Some (bw_new w)\<rparr> else r) db)"
proof -
  let ?db1 = "map (\<lambda>r. if gl_tenant r = tenant \<and> gl_group r = gid then r\<lparr>gl_block := Some (bw_new w)\<rparr> else r) db"
  have ok: "groups_ok db" unfolding assms(1) by (rule groups_ok_run)
  obtain expect change where w: "read_group db tenant gid expect change = Some w"
    by (rule reads_write [of w db tenant gid calls]) (simp add: assms(2))
  have grown: "bw_new w \<noteq> bw_old w"
  proof
    assume "bw_new w = bw_old w"
    then have "length (ib_history (bw_new w)) = length (ib_history (bw_old w))" by simp
    then show False unfolding read_group_facts(2) [OF ok w] by simp
  qed
  have "write_all ws ?db1 = (replicate (length ws) None, ?db1)"
  proof (rule stale_writers_lose)
    fix r v assume r: "r \<in> set ?db1" and v: "v \<in> set ws" and id: "gl_id r = bw_first v"
    obtain e c where rv: "read_group db tenant gid e c = Some v"
      by (rule reads_write [of v db tenant gid calls]) (simp_all add: assms(2) v)
    have same: "bw_first v = bw_first w" "bw_old v = bw_old w" using read_group_first [OF w rv] by simp_all
    obtain x where x: "x \<in> set db" "r = (if gl_tenant x = tenant \<and> gl_group x = gid then x\<lparr>gl_block := Some (bw_new w)\<rparr> else x)" using r by auto
    then have "gl_id x = bw_first w" using id same by (simp split: if_splits)
    then have "gl_tenant x = tenant \<and> gl_group x = gid" using read_group_facts(3) [OF ok w x(1)] by simp
    then show "gl_block r \<noteq> Some (bw_old v)" using x(2) grown same by simp
  qed
  then show ?thesis using write_group_read [OF ok w] by simp
qed

section \<open>Where a group stays\<close>

text \<open>Every leg of the group carries a block of \<open>B\<close>: what no transition of another group and no refused one changes.\<close>

definition held :: "int \<Rightarrow> string \<Rightarrow> incomplete_block set \<Rightarrow> group_leg list \<Rightarrow> bool" where
  "held tenant gid B db = (groups_ok db \<and> (\<exists>r \<in> set db. gl_tenant r = tenant \<and> gl_group r = gid) \<and> (\<forall>r \<in> set db. gl_tenant r = tenant \<and> gl_group r = gid \<longrightarrow> gl_block r \<in> Some ` B))"

lemma held_ok: "held tenant gid B db \<Longrightarrow> groups_ok db"
  by (simp add: held_def)

lemma held_transition:
  assumes "held tenant gid B db"
    and "\<And>b. ib_state b \<in> set expect \<Longrightarrow> ib_state (change b) \<in> set (block_moves (ib_state b))"
    and "t = tenant \<Longrightarrow> g = gid \<Longrightarrow> (\<And>b. b \<in> B \<Longrightarrow> ib_state b \<in> set expect \<Longrightarrow> (change b)\<lparr>ib_history := ib_history b @ [ib_state (change b)]\<rparr> \<in> B)"
  shows "held tenant gid B (snd (transition t g expect change db))"
proof -
  obtain res db' where tr: "transition t g expect change db = (res, db')" by fastforce
  have ok: "groups_ok db'" by (rule transition_ok [OF held_ok [OF assms(1)] tr assms(2)])
  from held_ok [OF assms(1)] tr have "held tenant gid B db'"
  proof (cases rule: transition_cases)
    case lost
    then show ?thesis using assms(1) by simp
  next
    case (moved b)
    have "gl_block r' \<in> Some ` B" if r': "r' \<in> set db'" "gl_tenant r' = tenant \<and> gl_group r' = gid" for r'
    proof -
      obtain r where r: "r' = (if gl_tenant r = t \<and> gl_group r = g then r\<lparr>gl_block := res\<rparr> else r)" "r \<in> set db"
        using r'(1) unfolding moved(4) set_map by (rule imageE)
      show ?thesis
      proof (cases "gl_tenant r = t \<and> gl_group r = g")
        case True
        then have here: "t = tenant" "g = gid" using r(1) r'(2) by simp_all
        have "Some b \<in> Some ` B" using True moved(1) r(2) here assms(1) unfolding held_def by force
        then have "b \<in> B" by auto
        then show ?thesis using assms(3) [OF here _ moved(2)] moved(3) True r(1) by simp
      next
        case False
        then have "r' = r" unfolding r(1) by (rule if_not_P)
        then show ?thesis using r'(2) r(2) assms(1) unfolding held_def by blast
      qed
    qed
    moreover have "\<exists>r \<in> set db'. gl_tenant r = tenant \<and> gl_group r = gid"
    proof -
      obtain r where r: "r \<in> set db" "gl_tenant r = tenant" "gl_group r = gid" using assms(1) unfolding held_def by blast
      then show ?thesis unfolding moved(4) by (intro bexI [OF _ imageI [OF r(1), folded set_map]]) simp
    qed
    ultimately show ?thesis using ok unfolding held_def by blast
  qed
  then show ?thesis using tr by simp
qed

lemma held_open:
  assumes "held tenant gid B db"
  shows "held tenant gid B (map (\<lambda>r. if P r then r\<lparr>gl_open := False\<rparr> else r) db)"
  unfolding held_def
proof (intro conjI ballI impI)
  show "groups_ok (map (\<lambda>r. if P r then r\<lparr>gl_open := False\<rparr> else r) db)" by (rule groups_ok_open [OF held_ok [OF assms]])
  obtain r where r: "r \<in> set db" "gl_tenant r = tenant" "gl_group r = gid" using assms unfolding held_def by blast
  then show "\<exists>r \<in> set (map (\<lambda>r. if P r then r\<lparr>gl_open := False\<rparr> else r) db). gl_tenant r = tenant \<and> gl_group r = gid"
    by (intro bexI [OF _ imageI [OF r(1), folded set_map]]) simp
next
  fix r' assume r': "r' \<in> set (map (\<lambda>r. if P r then r\<lparr>gl_open := False\<rparr> else r) db)" and g: "gl_tenant r' = tenant \<and> gl_group r' = gid"
  obtain r where r: "r' = (if P r then r\<lparr>gl_open := False\<rparr> else r)" "r \<in> set db" using r' unfolding set_map by (rule imageE)
  have e: "gl_tenant r' = gl_tenant r \<and> gl_group r' = gl_group r \<and> gl_block r' = gl_block r" unfolding r(1) by simp
  then show "gl_block r' \<in> Some ` B" using g r(2) assms unfolding held_def by simp
qed

lemma held_book:
  assumes "held tenant gid B db" and "groups_ok (book_group t g user b n db)" and "t = tenant \<Longrightarrow> g = gid \<Longrightarrow> b \<in> B"
  shows "held tenant gid B (book_group t g user b n db)"
  using assms unfolding held_def by (auto simp: book_group_def)

lemma held_fold: "held tenant gid B db \<Longrightarrow> (\<And>x d. held tenant gid B d \<Longrightarrow> held tenant gid B (f x d)) \<Longrightarrow> held tenant gid B (fold f xs db)"
  by (induction xs arbitrary: db) simp_all

lemma held_close:
  assumes "held tenant gid B db" and "\<And>b. b \<in> B \<Longrightarrow> ib_state b = CLOSING \<Longrightarrow> b\<lparr>ib_state := CLOSED, ib_history := ib_history b @ [CLOSED]\<rparr> \<in> B"
  shows "held tenant gid B (snd (close_filled_now close t g db))"
proof -
  have "held tenant gid B (snd (transition t g [CLOSING] (\<lambda>b. b\<lparr>ib_state := CLOSED\<rparr>) d))" if "held tenant gid B d" for d
    by (rule held_transition [OF that]) (use assms(2) in simp_all)
  then show ?thesis using held_open [OF assms(1)] by (simp add: close_filled_now_def Let_def)
qed

lemma held_answer:
  assumes "held tenant gid B db" and "\<And>b. b \<in> B \<Longrightarrow> ib_state b \<noteq> INCOMPLETE \<and> ib_state b \<noteq> CLOSING"
  shows "held tenant gid B (snd (answer may close t g action db))"
proof -
  obtain r d where t: "transition t g [INCOMPLETE] (\<lambda>b. b\<lparr>ib_state := answer_target action, ib_answered_by := Some ''user''\<rparr>) db = (r, d)" by fastforce
  have "held tenant gid B (snd (transition t g [INCOMPLETE] (\<lambda>b. b\<lparr>ib_state := answer_target action, ib_answered_by := Some ''user''\<rparr>) db))"
  proof (rule held_transition [OF assms(1)], goal_cases)
    case (1 b)
    then show ?case by (cases action) (simp_all add: answer_target_def)
  next
    case (2 b)
    then show ?case using assms(2) [of b] by simp
  qed
  then have d: "held tenant gid B d" unfolding t by simp
  have closed: "held tenant gid B (snd (close_filled_now close t g d))"
    by (rule held_close [OF d]) (simp add: assms(2))
  show ?thesis using assms(1) t d closed
    by (auto simp: answer_def Let_def split: list.splits option.splits prod.splits if_splits)
qed

lemma held_rule:
  assumes "held tenant gid B db" and "t = tenant \<Longrightarrow> g = gid \<Longrightarrow> (\<And>b. b \<in> B \<Longrightarrow> ib_state b \<noteq> INCOMPLETE)"
  shows "held tenant gid B (apply_rule t now g db)"
proof -
  have moved: "held tenant gid B (snd (transition t g [INCOMPLETE] (\<lambda>x. x\<lparr>ib_state := s, ib_answered_by := Some ''timer''\<rparr>) db))"
    if "s = KEPT \<or> s = CLOSING" for s
    by (rule held_transition [OF assms(1)]) (use that assms(2) in auto)
  show ?thesis using assms(1) moved [of KEPT] moved [of CLOSING] by (auto simp: apply_rule_def split: list.splits option.splits)
qed

lemma held_refused:
  assumes "held tenant gid {b} db" and "ib_state b \<notin> set expect"
  shows "transition tenant gid expect change db = (None, db)"
proof -
  have "group_of db tenant gid \<noteq> []" using assms(1) by (auto simp: held_def group_of_def filter_empty_conv)
  then obtain r rs where r: "group_of db tenant gid = r # rs" by (cases "group_of db tenant gid") auto
  then have "r \<in> set (group_of db tenant gid)" by simp
  then have "gl_block r = Some b" using assms(1) by (auto simp: held_def group_of_def)
  then show ?thesis using assms(2) r by (simp add: transition_def read_group_def)
qed

lemma held_complete:
  assumes "held tenant gid {b} db" and "ib_state b = COMPLETING_SENT"
  shows "held tenant gid {b} (snd (complete_rest settings refused created place user now t g db))"
proof (cases "t = tenant \<and> g = gid")
  case True
  then have "transition t g [COMPLETING] c db = (None, db)" for c
    using held_refused [OF assms(1), of "[COMPLETING]" c] assms(2) by simp
  then show ?thesis using assms(1) by (simp add: complete_rest_def)
next
  case other: False
  have tr: "held tenant gid {b} (snd (transition t g expect change d))"
    if "held tenant gid {b} d" "\<And>x. ib_state x \<in> set expect \<Longrightarrow> ib_state (change x) \<in> set (block_moves (ib_state x))" for expect change d
    by (rule held_transition [OF that]) (use other in blast)+
  have undone: "held tenant gid {b} (back_to_incomplete settings now t g d)" if "held tenant gid {b} d" for d
  proof -
    obtain deadline choice minutes where rule: "no_answer_rule settings now = (deadline, choice, minutes)" by (rule prod_cases3)
    show ?thesis using that tr [OF that, of "[COMPLETING_SENT]"] by (simp add: back_to_incomplete_def rule)
  qed
  show ?thesis
  proof (cases "open_legs db t g = []")
    case True
    then show ?thesis using assms(1) by (simp add: complete_rest_def)
  next
    case False
    obtain r db1 where t: "transition t g [COMPLETING] (\<lambda>x. x\<lparr>ib_state := COMPLETING_SENT\<rparr>) db = (r, db1)" by fastforce
    have ok1: "held tenant gid {b} db1" using tr [OF assms(1), of "[COMPLETING]" "\<lambda>x. x\<lparr>ib_state := COMPLETING_SENT\<rparr>"] t by simp
    note run = complete_rest_def if_not_P [OF False] t
    show ?thesis
    proof (cases r)
      case None
      then show ?thesis using ok1 unfolding run by simp
    next
      case (Some c)
      have ok: "groups_ok (book_group t g user c n db1)" for n
        using claimed_book_ok [OF held_ok [OF assms(1)] t [unfolded Some]] .
      have booked: "held tenant gid {b} (book_group t g user c n db1)" for n
        by (rule held_book [OF ok1 ok]) (use other in blast)
      show ?thesis
      proof (cases "refused \<or> ib_pending c = [] \<or> \<not> created \<or> place (ib_pending c) = None")
        case True
        then show ?thesis using undone [OF ok1] ok1 unfolding run Some by (auto split: option.split)
      next
        case False
        then obtain out where "place (ib_pending c) = Some out" by blast
        then show ?thesis
          using False tr [OF booked, of "[COMPLETING_SENT]"] undone [OF tr [OF booked, of "[COMPLETING_SENT]"]] unfolding run Some by (simp add: Let_def)
      qed
    qed
  qed
qed

lemma held_run_exits:
  assumes "held tenant gid B db" and "\<And>b. b \<in> B \<Longrightarrow> ib_state b \<noteq> INCOMPLETE \<and> ib_state b \<noteq> CLOSING"
  shows "held tenant gid B (run_exits close t now db)"
proof -
  have "held tenant gid B (fold (apply_rule t now) (groups_in db t [INCOMPLETE]) db)"
    by (rule held_fold [OF assms(1) held_rule]) (use assms(2) in blast)+
  then show ?thesis
    unfolding run_exits_def Let_def by (rule held_fold [OF _ held_close]) (use assms(2) in blast)+
qed

lemma held_step:
  assumes "held tenant gid {b} db" and "ib_state b = COMPLETING_SENT"
  shows "held tenant gid {b} (block_step ev db)"
proof (cases ev)
  case (NewStructure t g user n live pending settings now)
  have "group_of db tenant gid \<noteq> []" using assms(1) by (auto simp: held_def group_of_def filter_empty_conv)
  then show ?thesis
    using assms(1) held_book [OF assms(1), of t g user "new_block live pending settings 1 now" n] block_step_ok [OF held_ok [OF assms(1)], of ev]
    by (cases "t = tenant \<and> g = gid") (auto simp: NewStructure split: if_splits)
next
  case (ExitsEvent ids t now)
  show ?thesis unfolding ExitsEvent block_step.simps by (rule held_run_exits [OF assms(1)]) (simp add: assms(2))
next
  case (AnswerEvent may t g action ids)
  show ?thesis unfolding AnswerEvent block_step.simps by (rule held_answer [OF assms(1)]) (simp add: assms(2))
next
  case (CompleteEvent settings refused created out user now t g)
  show ?thesis unfolding CompleteEvent block_step.simps by (rule held_complete [OF assms])
next
  case (LegClosed i)
  show ?thesis unfolding LegClosed block_step.simps by (rule held_open [OF assms(1)])
qed

lemma held_of_row:
  assumes "groups_ok db" and "r \<in> set db" and "gl_block r = Some b"
  shows "held (gl_tenant r) (gl_group r) {b} db"
  unfolding held_def
proof (intro conjI ballI impI)
  show "\<exists>x \<in> set db. gl_tenant x = gl_tenant r \<and> gl_group x = gl_group r" by (rule bexI [OF _ assms(2)]) simp
  fix x assume "x \<in> set db" "gl_tenant x = gl_tenant r \<and> gl_group x = gl_group r"
  then have "gl_block r = gl_block x" using groups_ok_same [OF assms(1,2), of x] by (simp add: same_group_def)
  then show "gl_block x \<in> Some ` {b}" using assms(3) by simp
qed (rule assms(1))

text \<open>
  C39. A completion that stops after its claim never ends. Once a group is COMPLETING_SENT - the worker claimed
  it, then the placing raised or the process stopped - no answer, no rule at the deadline, no pass of the
  worker, no further completion and no hand-made exit moves its block again: the structure's own exit rules
  stay paused for as long as it has a leg.
\<close>

theorem sent_completion_is_stuck:
  assumes "db = fold block_step evs []" and "r \<in> set db" and "gl_block r = Some b" and "ib_state b = COMPLETING_SENT"
  shows "rules_paused (group_of (fold block_step later db) (gl_tenant r) (gl_group r))
    \<and> (\<forall>r' \<in> set (fold block_step later db). same_group r r' \<longrightarrow> gl_block r' = Some b)"
proof -
  have "groups_ok db" unfolding assms(1) by (rule groups_ok_run)
  then have h: "held (gl_tenant r) (gl_group r) {b} (fold block_step later db)"
    by (rule held_fold [OF held_of_row [OF _ assms(2,3)] held_step [OF _ assms(4)]])
  then obtain x xs where x: "group_of (fold block_step later db) (gl_tenant r) (gl_group r) = x # xs"
    by (cases "group_of (fold block_step later db) (gl_tenant r) (gl_group r)") (auto simp: held_def group_of_def filter_empty_conv)
  then have "x \<in> set (group_of (fold block_step later db) (gl_tenant r) (gl_group r))" by simp
  then have "gl_block x = Some b" using h by (auto simp: held_def group_of_def)
  then show ?thesis using h x assms(4) by (auto simp: rules_paused_def PAUSED_def held_def same_group_def)
qed

section \<open>The rule at the deadline\<close>

lemma transition_open: "open_legs (snd (transition t g expect change db)) tenant gid = [] \<longleftrightarrow> open_legs db tenant gid = []"
proof -
  have "open_legs (map (\<lambda>r. if P r then r\<lparr>gl_block := c\<rparr> else r) db) tenant gid = [] \<longleftrightarrow> open_legs db tenant gid = []" for P c
    by (induction db) (auto simp: open_legs_def group_of_def)
  then show ?thesis by (simp add: transition_def write_group_def split: option.split)
qed

lemma apply_rule_open: "open_legs (apply_rule t now g db) tenant gid = [] \<longleftrightarrow> open_legs db tenant gid = []"
  using transition_open by (auto simp: apply_rule_def split: list.split option.split)

lemma held_moved:
  assumes "held tenant gid {b} db" and "ib_state b \<in> set expect"
    and "\<And>x. ib_state x \<in> set expect \<Longrightarrow> ib_state (change x) \<in> set (block_moves (ib_state x))"
  shows "held tenant gid {(change b)\<lparr>ib_history := ib_history b @ [ib_state (change b)]\<rparr>} (snd (transition tenant gid expect change db))"
proof -
  obtain res db' where tr: "transition tenant gid expect change db = (res, db')" by fastforce
  have ok: "groups_ok db'" by (rule transition_ok [OF held_ok [OF assms(1)] tr assms(3)])
  obtain x xs where x: "group_of db tenant gid = x # xs" using assms(1) by (cases "group_of db tenant gid") (auto simp: held_def group_of_def filter_empty_conv)
  then have "x \<in> set (group_of db tenant gid)" by simp
  then have b: "gl_block x = Some b" using assms(1) by (auto simp: held_def group_of_def)
  obtain w where w: "read_group db tenant gid expect change = Some w" "bw_new w = (change b)\<lparr>ib_history := ib_history b @ [ib_state (change b)]\<rparr>"
    using x b assms(2) by (simp add: read_group_def Let_def)
  have db': "db' = map (\<lambda>r. if gl_tenant r = tenant \<and> gl_group r = gid then r\<lparr>gl_block := Some (bw_new w)\<rparr> else r) db"
    using tr write_group_read [OF held_ok [OF assms(1)] w(1)] w(1) by (simp add: transition_def)
  have "\<exists>r \<in> set db'. gl_tenant r = tenant \<and> gl_group r = gid"
  proof -
    obtain r where r: "r \<in> set db" "gl_tenant r = tenant" "gl_group r = gid" using assms(1) unfolding held_def by blast
    then show ?thesis unfolding db' by (intro bexI [OF _ imageI [OF r(1), folded set_map]]) simp
  qed
  moreover have "gl_block r' = Some (bw_new w)" if r': "r' \<in> set db'" "gl_tenant r' = tenant \<and> gl_group r' = gid" for r'
  proof -
    obtain r where "r' = (if gl_tenant r = tenant \<and> gl_group r = gid then r\<lparr>gl_block := Some (bw_new w)\<rparr> else r)"
      using r'(1) unfolding db' set_map by (rule imageE)
    then show ?thesis using r'(2) by (cases "gl_tenant r = tenant \<and> gl_group r = gid") simp_all
  qed
  ultimately show ?thesis using ok w(2) unfolding held_def tr snd_conv by auto
qed

lemma fold_rule_open: "open_legs (fold (apply_rule t now) gs db) tenant gid = [] \<longleftrightarrow> open_legs db tenant gid = []"
  by (induction gs arbitrary: db) (simp_all add: apply_rule_open)

text \<open>His rule on a group that still waits past its deadline.\<close>

lemma apply_rule_moves:
  assumes "held tenant gid {b} db" and "open_legs db tenant gid \<noteq> []" and "ib_state b = INCOMPLETE" and "ib_deadline b = Some d" and "d \<le> now"
  shows "\<exists>b'. ib_state b' = (if ib_no_answer b = Some KEEP then KEPT else CLOSING) \<and> held tenant gid {b'} (apply_rule tenant now gid db)"
proof -
  let ?s = "if ib_no_answer b = Some KEEP then KEPT else CLOSING"
  let ?b = "b\<lparr>ib_state := ?s, ib_answered_by := Some ''timer'', ib_history := ib_history b @ [?s]\<rparr>"
  have legs: "gl_block x = Some b" if "x \<in> set (open_legs db tenant gid)" for x
    using that assms(1) by (auto simp: held_def open_legs_def group_of_def)
  obtain x xs where x: "open_legs db tenant gid = x # xs" using assms(2) by (cases "open_legs db tenant gid") auto
  have all: "filter (\<lambda>r. case gl_block r of None \<Rightarrow> False | Some b \<Rightarrow> ib_state b = INCOMPLETE) (open_legs db tenant gid) = open_legs db tenant gid"
    unfolding filter_id_conv using legs assms(3) by simp
  have "apply_rule tenant now gid db = snd (transition tenant gid [INCOMPLETE] (\<lambda>x. x\<lparr>ib_state := ?s, ib_answered_by := Some ''timer''\<rparr>) db)"
    unfolding apply_rule_def all x using legs [of x] x assms(3-5) by simp
  moreover have "held tenant gid {?b} (snd (transition tenant gid [INCOMPLETE] (\<lambda>x. x\<lparr>ib_state := ?s, ib_answered_by := Some ''timer''\<rparr>) db))"
    using held_moved [OF assms(1), of "[INCOMPLETE]" "\<lambda>x. x\<lparr>ib_state := ?s, ib_answered_by := Some ''timer''\<rparr>"] assms(3) by simp
  ultimately show ?thesis by (intro exI [of _ ?b]) simp
qed

lemma held_mono: "held tenant gid B db \<Longrightarrow> B \<subseteq> C \<Longrightarrow> held tenant gid C db"
  unfolding held_def by blast

text \<open>
  C10. The rule at the deadline is always applied. After one pass of the worker at or past the deadline of a group
  with an open leg, the group no longer waits: every leg is kept when his setting says so, else it is being
  closed or closed, whatever the other groups of the pass are and whatever can be closed now.
\<close>

theorem rule_answers_at_deadline:
  assumes "db = fold block_step evs []" and "r \<in> set db" and "gl_open r" and "gl_group r \<noteq> []"
    and "gl_block r = Some b" and "ib_state b = INCOMPLETE" and "ib_deadline b = Some d" and "d \<le> now"
    and "r' \<in> set (run_exits close (gl_tenant r) now db)" and "same_group r r'"
  shows "\<exists>b'. gl_block r' = Some b' \<and> (if ib_no_answer b = Some KEEP then ib_state b' = KEPT else ib_state b' \<in> {CLOSING, CLOSED})"
proof -
  let ?t = "gl_tenant r" and ?g = "gl_group r"
  have ok: "groups_ok db" unfolding assms(1) by (rule groups_ok_run)
  have row: "r \<in> set (open_legs db ?t ?g)" using assms(2,3) by (simp add: open_legs_def group_of_def)
  have "?g \<in> set (groups_in db ?t [INCOMPLETE])" using assms(2-6) by (auto simp: groups_in_def)
  moreover have "distinct (groups_in db ?t [INCOMPLETE])" by (simp add: groups_in_def)
  ultimately obtain ys zs where gs: "groups_in db ?t [INCOMPLETE] = ys @ ?g # zs" "?g \<notin> set ys"
    by (metis split_list_first)
  let ?db1 = "fold (apply_rule ?t now) ys db"
  have h1: "held ?t ?g {b} ?db1" using held_of_row [OF ok assms(2,5)] gs(2)
  proof (induction ys arbitrary: db)
    case (Cons y ys)
    have "held ?t ?g {b} (apply_rule ?t now y db)" by (rule held_rule [OF Cons.prems(1)]) (use Cons.prems(2) in simp)
    then show ?case using Cons.IH Cons.prems(2) by simp
  qed simp
  have "open_legs ?db1 ?t ?g \<noteq> []" unfolding fold_rule_open using row by auto
  then obtain b' where b': "ib_state b' = (if ib_no_answer b = Some KEEP then KEPT else CLOSING)" "held ?t ?g {b'} (apply_rule ?t now ?g ?db1)"
    using apply_rule_moves [OF h1 _ assms(6-8)] by blast
  have h2: "held ?t ?g {b'} (fold (apply_rule ?t now) zs (apply_rule ?t now ?g ?db1))"
    by (rule held_fold [OF b'(2) held_rule]) (use b'(1) in auto)
  let ?B = "{x. if ib_no_answer b = Some KEEP then ib_state x = KEPT else ib_state x \<in> {CLOSING, CLOSED}}"
  have h3: "held ?t ?g ?B (fold (apply_rule ?t now) zs (apply_rule ?t now ?g ?db1))" by (rule held_mono [OF h2]) (use b'(1) in simp)
  have "held ?t ?g ?B (run_exits close ?t now db)"
    unfolding run_exits_def Let_def gs(1) fold_append fold.simps comp_apply by (rule held_fold [OF h3 held_close]) (auto split: if_splits)
  then have "gl_block r' \<in> Some ` ?B" using assms(9,10) unfolding held_def same_group_def by simp
  then show ?thesis by auto
qed

section \<open>Concrete structures\<close>

text \<open>A structure with one leg open and one to place; the user chooses to complete it, and the placing raises.\<close>

definition half_done :: "block_event list" where
  "half_done = [NewStructure 1 ''g'' 7 1 False [ex_leg ''A'' ''SELL''] \<lparr>as_choice = Some CLOSE_FILLED, as_minutes = Some 5\<rparr> 0]"

definition half_sent :: "block_event list" where
  "half_sent = half_done @ [AnswerEvent [1] 1 ''g'' COMPLETE_REST [],
     CompleteEvent \<lparr>as_choice = Some CLOSE_FILLED, as_minutes = Some 5\<rparr> False True None 7 1 1 ''g'']"

definition half_block :: "block_state \<Rightarrow> string option \<Rightarrow> block_state list \<Rightarrow> incomplete_block" where
  "half_block s who hist = \<lparr>ib_state = s, ib_deadline = Some 300000000, ib_no_answer = Some CLOSE_FILLED, ib_minutes = Some 5, ib_live = False,
     ib_pending = [ex_leg ''A'' ''SELL''], ib_round = 1, ib_answered_by = who, ib_history = hist\<rparr>"

definition half_row :: "incomplete_block \<Rightarrow> group_leg" where
  "half_row b = \<lparr>gl_id = 1, gl_tenant = 1, gl_group = ''g'', gl_user = 7, gl_open = True, gl_block = Some b\<rparr>"

abbreviation sent_block :: incomplete_block where
  "sent_block \<equiv> half_block COMPLETING_SENT (Some ''user'') [COMPLETING, COMPLETING_SENT]"

lemma half_done_db: "[half_row (half_block INCOMPLETE None [])] = fold block_step half_done []"
  by code_simp

lemma half_sent_db: "[half_row sent_block] = fold block_step half_sent []"
  by code_simp

theorem incomplete_history_replays_witness:
  "last (INCOMPLETE # ib_history sent_block) = ib_state sent_block \<and> ib_state sent_block = COMPLETING_SENT"
  using incomplete_history_replays [OF half_sent_db, of "half_row sent_block" sent_block] by (simp add: half_row_def half_block_def)

theorem one_answer_wins_witness:
  "fst (write_all (reads [half_row (half_block INCOMPLETE None [])] 1 ''g''
      [([INCOMPLETE], \<lambda>b. b\<lparr>ib_state := COMPLETING\<rparr>), ([INCOMPLETE], \<lambda>b. b\<lparr>ib_state := CLOSING\<rparr>)]) [half_row (half_block INCOMPLETE None [])])
    = [Some (half_block COMPLETING None [COMPLETING]), None]"
proof -
  let ?db = "[half_row (half_block INCOMPLETE None [])]"
  let ?calls = "[([INCOMPLETE], \<lambda>b::incomplete_block. b\<lparr>ib_state := COMPLETING\<rparr>), ([INCOMPLETE], \<lambda>b. b\<lparr>ib_state := CLOSING\<rparr>)]"
  have reads: "reads ?db 1 ''g'' ?calls
      = [\<lparr>bw_first = 1, bw_old = half_block INCOMPLETE None [], bw_rest = [], bw_new = half_block COMPLETING None [COMPLETING]\<rparr>,
         \<lparr>bw_first = 1, bw_old = half_block INCOMPLETE None [], bw_rest = [], bw_new = half_block CLOSING None [CLOSING]\<rparr>]"
    by code_simp
  show ?thesis unfolding reads one_answer_wins [OF half_done_db reads] by simp
qed

theorem sent_completion_is_stuck_witness:
  "\<forall>later. rules_paused (group_of (fold block_step later [half_row sent_block]) 1 ''g'')"
  using sent_completion_is_stuck [OF half_sent_db, of "half_row sent_block" sent_block] by (simp add: half_row_def half_block_def)

theorem rule_answers_at_deadline_witness:
  "let db' = run_exits (\<lambda>_. []) 1 300000000 [half_row (half_block INCOMPLETE None [])] in
   db' = [half_row (half_block CLOSING (Some ''timer'') [CLOSING])] \<and> (\<exists>b'. gl_block (hd db') = Some b' \<and> ib_state b' \<in> {CLOSING, CLOSED})"
proof -
  let ?r = "half_row (half_block INCOMPLETE None [])" and ?r' = "half_row (half_block CLOSING (Some ''timer'') [CLOSING])"
  have run: "run_exits (\<lambda>_. []) 1 300000000 [?r] = [?r']" by code_simp
  have "\<exists>b'. gl_block ?r' = Some b' \<and> (if ib_no_answer (half_block INCOMPLETE None []) = Some KEEP then ib_state b' = KEPT else ib_state b' \<in> {CLOSING, CLOSED})"
    by (rule rule_answers_at_deadline [OF half_done_db, where r = "?r" and now = 300000000 and d = 300000000 and close = "\<lambda>_. []"])
      (use run in \<open>simp_all add: half_row_def half_block_def same_group_def\<close>)
  then show ?thesis unfolding run by (simp add: half_block_def)
qed

end
