(* ===== verification/Spec2Isabelle.thy ===== *)
theory Spec2Isabelle
  imports Tagging OrderSweeper TriggerRules ExitRules Dispatcher BrokerHealth ExitSafety BarBuilder AccountPlan ScreenRound ScreenTotal ScreenTyped
    RiskGate PaperVenue LiveLegs IncompleteOrder
begin

text \<open>
  Development header.
\<close>

end
